(* ===== verification/C_Base.thy ===== *)
theory C_Base
  imports
    Main
    "HOL-Library.Word"
    "HOL-Library.Multiset"
    "HOL-Library.Monad_Syntax"
begin

unbundle bit_operations_syntax

text \<open>
  The prelude of the development: the C machine types, memory that is read and written with
  a bounds check, signed arithmetic with an overflow check, and the lemmas on words and lists
  that the components share.

  A computation of the C code has type \<open>'a option\<close>. \<open>None\<close> means that the C program
  has no defined behaviour there (an access outside the object, a dereference of a null
  pointer, a signed overflow) or that it never returns. A theorem of the form
  \<open>f x = Some y\<close> therefore says that the code is memory safe on \<open>x\<close>, returns, and returns
  \<open>y\<close>.
\<close>

section \<open>Machine types\<close>

type_synonym i32 = "32 word" \<comment> \<open>an \<open>int\<close> object: 32 bits, read with \<open>sint\<close>\<close>
type_synonym u32 = "32 word" \<comment> \<open>\<open>uint32_t\<close>\<close>
type_synonym u16 = "16 word" \<comment> \<open>\<open>uint16_t\<close>\<close>
type_synonym u8 = "8 word"   \<comment> \<open>\<open>uint8_t\<close>, and one \<open>char\<close> of a buffer\<close>

section \<open>Checked memory\<close>

definition rd :: "'a list \<Rightarrow> nat \<Rightarrow> 'a option" where
  "rd xs i = (if i < length xs then Some (xs ! i) else None)"

definition wr :: "'a list \<Rightarrow> nat \<Rightarrow> 'a \<Rightarrow> 'a list option" where
  "wr xs i v = (if i < length xs then Some (xs[i := v]) else None)"

text \<open>The same accesses with an index of type \<open>int\<close>, which may be negative.\<close>

definition rdi :: "'a list \<Rightarrow> int \<Rightarrow> 'a option" where
  "rdi xs i = (if 0 \<le> i then rd xs (nat i) else None)"

definition wri :: "'a list \<Rightarrow> int \<Rightarrow> 'a \<Rightarrow> 'a list option" where
  "wri xs i v = (if 0 \<le> i then wr xs (nat i) v else None)"

lemma rd_ok [simp]: "i < length xs \<Longrightarrow> rd xs i = Some (xs ! i)"
  by (simp add: rd_def)

lemma rd_out [simp]: "length xs \<le> i \<Longrightarrow> rd xs i = None"
  by (simp add: rd_def)

lemma wr_ok [simp]: "i < length xs \<Longrightarrow> wr xs i v = Some (xs[i := v])"
  by (simp add: wr_def)

lemma rd_Some_iff: "rd xs i = Some x \<longleftrightarrow> i < length xs \<and> x = xs ! i"
  by (auto simp: rd_def)

lemma wr_Some_iff: "wr xs i v = Some ys \<longleftrightarrow> i < length xs \<and> ys = xs[i := v]"
  by (auto simp: wr_def)

lemma rd_middle: "rd (xs @ y # ys) (length xs) = Some y"
  by (simp add: rd_def)

lemma rdi_ok [simp]: "0 \<le> i \<Longrightarrow> i < int (length xs) \<Longrightarrow> rdi xs i = Some (xs ! nat i)"
  by (simp add: rdi_def nat_less_iff)

lemma wri_ok [simp]: "0 \<le> i \<Longrightarrow> i < int (length xs) \<Longrightarrow> wri xs i v = Some (xs[nat i := v])"
  by (simp add: wri_def nat_less_iff)

section \<open>Checked signed arithmetic\<close>

text \<open>
  A local variable of type \<open>int\<close> is a HOL integer; \<open>ck\<close> is the check that the result of
  an operation is a value of the type, since a signed overflow is undefined in C.
\<close>

definition ck :: "int \<Rightarrow> int option" where
  "ck x = (if - 2147483648 \<le> x \<and> x \<le> 2147483647 then Some x else None)"

text \<open>C division of signed integers truncates towards zero.\<close>

definition c_div :: "int \<Rightarrow> int \<Rightarrow> int" where
  "c_div a b = sgn a * sgn b * (\<bar>a\<bar> div \<bar>b\<bar>)"

lemma ck_ok [simp]: "- 2147483648 \<le> x \<Longrightarrow> x \<le> 2147483647 \<Longrightarrow> ck x = Some x"
  by (simp add: ck_def)

lemma c_div_nonneg: "0 \<le> a \<Longrightarrow> 0 < b \<Longrightarrow> c_div a b = a div b"
  by (cases "a = 0") (simp_all add: c_div_def sgn_if)

section \<open>Words\<close>

lemma unat_inc: "i < n \<Longrightarrow> unat (i + 1) = Suc (unat i)" for i n :: "'a::len word"
  by unat_arith

lemma unat_less: "i < n \<longleftrightarrow> unat i < unat n" for i n :: "'a::len word"
  by (rule word_less_nat_alt)

lemma unat_le: "i \<le> n \<longleftrightarrow> unat i \<le> unat n" for i n :: "'a::len word"
  by (rule word_le_nat_alt)

lemma unat_inc_less: "unat i < unat n \<Longrightarrow> unat (i + 1) = Suc (unat i)" for i n :: "'a::len word"
  by (rule unat_inc) (simp add: unat_less)

lemma unat_inc2_less: "unat (i + 1) < unat n \<Longrightarrow> unat (2 + i) = Suc (unat (i + 1))"
  for i n :: "'a::len word"
  using unat_inc_less [of "i + 1" n] by (simp add: add.commute)

lemma unat_dec: "0 < i \<Longrightarrow> unat (i - 1) = unat i - 1" for i :: "'a::len word"
  by (metis unat_minus_one word_greater_zero_iff)

lemma sint_less: "x <s y \<longleftrightarrow> sint x < sint y"
  by (rule word_sless_alt)

lemma unat_lt_u32: "unat n < 4294967296" for n :: u32
  using unsigned_less [of n, where 'a = nat] by simp

lemma sint_eq_iff: "sint x = sint y \<longleftrightarrow> x = y" for x y :: "'a::len word"
  by (rule word_eq_iff_signed [symmetric])

text \<open>\<open>(int)len\<close> of a length that fits.\<close>

lemma sint_of_small: "unat n < 2147483648 \<Longrightarrow> sint n = int (unat n)" for n :: u32
proof -
  assume "unat n < 2147483648"
  then have "int (unat n) < 2147483648" by linarith
  moreover have "- 2147483648 \<le> uint n" by (rule order_trans [of _ 0]) simp_all
  ultimately show ?thesis
    by (simp add: sint_uint signed_take_bit_int_eq_self_iff)
qed

text \<open>\<open>(int)len\<close> of a length that does not fit: the value wraps to a negative number.\<close>

lemma sint_of_large: "2147483648 \<le> unat n \<Longrightarrow> sint n = int (unat n) - 4294967296" for n :: u32
proof -
  assume large: "2147483648 \<le> unat n"
  define u where "u = int (unat n)"
  have u: "2147483648 \<le> u" "u < 4294967296"
    using large unat_lt_u32 [of n] unfolding u_def by linarith+
  have "sint n = (u + 2147483648) mod 4294967296 - 2147483648"
    using int_word_sint [of "uint n", where 'a = 32] by (simp add: u_def)
  also have "(u + 2147483648) mod 4294967296 = (u + 2147483648 - 4294967296) mod 4294967296"
    by (rule minus_mod_self2 [symmetric])
  also have "\<dots> = u + 2147483648 - 4294967296"
    using u by (intro mod_pos_pos_trivial) simp_all
  finally show ?thesis by (simp add: u_def)
qed

section \<open>Lists updated by index\<close>

lemma nth_upd: "i < length xs \<Longrightarrow> xs[i := v] ! j = (if i = j then v else xs ! j)"
  by simp

lemma mset_exchange:
  "i < length xs \<Longrightarrow> j < length xs \<Longrightarrow> mset (xs[i := xs ! j, j := xs ! i]) = mset xs"
  by (rule mset_swap)

lemma replicate_2_3: "replicate 2 c = [c, c]" "replicate 3 c = [c, c, c]"
  by (simp_all add: eval_nat_numeral)

text \<open>
  A value held in a local variable leaves a hole in the array; copying another element into
  the hole moves the hole to where the element was.
\<close>

lemma mset_hole_move:
  assumes "i < length xs" "j < length xs"
  shows "mset ((xs[j := xs ! i])[i := x]) = mset (xs[j := x])"
proof (cases "i = j")
  case False
  let ?ys = "xs[j := x]"
  have "(xs[j := xs ! i])[i := x] = ?ys[j := ?ys ! i, i := ?ys ! j]"
    using False assms by (simp add: list_update_swap)
  also have "mset \<dots> = mset ?ys"
    using assms by (intro mset_exchange) simp_all
  finally show ?thesis .
qed simp

section \<open>Bytes\<close>

text \<open>A statement about all bytes is decided by running through the 256 values.\<close>

lemma all_bytes: "(\<forall>n \<in> set [0..<256]. P (word_of_nat n :: u8)) \<Longrightarrow> P c"
proof -
  assume all: "\<forall>n \<in> set [0..<256]. P (word_of_nat n :: u8)"
  have "unat c \<in> set [0..<256]" using unsigned_less [of c, where 'a = nat] by simp
  with all have "P (word_of_nat (unat c))" by blast
  then show ?thesis by simp
qed

section \<open>Decimal output\<close>

text \<open>\<open>%d\<close> and \<open>%02d\<close>.\<close>

fun digits :: "nat \<Rightarrow> string" where
  "digits n = (if n < 10 then [char_of (48 + n)] else digits (n div 10) @ [char_of (48 + n mod 10)])"

declare digits.simps [simp del]

definition fmt_d :: "int \<Rightarrow> string" where
  "fmt_d i = (if i < 0 then ''-'' @ digits (nat (- i)) else digits (nat i))"

definition fmt_02d :: "int \<Rightarrow> string" where
  "fmt_02d i = (if 0 \<le> i \<and> i < 10 then ''0'' @ fmt_d i else fmt_d i)"

end
