(* ===== verification/Sort_Spec.thy ===== *)
theory Sort_Spec
  imports C_Base
begin

text \<open>
  What the routines of \<open>classic_sort.h\<close> promise, and what their proofs share: the macro
  \<open>swap_value\<close>, rearrangements confined to a segment of the array (\<open>seg_perm\<close>), and the
  interface \<open>array_sorter\<close> between the routines (its providers) and their callers.
\<close>

section \<open>The macro swap\_value\<close>

text \<open>
  \<open>a = a ^ b; b = a ^ b; a = a ^ b\<close> on the lvalues \<open>array[p]\<close> and \<open>array[q]\<close>: every
  evaluation of an operand reads the array again.
\<close>

definition xor_into :: "i32 list \<Rightarrow> nat \<Rightarrow> nat \<Rightarrow> nat \<Rightarrow> i32 list option" where
  "xor_into a d p q = do {
     x \<leftarrow> rd a p;
     y \<leftarrow> rd a q;
     wr a d (x XOR y) }"

definition swap_value :: "i32 list \<Rightarrow> nat \<Rightarrow> nat \<Rightarrow> i32 list option" where
  "swap_value a p q = do {
     a \<leftarrow> xor_into a p p q;
     a \<leftarrow> xor_into a q p q;
     xor_into a p p q }"

lemma swap_value_distinct:
  assumes "p < length a" "q < length a" "p \<noteq> q"
  shows "swap_value a p q = Some (a[p := a ! q, q := a ! p])"
proof -
  have "(x XOR y) XOR y = x" "x XOR y XOR x = y" "(x XOR y) XOR x = y" for x y :: i32
    by (simp_all add: xor.assoc xor.left_commute [of x y])
  then show ?thesis
    using assms by (simp add: swap_value_def xor_into_def list_update_swap [of q p])
qed

lemma swap_value_alias:
  assumes "p < length a"
  shows "swap_value a p p = Some (a[p := 0])"
  using assms by (simp add: swap_value_def xor_into_def)

section \<open>Order and rearrangement\<close>

text \<open>
  \<open>seg_perm lo hi a b\<close>: \<open>b\<close> is \<open>a\<close> with the elements of positions \<open>lo \<dots> hi - 1\<close>
  rearranged and every other position untouched.
\<close>

definition seg_perm :: "nat \<Rightarrow> nat \<Rightarrow> 'a list \<Rightarrow> 'a list \<Rightarrow> bool" where
  "seg_perm lo hi a b \<longleftrightarrow> mset b = mset a \<and> (\<forall>i. (i < lo \<or> hi \<le> i) \<and> i < length a \<longrightarrow> b ! i = a ! i)"

named_theorems seg_intros \<open>introduction rules for rearrangements of a segment\<close>

lemma seg_perm_refl [simp, seg_intros]: "seg_perm lo hi a a"
  by (simp add: seg_perm_def)

lemma seg_perm_length: "seg_perm lo hi a b \<Longrightarrow> length b = length a"
  by (auto simp: seg_perm_def dest: mset_eq_length)

lemma seg_perm_trans [trans]:
  "seg_perm lo hi a b \<Longrightarrow> seg_perm lo hi b c \<Longrightarrow> seg_perm lo hi a c"
  by (auto simp: seg_perm_def dest: mset_eq_length)

lemma seg_perm_mono:
  "seg_perm lo hi a b \<Longrightarrow> lo' \<le> lo \<Longrightarrow> hi \<le> hi' \<Longrightarrow> seg_perm lo' hi' a b"
  by (auto simp: seg_perm_def)

lemma seg_perm_nth:
  "seg_perm lo hi a b \<Longrightarrow> i < lo \<or> hi \<le> i \<Longrightarrow> i < length a \<Longrightarrow> b ! i = a ! i"
  by (simp add: seg_perm_def)

lemma seg_perm_exchange [seg_intros]:
  assumes "i < length a" "j < length a" "lo \<le> i" "i < hi" "lo \<le> j" "j < hi"
  shows "seg_perm lo hi a (a[i := a ! j, j := a ! i])"
  using assms mset_exchange [of i a j] by (auto simp: seg_perm_def nth_list_update)

text \<open>A rearrangement keeps what is stored inside the segment, as a multiset and as a set.\<close>

lemma seg_split:
  "lo \<le> hi \<Longrightarrow> hi \<le> length a \<Longrightarrow> a = take lo a @ take (hi - lo) (drop lo a) @ drop hi a"
  by (metis append_take_drop_id drop_drop le_add_diff_inverse2)

lemma seg_perm_take: "seg_perm lo hi a b \<Longrightarrow> take lo b = take lo a"
  by (rule nth_equalityI) (auto simp: seg_perm_length seg_perm_nth)

lemma seg_perm_drop: "seg_perm lo hi a b \<Longrightarrow> drop hi b = drop hi a"
  by (rule nth_equalityI) (auto simp: seg_perm_length seg_perm_nth)

lemma seg_perm_mset:
  assumes "seg_perm lo hi a b" "lo \<le> hi" "hi \<le> length a"
  shows "mset (take (hi - lo) (drop lo b)) = mset (take (hi - lo) (drop lo a))"
proof -
  have len: "length b = length a" using assms(1) by (rule seg_perm_length)
  have "mset (take lo b @ take (hi - lo) (drop lo b) @ drop hi b)
      = mset (take lo a @ take (hi - lo) (drop lo a) @ drop hi a)"
    using seg_split [of lo hi a] seg_split [of lo hi b] assms len
    by (simp add: seg_perm_def)
  then show ?thesis
    by (simp add: seg_perm_take [OF assms(1)] seg_perm_drop [OF assms(1)])
qed

lemma seg_perm_image:
  assumes "seg_perm lo hi a b" "hi \<le> length a" "lo \<le> i" "i < hi"
  shows "\<exists>j. lo \<le> j \<and> j < hi \<and> b ! i = a ! j"
proof -
  have "b ! i = take (hi - lo) (drop lo b) ! (i - lo)"
    using assms by (simp add: seg_perm_length)
  then have "b ! i \<in> set (take (hi - lo) (drop lo b))"
    using assms seg_perm_length [OF assms(1)]
    by (metis (no_types, lifting) diff_less_mono length_drop length_take min.absorb4 min.absorb2
        diff_le_mono nth_mem)
  also have "\<dots> = set (take (hi - lo) (drop lo a))"
    using seg_perm_mset [OF assms(1)] assms by (metis le_trans less_imp_le mset_eq_setD)
  finally obtain k where "k < hi - lo" "b ! i = take (hi - lo) (drop lo a) ! k"
    by (auto simp: in_set_conv_nth)
  then show ?thesis
    using assms by (intro exI [of _ "lo + k"]) auto
qed

lemma seg_perm_all:
  assumes "seg_perm lo hi a b" "hi \<le> length a" "\<And>j. lo \<le> j \<Longrightarrow> j < hi \<Longrightarrow> P (a ! j)"
    and "lo \<le> i" "i < hi"
  shows "P (b ! i)"
  using seg_perm_image [OF assms(1,2,4,5)] assms(3) by auto

section \<open>Moving a hole\<close>

text \<open>
  The insertion loops and the partition loop keep one element in a local variable and copy
  others over its old place. \<open>a[j := x]\<close> is then the array with the hole \<open>j\<close> filled.
\<close>

lemma seg_hole_start: "j < length a \<Longrightarrow> seg_perm lo hi a (a[j := a ! j])"
  by simp

lemma seg_hole_move:
  assumes "seg_perm lo hi a0 (a[j := x])"
    and "i < length a" "lo \<le> i" "i < hi" "j < length a" "lo \<le> j" "j < hi"
  shows "seg_perm lo hi a0 ((a[j := a ! i])[i := x])"
  using assms mset_hole_move [of i a j x]
  by (auto simp: seg_perm_def nth_list_update)

text \<open>
  Insertion with a stride: \<open>class_sorted h c m a\<close> says that the positions below \<open>m\<close> that
  are \<open>c\<close> modulo \<open>h\<close> are in order (\<open>h = 1\<close>: all of them). \<open>hole_inv\<close> is the invariant of
  the loop that shifts elements up to make room for \<open>x\<close>, with the hole at \<open>j\<close>.
\<close>

definition class_sorted :: "nat \<Rightarrow> nat \<Rightarrow> nat \<Rightarrow> i32 list \<Rightarrow> bool" where
  "class_sorted h c m a \<longleftrightarrow>
     (\<forall>p q. p < q \<and> q < m \<and> p mod h = c \<and> q mod h = c \<longrightarrow> sint (a ! p) \<le> sint (a ! q))"

definition hole_inv :: "nat \<Rightarrow> nat \<Rightarrow> nat \<Rightarrow> i32 \<Rightarrow> i32 list \<Rightarrow> bool" where
  "hole_inv h i j x a \<longleftrightarrow> j \<le> i \<and> i < length a \<and> j mod h = i mod h \<and>
     (\<forall>p q. p < q \<and> q \<le> i \<and> p mod h = i mod h \<and> q mod h = i mod h \<and> p \<noteq> j \<and> q \<noteq> j
        \<longrightarrow> sint (a ! p) \<le> sint (a ! q)) \<and>
     (\<forall>q. j < q \<and> q \<le> i \<and> q mod h = i mod h \<longrightarrow> sint x < sint (a ! q))"

lemma same_class_gap: "p < q \<Longrightarrow> p mod h = q mod h \<Longrightarrow> p + h \<le> q" for p q h :: nat
  by (metis dvd_imp_le le_diff_conv2 less_imp_le mod_eq_dvd_iff_nat zero_less_diff add.commute)

lemma hole_inv_start:
  assumes "class_sorted h (i mod h) i a" "i < length a"
  shows "hole_inv h i i (a ! i) a"
  using assms by (auto simp: class_sorted_def hole_inv_def le_less)

lemma hole_inv_shift:
  assumes inv: "hole_inv h i j x a" and "0 < h" "h \<le> j" "sint x < sint (a ! (j - h))"
  shows "hole_inv h i (j - h) x (a[j := a ! (j - h)])"
proof -
  let ?b = "a[j := a ! (j - h)]"
  have cls: "(j - h) mod h = i mod h" "j mod h = i mod h" "j < length a" "j \<le> i"
    using assms by (auto simp: hole_inv_def mod_if [of j])
  have gap: "p < j - h" if "p < j" "p \<noteq> j - h" "p mod h = i mod h" for p
    using same_class_gap [of p j h] that cls by linarith
  have gap': "q = j \<or> j < q" if "j - h < q" "q mod h = i mod h" for q
    using same_class_gap [of "j - h" q h] that cls assms(3) by linarith
  have old: "sint (a ! p) \<le> sint (a ! q)"
    if "p < q" "q \<le> i" "p mod h = i mod h" "q mod h = i mod h" "p \<noteq> j" "q \<noteq> j" for p q
    using inv that by (auto simp: hole_inv_def)
  have low: "sint x < sint (a ! q)" if "j < q" "q \<le> i" "q mod h = i mod h" for q
    using inv that by (auto simp: hole_inv_def)
  have ord: "sint (?b ! p) \<le> sint (?b ! q)"
    if "p < q" "q \<le> i" "p mod h = i mod h" "q mod h = i mod h" "p \<noteq> j - h" "q \<noteq> j - h" for p q
  proof (cases "q = j")
    case True
    with that gap [of p] have "p < j - h" by simp
    with True that cls old [of p "j - h"] assms(2,3) show ?thesis by simp
  next
    case False
    with that cls old [of "j - h" q] old [of p q] assms(2,3) show ?thesis
      by (cases "p = j") auto
  qed
  have "sint x < sint (?b ! q)" if "j - h < q" "q \<le> i" "q mod h = i mod h" for q
    using gap' [OF that(1,3)] low [of q] that cls assms(4) by auto
  with ord cls assms(2,3) inv show ?thesis
    by (auto simp: hole_inv_def)
qed

lemma hole_inv_stop:
  assumes inv: "hole_inv h i j x a" and "0 < h" and stop: "j < h \<or> sint (a ! (j - h)) \<le> sint x"
  shows "class_sorted h (i mod h) (Suc i) (a[j := x])"
proof -
  have below: "sint (a ! p) \<le> sint x" if "p < j" "p mod h = i mod h" for p
  proof -
    have "p + h \<le> j" using same_class_gap [of p j h] that inv by (simp add: hole_inv_def)
    moreover have "(j - h) mod h = i mod h"
      using inv \<open>p + h \<le> j\<close> by (auto simp: hole_inv_def le_mod_geq)
    moreover have "p = j - h \<or> p < j - h" "j - h \<le> i" "j - h \<noteq> j" "p \<noteq> j"
      using \<open>p + h \<le> j\<close> \<open>0 < h\<close> inv by (auto simp: hole_inv_def)
    ultimately have "sint (a ! p) \<le> sint (a ! (j - h))"
      using inv that by (auto simp: hole_inv_def)
    with stop \<open>p + h \<le> j\<close> show ?thesis by linarith
  qed
  show ?thesis
    using inv below by (auto simp: class_sorted_def hole_inv_def nth_list_update less_Suc_eq_le less_imp_le)
qed

text \<open>The reference result: the first \<open>n\<close> elements in ascending order, the rest untouched.\<close>

definition sorted_prefix :: "nat \<Rightarrow> i32 list \<Rightarrow> i32 list" where
  "sorted_prefix n a = sort_key sint (take n a) @ drop n a"

lemma sort_key_sint_unique:
  assumes "sorted (map sint xs)" "mset xs = mset ys"
  shows "xs = sort_key sint (ys :: i32 list)"
proof -
  have "mset (map sint (sort_key sint ys)) = mset (map sint xs)"
    using assms(2) by simp
  moreover have "sorted (map sint (sort_key sint ys))"
    by (rule sorted_sort_key)
  ultimately have "map sint xs = map sint (sort_key sint ys)"
    using assms(1) by (metis properties_for_sort)
  then show ?thesis by (simp add: inj_map_eq_map)
qed

lemma sorted_prefixI:
  assumes perm: "seg_perm 0 n a b" and len: "n \<le> length a"
    and ord: "\<And>i j. i < j \<Longrightarrow> j < n \<Longrightarrow> sint (b ! i) \<le> sint (b ! j)"
  shows "b = sorted_prefix n a"
proof -
  have lb: "length b = length a" using perm by (rule seg_perm_length)
  have "sorted (map sint (take n b))"
    using len lb ord by (auto simp: sorted_iff_nth_mono_less)
  moreover have "mset (take n b) = mset (take n a)"
    using seg_perm_mset [OF perm] len by simp
  ultimately have "take n b = sort_key sint (take n a)"
    by (rule sort_key_sint_unique)
  then show ?thesis
    using seg_perm_drop [OF perm] by (metis sorted_prefix_def append_take_drop_id)
qed

lemma length_sorted_prefix [simp]: "length (sorted_prefix n a) = length a"
  by (simp add: sorted_prefix_def)

lemma seg_perm_sorted_prefix: "n \<le> length a \<Longrightarrow> seg_perm 0 n a (sorted_prefix n a)"
proof -
  assume n: "n \<le> length a"
  have "mset (sorted_prefix n a) = mset (take n a @ drop n a)"
    by (simp add: sorted_prefix_def del: append_take_drop_id)
  with n show ?thesis
    by (auto simp: seg_perm_def sorted_prefix_def nth_append)
qed

lemma sorted_prefix_perm:
  assumes "seg_perm 0 n a b" "n \<le> length a"
  shows "sorted_prefix n b = sorted_prefix n a"
proof (rule sorted_prefixI [OF _ assms(2)])
  show "seg_perm 0 n a (sorted_prefix n b)"
    using assms by (metis seg_perm_length seg_perm_sorted_prefix seg_perm_trans)
  fix i j assume "i < j" "j < n"
  moreover have "sorted (map sint (sort_key sint (take n b)))"
    by (rule sorted_sort_key)
  ultimately show "sint (sorted_prefix n b ! i) \<le> sint (sorted_prefix n b ! j)"
    using assms seg_perm_length [OF assms(1)]
    by (simp add: sorted_prefix_def nth_append sorted_iff_nth_mono_less)
qed

section \<open>The interface of the sorting routines\<close>

text \<open>
  \<open>sort_func_t\<close> in \<open>main_test.c\<close>: a routine that takes the array and its length and sorts
  in place. \<open>cap\<close> is the largest length for which the routine keeps its promise. A caller
  may rely on the law \<open>sorts\<close> and on what follows from it.
\<close>

locale array_sorter =
  fixes sort_func :: "i32 list \<Rightarrow> u32 \<Rightarrow> i32 list option"
    and cap :: nat
  assumes sorts: "unat n \<le> length a \<Longrightarrow> unat n \<le> cap \<Longrightarrow>
    sort_func a n = Some (sorted_prefix (unat n) a)"
begin

lemma order_insensitive:
  assumes "seg_perm 0 (unat n) a b" "unat n \<le> length a" "unat n \<le> cap"
  shows "sort_func b n = sort_func a n"
  using assms by (simp add: sorts sorted_prefix_perm seg_perm_length)

lemma sort_twice:
  assumes "unat n \<le> length a" "unat n \<le> cap"
  shows "sort_func a n \<bind> (\<lambda>b. sort_func b n) = sort_func a n"
  using assms by (simp add: sorts sorted_prefix_perm seg_perm_sorted_prefix)

lemma whole_array:
  assumes "length a = unat n" "unat n \<le> cap"
  shows "sort_func a n = Some (sort_key sint a)"
  using assms by (simp add: sorts sorted_prefix_def)

end

section \<open>Properties of the macro\<close>

text \<open>
  The exclusive-or exchange of two different cells of an array exchanges their values and
  touches nothing else; both cells must exist.
\<close>

theorem swap_value_exchanges:
  assumes "p < length a" "q < length a" "p \<noteq> q"
  shows "swap_value a p q = Some (a[p := a ! q, q := a ! p])"
  using assms by (rule swap_value_distinct)

theorem swap_value_exchanges_witness:
  "swap_value [5, 6, 7] 0 2 = Some [7, 6, 5]"
  using swap_value_exchanges [of 0 "[5, 6, 7]" 2] by (simp add: numeral_2_eq_2)

text \<open>
  Applied to one cell twice the macro does not keep the value but clears it. This is why
  every caller of the macro makes sure that the two cells differ.
\<close>

theorem swap_value_clears_alias:
  assumes "p < length a"
  shows "swap_value a p p = Some (a[p := 0])"
  using assms by (rule swap_value_alias)

theorem swap_value_clears_alias_witness:
  "swap_value [5, 6, 7] 1 1 = Some [5, 0, 7]"
  using swap_value_clears_alias [of 1 "[5, 6, 7]"] by simp

end
