(* ===== verification/Sort_Quadratic.thy ===== *)
theory Sort_Quadratic
  imports Sort_Spec
begin

text \<open>
  \<open>bubble_sort\<close>, \<open>select_sort\<close> and \<open>insert_sort\<close> of \<open>classic_sort.c\<close>. The indices are
  \<open>uint32_t\<close> and stay words. Each loop is a recursive function; each access is checked.
\<close>

section \<open>Bubble sort\<close>

text \<open>The inner loop \<open>while (++lo < hi)\<close>; it hands on \<open>lst\<close> and the array.\<close>

function bubble_scan :: "u32 \<Rightarrow> u32 \<Rightarrow> u32 \<Rightarrow> i32 list \<Rightarrow> (u32 \<times> i32 list) option" where
  "bubble_scan hi lo lst a =
     (let lo = lo + 1 in
      if lo < hi then do {
        x \<leftarrow> rd a (unat (lo - 1));
        y \<leftarrow> rd a (unat lo);
        if y <s x then do {
          a \<leftarrow> swap_value a (unat (lo - 1)) (unat lo);
          bubble_scan hi lo lo a }
        else bubble_scan hi lo lst a }
      else Some (lst, a))"
  by pat_completeness auto
termination
  by (relation "measure (\<lambda>(hi, lo, _, _). unat hi - unat (lo + 1))")
    (auto simp: unat_inc2_less unat_less)

declare bubble_scan.simps [simp del]

text \<open>
  Before the test of position \<open>lo + 1\<close>: from \<open>lst\<close> up to \<open>lo\<close>, and from \<open>hi\<close> on, every
  element is at least as large as everything before it.
\<close>

definition scan_inv :: "nat \<Rightarrow> nat \<Rightarrow> nat \<Rightarrow> nat \<Rightarrow> i32 list \<Rightarrow> bool" where
  "scan_inv n h l lst a \<longleftrightarrow>
     (\<forall>i j. i < j \<and> (lst \<le> j \<and> j \<le> l \<or> h \<le> j \<and> j < n) \<longrightarrow> sint (a ! i) \<le> sint (a ! j))"

lemma scan_inv_keep:
  assumes "scan_inv n h l lst a" "lst \<le> l" "sint (a ! l) \<le> sint (a ! Suc l)"
  shows "scan_inv n h (Suc l) lst a"
  unfolding scan_inv_def
proof (intro allI impI)
  fix i j assume ij: "i < j \<and> (lst \<le> j \<and> j \<le> Suc l \<or> h \<le> j \<and> j < n)"
  show "sint (a ! i) \<le> sint (a ! j)"
  proof (cases "j = Suc l \<and> i < l")
    case True
    then have "sint (a ! i) \<le> sint (a ! l)"
      using assms(1,2) by (auto simp: scan_inv_def)
    with True assms(3) show ?thesis by simp
  next
    case False
    with ij assms show ?thesis by (auto simp: scan_inv_def less_Suc_eq le_Suc_eq)
  qed
qed

lemma scan_inv_swap:
  assumes inv: "scan_inv n h l lst a" and "lst \<le> l" "Suc l < h" "h \<le> n" "n \<le> length a"
    and gt: "sint (a ! Suc l) < sint (a ! l)"
  shows "scan_inv n h (Suc l) (Suc l) (a[l := a ! Suc l, Suc l := a ! l])"
  unfolding scan_inv_def
proof (intro allI impI)
  let ?b = "a[l := a ! Suc l, Suc l := a ! l]"
  fix i j assume ij: "i < j \<and> (Suc l \<le> j \<and> j \<le> Suc l \<or> h \<le> j \<and> j < n)"
  have below: "sint (a ! k) \<le> sint (a ! l)" if "k \<le> Suc l" for k
    using inv that assms(2) gt by (cases "k = l \<or> k = Suc l") (auto simp: scan_inv_def)
  have above: "sint (a ! k) \<le> sint (a ! j)" if "h \<le> j" "k < j" "j < n" for k
    using inv that by (auto simp: scan_inv_def)
  show "sint (?b ! i) \<le> sint (?b ! j)"
  proof (cases "j = Suc l")
    case True
    then show ?thesis
      using ij assms below by (auto simp: nth_list_update)
  next
    case False
    with ij have j: "h \<le> j" "j < n" by auto
    then show ?thesis
      using ij assms above [OF j(1) _ j(2)] by (auto simp: nth_list_update)
  qed
qed

lemma scan_inv_exit:
  assumes "scan_inv n (Suc l) l lst a"
  shows "scan_inv n lst 0 0 a"
  unfolding scan_inv_def
proof (intro allI impI)
  fix i j assume "i < j \<and> (0 \<le> j \<and> j \<le> 0 \<or> lst \<le> j \<and> j < n)"
  then show "sint (a ! i) \<le> sint (a ! j)"
    using assms by (cases "j \<le> l") (auto simp: scan_inv_def)
qed

lemma bubble_scan_correct:
  assumes "unat lo < unat hi" "unat hi \<le> n" "n \<le> length a" "unat lst \<le> unat lo"
    and "scan_inv n (unat hi) (unat lo) (unat lst) a"
  shows "\<exists>lst' b. bubble_scan hi lo lst a = Some (lst', b) \<and> lst' < hi \<and>
    seg_perm 0 n a b \<and> scan_inv n (unat lst') 0 0 b"
  using assms
proof (induction hi lo lst a rule: bubble_scan.induct)
  case (1 hi lo lst a)
  have lo1: "unat (lo + 1) = Suc (unat lo)"
    using "1.prems"(1) by (simp add: unat_inc [of lo hi] unat_less)
  show ?case
  proof (cases "lo + 1 < hi")
    case False
    then have "unat hi = Suc (unat lo)"
      using "1.prems"(1) lo1 by (simp add: unat_less)
    then have "scan_inv n (unat lst) 0 0 a"
      using "1.prems" by (metis scan_inv_exit)
    with False "1.prems" show ?thesis
      by (auto simp: bubble_scan.simps [of hi lo] unat_less)
  next
    case True
    then have l: "Suc (unat lo) < unat hi" using lo1 by (simp add: unat_less)
    have in1: "unat lo < length a" "Suc (unat lo) < length a" using l "1.prems" by auto
    show ?thesis
    proof (cases "a ! Suc (unat lo) <s a ! unat lo")
      case swap: True
      let ?b = "a[unat lo := a ! Suc (unat lo), Suc (unat lo) := a ! unat lo]"
      have sw: "swap_value a (unat lo) (Suc (unat lo)) = Some ?b"
        using in1 by (intro swap_value_distinct) auto
      have "scan_inv n (unat hi) (Suc (unat lo)) (Suc (unat lo)) ?b"
        using "1.prems" l swap
        by (intro scan_inv_swap [where lst = "unat lst"]) (auto simp: sint_less)
      then obtain lst' b where ih: "bubble_scan hi (lo + 1) (lo + 1) ?b = Some (lst', b)"
        "lst' < hi" "seg_perm 0 n ?b b" "scan_inv n (unat lst') 0 0 b"
        using "1.IH"(1) [OF refl True, of "a ! unat lo" "a ! Suc (unat lo)" ?b]
          in1 swap sw l lo1 "1.prems" by auto
      moreover have "seg_perm 0 n a ?b"
        using l "1.prems" by (intro seg_perm_exchange) auto
      ultimately show ?thesis
        using True swap sw in1 lo1 seg_perm_trans
        by (fastforce simp: bubble_scan.simps [of hi lo])
    next
      case keep: False
      have "scan_inv n (unat hi) (Suc (unat lo)) (unat lst) a"
        using "1.prems" keep by (intro scan_inv_keep) (auto simp: sint_less)
      then show ?thesis
        using "1.IH"(2) [OF refl True, of "a ! unat lo" "a ! Suc (unat lo)"]
          True keep in1 l lo1 "1.prems" by (simp add: bubble_scan.simps [of hi lo])
    qed
  qed
qed

lemma bubble_scan_last:
  "bubble_scan hi lo lst a = Some (lst', b) \<Longrightarrow> lst < hi \<Longrightarrow> lst' < hi"
proof (induction hi lo lst a rule: bubble_scan.induct)
  case (1 hi lo lst a)
  show ?case
  proof (cases "lo + 1 < hi")
    case False
    with "1.prems" show ?thesis by (simp add: bubble_scan.simps [of hi lo])
  next
    case True
    with "1.prems" obtain x y where xy: "rd a (unat lo) = Some x" "rd a (unat (lo + 1)) = Some y"
      by (auto simp: bubble_scan.simps [of hi lo] Let_def bind_eq_Some_conv)
    with True "1.prems" "1.IH" [OF refl True] show ?thesis
      by (cases "y <s x") (auto simp: bubble_scan.simps [of hi lo] Let_def bind_eq_Some_conv)
  qed
qed

text \<open>The outer loop \<open>for ( ; lo < hi; hi = last, lo = 0)\<close>.\<close>

function bubble_passes :: "u32 \<Rightarrow> u32 \<Rightarrow> i32 list \<Rightarrow> i32 list option" where
  "bubble_passes lo hi a =
     (if lo < hi then do {
        (lst, a) \<leftarrow> bubble_scan hi lo lo a;
        bubble_passes 0 lst a }
      else Some a)"
  by pat_completeness auto
termination
  by (relation "measure (\<lambda>(_, hi, _). unat hi)") (auto simp: unat_less dest: bubble_scan_last)

declare bubble_passes.simps [simp del]

definition bubble_sort :: "i32 list \<Rightarrow> u32 \<Rightarrow> i32 list option" where
  "bubble_sort a len = bubble_passes 0 len a"

lemma bubble_passes_correct:
  assumes "unat hi \<le> n" "n \<le> length a" "scan_inv n (unat hi) 0 0 a"
  shows "\<exists>b. bubble_passes 0 hi a = Some b \<and> seg_perm 0 n a b \<and> scan_inv n 0 0 0 b"
  using assms
proof (induction "0 :: u32" hi a rule: bubble_passes.induct)
  case (1 hi a)
  show ?case
  proof (cases "0 < hi")
    case False
    with 1 show ?thesis by (auto simp: bubble_passes.simps [of 0 hi] unat_less)
  next
    case True
    then obtain lst b where scan: "bubble_scan hi 0 0 a = Some (lst, b)" "lst < hi"
      "seg_perm 0 n a b" "scan_inv n (unat lst) 0 0 b"
      using bubble_scan_correct [of 0 hi n a 0] "1.prems" by (auto simp: unat_less)
    then obtain c where "bubble_passes 0 lst b = Some c" "seg_perm 0 n b c" "scan_inv n 0 0 0 c"
      using "1.hyps" [OF True scan(1) refl] "1.prems" seg_perm_length [OF scan(3)]
      by (auto simp: unat_less)
    with True scan show ?thesis
      using seg_perm_trans by (fastforce simp: bubble_passes.simps [of 0 hi])
  qed
qed

lemma bubble_sort_sorts:
  assumes "unat n \<le> length a"
  shows "bubble_sort a n = Some (sorted_prefix (unat n) a)"
proof -
  have "scan_inv (unat n) (unat n) 0 0 a" by (auto simp: scan_inv_def)
  then obtain b where "bubble_passes 0 n a = Some b" "seg_perm 0 (unat n) a b" "scan_inv (unat n) 0 0 0 b"
    using bubble_passes_correct [of n "unat n" a] assms by auto
  moreover from this have "b = sorted_prefix (unat n) a"
    using assms by (intro sorted_prefixI) (auto simp: scan_inv_def)
  ultimately show ?thesis by (simp add: bubble_sort_def)
qed

interpretation bubble: array_sorter bubble_sort "2 ^ 32"
  by unfold_locales (rule bubble_sort_sorts)

section \<open>Selection sort\<close>

text \<open>The inner loop \<open>for (j = i + 1; j < len; j++)\<close>; it hands on \<open>min_index\<close>.\<close>

function select_scan :: "u32 \<Rightarrow> u32 \<Rightarrow> u32 \<Rightarrow> i32 list \<Rightarrow> u32 option" where
  "select_scan len j min_index a =
     (if j < len then do {
        x \<leftarrow> rd a (unat j);
        y \<leftarrow> rd a (unat min_index);
        select_scan len (j + 1) (if x <s y then j else min_index) a }
      else Some min_index)"
  by pat_completeness auto
termination
  by (relation "measure (\<lambda>(len, j, _, _). unat len - unat j)") (auto simp: unat_inc_less unat_less)

function select_loop :: "u32 \<Rightarrow> u32 \<Rightarrow> i32 list \<Rightarrow> i32 list option" where
  "select_loop len i a =
     (if i < len then do {
        min_index \<leftarrow> select_scan len (i + 1) i a;
        a \<leftarrow> (if min_index \<noteq> i then swap_value a (unat i) (unat min_index) else Some a);
        select_loop len (i + 1) a }
      else Some a)"
  by pat_completeness auto
termination
  by (relation "measure (\<lambda>(len, i, _). unat len - unat i)") (auto simp: unat_inc_less unat_less)

declare select_scan.simps [simp del] select_loop.simps [simp del]

definition select_sort :: "i32 list \<Rightarrow> u32 \<Rightarrow> i32 list option" where
  "select_sort a len = select_loop len 0 a"

lemma select_scan_correct:
  assumes "unat len \<le> length a" "i \<le> unat m" "m < j" "j \<le> len"
    and "\<And>q. i \<le> q \<Longrightarrow> q < unat j \<Longrightarrow> sint (a ! unat m) \<le> sint (a ! q)"
  shows "\<exists>m'. select_scan len j m a = Some m' \<and> i \<le> unat m' \<and> m' < len \<and>
    (\<forall>q. i \<le> q \<and> q < unat len \<longrightarrow> sint (a ! unat m') \<le> sint (a ! q))"
  using assms
proof (induction len j m a rule: select_scan.induct)
  case (1 len j m a)
  show ?case
  proof (cases "j < len")
    case False
    with "1.prems" have "j = len" by simp
    with "1.prems" show ?thesis by (auto simp: select_scan.simps [of len len])
  next
    case True
    let ?m = "if a ! unat j <s a ! unat m then j else m"
    have j: "unat (j + 1) = Suc (unat j)" using True by (rule unat_inc)
    have rds: "rd a (unat j) = Some (a ! unat j)" "rd a (unat m) = Some (a ! unat m)"
      using True "1.prems" by (auto simp: unat_less)
    have "sint (a ! unat ?m) \<le> sint (a ! q)" if "i \<le> q" "q < unat (j + 1)" for q
      using that "1.prems"(5) [of q] j by (auto simp: less_Suc_eq sint_less)
    moreover have "i \<le> unat ?m" "?m < j + 1" "j + 1 \<le> len"
      using "1.prems" True j by (auto simp: unat_less unat_le)
    ultimately show ?thesis
      using "1.IH" [OF True rds] "1.prems"(1) True rds by (simp add: select_scan.simps [of len j])
  qed
qed

lemma select_loop_correct:
  assumes "unat len \<le> length a" "i \<le> len"
    and "\<And>p q. p < q \<Longrightarrow> p < unat i \<Longrightarrow> q < unat len \<Longrightarrow> sint (a ! p) \<le> sint (a ! q)"
  shows "\<exists>b. select_loop len i a = Some b \<and> seg_perm 0 (unat len) a b \<and>
    (\<forall>p q. p < q \<and> q < unat len \<longrightarrow> sint (b ! p) \<le> sint (b ! q))"
  using assms
proof (induction len i a rule: select_loop.induct)
  case (1 len i a)
  show ?case
  proof (cases "i < len")
    case False
    with "1.prems" have "i = len" by simp
    with "1.prems" show ?thesis by (auto simp: select_loop.simps [of len len])
  next
    case True
    have i: "unat (i + 1) = Suc (unat i)" using True by (rule unat_inc)
    obtain m where m: "select_scan len (i + 1) i a = Some m" "unat i \<le> unat m" "m < len"
      "\<And>q. unat i \<le> q \<Longrightarrow> q < unat len \<Longrightarrow> sint (a ! unat m) \<le> sint (a ! q)"
      using select_scan_correct [of len a "unat i" i "i + 1"] "1.prems" True i
      by (auto simp: unat_less unat_le less_Suc_eq_le)
    define b where "b = a[unat i := a ! unat m, unat m := a ! unat i]"
    have in_a: "unat i < length a" "unat m < length a" "unat i < unat len" "unat m < unat len"
      using True m "1.prems" by (auto simp: unat_less)
    have step: "(if m \<noteq> i then swap_value a (unat i) (unat m) else Some a) = Some b"
      using in_a by (auto simp: b_def swap_value_distinct word_unat_eq_iff)
    have "sint (b ! p) \<le> sint (b ! q)" if "p < q" "p < unat (i + 1)" "q < unat len" for p q
      using that m(2,4) "1.prems"(1,3) in_a i
      by (auto simp: b_def nth_list_update less_Suc_eq)
    moreover have "i + 1 \<le> len" using True i by (simp add: unat_less unat_le)
    moreover have perm: "seg_perm 0 (unat len) a b"
      unfolding b_def using in_a by (intro seg_perm_exchange) auto
    ultimately obtain c where "select_loop len (i + 1) b = Some c" "seg_perm 0 (unat len) b c"
      "\<forall>p q. p < q \<and> q < unat len \<longrightarrow> sint (c ! p) \<le> sint (c ! q)"
      using "1.IH" [OF True m(1) step] "1.prems"(1) seg_perm_length [OF perm] by auto
    then show ?thesis
      using True m(1) step perm seg_perm_trans by (fastforce simp: select_loop.simps [of len i])
  qed
qed

lemma select_sort_sorts:
  assumes "unat n \<le> length a"
  shows "select_sort a n = Some (sorted_prefix (unat n) a)"
proof -
  obtain b where "select_loop n 0 a = Some b" "seg_perm 0 (unat n) a b"
    "\<forall>p q. p < q \<and> q < unat n \<longrightarrow> sint (b ! p) \<le> sint (b ! q)"
    using select_loop_correct [of n a 0] assms by auto
  then show ?thesis
    using sorted_prefixI [of "unat n" a b] assms by (simp add: select_sort_def)
qed

interpretation select: array_sorter select_sort "2 ^ 32"
  by unfold_locales (rule select_sort_sorts)

section \<open>Insertion sort\<close>

text \<open>
  The inner loop \<open>for (j = i; j > 0 && tmp < array[j - 1]; j--)\<close>; it hands on \<open>j\<close>, the
  position of the hole, and the array.
\<close>

function insert_shift :: "i32 \<Rightarrow> u32 \<Rightarrow> i32 list \<Rightarrow> (u32 \<times> i32 list) option" where
  "insert_shift tmp j a =
     (if j > 0 then do {
        x \<leftarrow> rd a (unat (j - 1));
        if tmp <s x then do {
          y \<leftarrow> rd a (unat (j - 1));
          a \<leftarrow> wr a (unat j) y;
          insert_shift tmp (j - 1) a }
        else Some (j, a) }
      else Some (j, a))"
  by pat_completeness auto
termination
  by (relation "measure (\<lambda>(_, j, _). unat j)") (auto simp: unat_dec unat_less)

function insert_loop :: "u32 \<Rightarrow> u32 \<Rightarrow> i32 list \<Rightarrow> i32 list option" where
  "insert_loop len i a =
     (if i < len then do {
        tmp \<leftarrow> rd a (unat i);
        (j, a) \<leftarrow> insert_shift tmp i a;
        a \<leftarrow> wr a (unat j) tmp;
        insert_loop len (i + 1) a }
      else Some a)"
  by pat_completeness auto
termination
  by (relation "measure (\<lambda>(len, i, _). unat len - unat i)") (auto simp: unat_inc_less unat_less)

declare insert_shift.simps [simp del] insert_loop.simps [simp del]

definition insert_sort :: "i32 list \<Rightarrow> u32 \<Rightarrow> i32 list option" where
  "insert_sort a len = insert_loop len 1 a"

lemma insert_shift_correct:
  assumes "hole_inv 1 i (unat j) x a" "i < n" "n \<le> length a" "seg_perm 0 n a0 (a[unat j := x])"
  shows "\<exists>j' b. insert_shift x j a = Some (j', b) \<and> unat j' < length b \<and>
    class_sorted 1 0 (Suc i) (b[unat j' := x]) \<and> seg_perm 0 n a0 (b[unat j' := x])"
  using assms
proof (induction x j a rule: insert_shift.induct)
  case (1 x j a)
  have len: "unat j < length a" "unat j < n" using "1.prems" by (auto simp: hole_inv_def)
  show ?case
  proof (cases "0 < j \<and> x <s a ! (unat j - 1)")
    case True
    then have j: "unat (j - 1) = unat j - 1" "0 < unat j" by (auto simp: unat_dec unat_less)
    let ?b = "a[unat j := a ! (unat j - 1)]"
    have inv: "hole_inv 1 i (unat (j - 1)) x ?b"
      using hole_inv_shift [OF "1.prems"(1)] True j by (simp add: sint_less)
    have perm: "seg_perm 0 n a0 (?b[unat (j - 1) := x])"
      unfolding j(1) using "1.prems" len j by (intro seg_hole_move) auto
    show ?thesis
      using "1.IH" [of "a ! (unat j - 1)" "a ! (unat j - 1)" ?b] True inv perm "1.prems" j len
      by (simp add: insert_shift.simps [of x j])
  next
    case False
    then have "insert_shift x j a = Some (j, a)"
      using len by (auto simp: insert_shift.simps [of x j] unat_dec)
    moreover have "class_sorted 1 (i mod 1) (Suc i) (a[unat j := x])"
      using False by (intro hole_inv_stop [OF "1.prems"(1)]) (auto simp: sint_less unat_less)
    ultimately show ?thesis using "1.prems" len by simp
  qed
qed

lemma insert_loop_correct:
  assumes "unat len \<le> length a" "class_sorted 1 0 (unat i) a"
  shows "\<exists>b. insert_loop len i a = Some b \<and> seg_perm 0 (unat len) a b \<and>
    class_sorted 1 0 (unat len) b"
  using assms
proof (induction len i a rule: insert_loop.induct)
  case (1 len i a)
  show ?case
  proof (cases "i < len")
    case False
    with "1.prems" show ?thesis
      by (auto simp: insert_loop.simps [of len i] class_sorted_def unat_less)
  next
    case True
    then have i: "unat i < unat len" "unat i < length a" "unat (i + 1) = Suc (unat i)"
      using "1.prems"(1) unat_inc [OF True] by (simp_all add: unat_less)
    have "hole_inv 1 (unat i) (unat i) (a ! unat i) a"
      using hole_inv_start [of 1 "unat i" a] "1.prems" i by simp
    then obtain j b where shift: "insert_shift (a ! unat i) i a = Some (j, b)" "unat j < length b"
      "class_sorted 1 0 (Suc (unat i)) (b[unat j := a ! unat i])"
      "seg_perm 0 (unat len) a (b[unat j := a ! unat i])"
      using insert_shift_correct [of "unat i" i "a ! unat i" a "unat len" a] "1.prems" i by auto
    let ?c = "b[unat j := a ! unat i]"
    obtain d where "insert_loop len (i + 1) ?c = Some d" "seg_perm 0 (unat len) ?c d"
      "class_sorted 1 0 (unat len) d"
      using "1.IH" [OF True, of "a ! unat i" _ j b ?c] shift i "1.prems"
        seg_perm_length [OF shift(4)] by auto
    then show ?thesis
      using True i shift seg_perm_trans by (fastforce simp: insert_loop.simps [of len i])
  qed
qed

lemma insert_sort_sorts:
  assumes "unat n \<le> length a"
  shows "insert_sort a n = Some (sorted_prefix (unat n) a)"
proof -
  have "class_sorted 1 0 (unat (1 :: u32)) a" by (simp add: class_sorted_def)
  then obtain b where "insert_loop n 1 a = Some b" "seg_perm 0 (unat n) a b"
    "class_sorted 1 0 (unat n) b"
    using insert_loop_correct [of n a 1] assms by auto
  then show ?thesis
    using sorted_prefixI [of "unat n" a b] assms by (simp add: insert_sort_def class_sorted_def)
qed

interpretation insert: array_sorter insert_sort "2 ^ 32"
  by unfold_locales (rule insert_sort_sorts)

section \<open>Properties\<close>

text \<open>
  C4: on any array that has the announced number of elements, whatever that number,
  \<open>bubble_sort\<close>, \<open>select_sort\<close> and \<open>insert_sort\<close> never leave the array, return, and leave the
  first \<open>n\<close> elements in ascending signed order and the others as they were.
\<close>

theorem quadratic_sorts_correct:
  assumes "unat n \<le> length a"
  defines "sorted_a \<equiv> sort_key sint (take (unat n) a) @ drop (unat n) a"
  shows "bubble_sort a n = Some sorted_a \<and> select_sort a n = Some sorted_a \<and> insert_sort a n = Some sorted_a"
  using bubble.sorts [of n a] select.sorts [of n a] insert.sorts [of n a] assms(1) unat_lt_u32 [of n]
  by (simp add: sorted_prefix_def sorted_a_def)

theorem quadratic_sorts_correct_witness:
  "insert_sort [3, - 2, 7, 1, 0] 4 = Some [- 2, 1, 3, 7, 0]"
  using quadratic_sorts_correct [of 4 "[3, - 2, 7, 1, 0]"] by simp

end
