(* ===== verification/Sort_Shell.thy ===== *)
theory Sort_Shell
  imports Sort_Spec
begin

text \<open>
  \<open>shell_sort\<close> of \<open>classic_sort.c\<close>. Its loop variables are signed: they are HOL integers,
  every sum and difference goes through \<open>ck\<close>, and \<open>(int)len\<close> is \<open>sint len\<close>. The two loops
  that advance by \<open>rule\<close> would not end for \<open>rule = 0\<close>, so they are partial functions.
\<close>

text \<open>\<open>for (k = j - rule; k >= 0 && tmp < array[k]; k -= rule)\<close>, handing on \<open>k\<close>.\<close>

partial_function (option) shell_shift ::
  "int \<Rightarrow> i32 \<Rightarrow> int \<Rightarrow> i32 list \<Rightarrow> (int \<times> i32 list) option" where
  "shell_shift rule tmp k a =
     (if k \<ge> 0 then do {
        x \<leftarrow> rdi a k;
        if tmp <s x then do {
          y \<leftarrow> rdi a k;
          d \<leftarrow> ck (k + rule);
          a \<leftarrow> wri a d y;
          k \<leftarrow> ck (k - rule);
          shell_shift rule tmp k a }
        else Some (k, a) }
      else Some (k, a))"

text \<open>The body of the loop over \<open>j\<close>.\<close>

definition shell_step :: "int \<Rightarrow> int \<Rightarrow> i32 list \<Rightarrow> i32 list option" where
  "shell_step rule j a = do {
     x \<leftarrow> rdi a j;
     p \<leftarrow> ck (j - rule);
     y \<leftarrow> rdi a p;
     if x <s y then do {
       tmp \<leftarrow> rdi a j;
       k \<leftarrow> ck (j - rule);
       (k, a) \<leftarrow> shell_shift rule tmp k a;
       d \<leftarrow> ck (k + rule);
       wri a d tmp }
     else Some a }"

text \<open>\<open>for (j = i + rule; j < (int)len; j += rule)\<close>.\<close>

partial_function (option) shell_class :: "int \<Rightarrow> int \<Rightarrow> int \<Rightarrow> i32 list \<Rightarrow> i32 list option" where
  "shell_class rule len j a =
     (if j < len then do {
        a \<leftarrow> shell_step rule j a;
        j \<leftarrow> ck (j + rule);
        shell_class rule len j a }
      else Some a)"

text \<open>\<open>for (i = 0; i < rule; i++)\<close>.\<close>

function shell_pass :: "int \<Rightarrow> int \<Rightarrow> int \<Rightarrow> i32 list \<Rightarrow> i32 list option" where
  "shell_pass rule len i a =
     (if i < rule then do {
        j \<leftarrow> ck (i + rule);
        a \<leftarrow> shell_class rule len j a;
        i' \<leftarrow> ck (i + 1);
        shell_pass rule len i' a }
      else Some a)"
  by pat_completeness auto
termination
  by (relation "measure (\<lambda>(rule, _, i, _). nat (rule - i))") (auto simp: ck_def split: if_splits)

declare shell_pass.simps [simp del]

text \<open>\<open>do { rule = rule / 3 + 1; \<dots> } while (rule > 1)\<close>.\<close>

function shell_rounds :: "int \<Rightarrow> int \<Rightarrow> i32 list \<Rightarrow> i32 list option" where
  "shell_rounds len rule a = do {
     rule' \<leftarrow> ck (c_div rule 3 + 1);
     a \<leftarrow> shell_pass rule' len 0 a;
     if rule' > 1 then shell_rounds len rule' a else Some a }"
  by pat_completeness auto
termination
proof (relation "measure (\<lambda>(_, rule, _). nat rule)", goal_cases)
  case (2 len rule a rule' b)
  then have r: "rule' = c_div rule 3 + 1" "1 < rule'" by (auto simp: ck_def split: if_splits)
  have "0 < rule"
  proof (rule ccontr)
    assume "\<not> 0 < rule"
    then have "c_div rule 3 \<le> 0" by (auto simp: c_div_def sgn_if)
    with r show False by simp
  qed
  then have "rule' = rule div 3 + 1" "0 < rule div 3" using r by (simp_all add: c_div_nonneg)
  moreover from this have "rule div 3 + 1 < rule" by presburger
  ultimately show ?case by simp
qed simp

declare shell_rounds.simps [simp del]

definition shell_sort :: "i32 list \<Rightarrow> u32 \<Rightarrow> i32 list option" where
  "shell_sort a len = shell_rounds (sint len) (sint len) a"

section \<open>One insertion\<close>

lemma class_sorted_gap:
  assumes "class_sorted h c (Suc j) a" "j mod h = c"
  shows "class_sorted h c (j + h) a"
  unfolding class_sorted_def
proof (intro allI impI)
  fix p q assume pq: "p < q \<and> q < j + h \<and> p mod h = c \<and> q mod h = c"
  then have "q \<le> j" using same_class_gap [of j q h] assms(2) by (cases "j < q") auto
  then show "sint (a ! p) \<le> sint (a ! q)" using pq assms(1) by (auto simp: class_sorted_def)
qed

lemma class_sorted_mono: "class_sorted h c m a \<Longrightarrow> m' \<le> m \<Longrightarrow> class_sorted h c m' a"
  by (auto simp: class_sorted_def)

lemma class_sorted_cong:
  "class_sorted h c m a \<Longrightarrow> (\<And>q. q < m \<Longrightarrow> q mod h = c \<Longrightarrow> b ! q = a ! q) \<Longrightarrow> class_sorted h c m b"
  by (auto simp: class_sorted_def)

lemma shell_shift_correct:
  assumes "hole_inv h i j x a" "i < n" "n \<le> length a" "0 < h" "n + h \<le> 2147483648"
    and "seg_perm 0 n a0 (a[j := x])"
  shows "\<exists>j' b. shell_shift (int h) x (int j - int h) a = Some (int j' - int h, b) \<and>
    j' \<le> i \<and> length b = length a \<and> class_sorted h (i mod h) (Suc i) (b[j' := x]) \<and>
    seg_perm 0 n a0 (b[j' := x]) \<and>
    (\<forall>q. q mod h \<noteq> i mod h \<longrightarrow> b[j' := x] ! q = a ! q)"
  using assms
proof (induction j arbitrary: a rule: less_induct)
  case (less j)
  have j: "j < length a" "j < n" "j \<le> i" "j mod h = i mod h" using less.prems by (auto simp: hole_inv_def)
  show ?case
  proof (cases "h \<le> j \<and> x <s a ! (j - h)")
    case True
    let ?b = "a[j := a ! (j - h)]"
    have cls: "(j - h) mod h = i mod h" using True j by (simp add: le_mod_geq)
    have inv: "hole_inv h i (j - h) x ?b"
      using less.prems True by (intro hole_inv_shift) (auto simp: sint_less)
    have perm: "seg_perm 0 n a0 (?b[j - h := x])"
      using less.prems j by (intro seg_hole_move) auto
    have eq: "shell_shift (int h) x (int j - int h) a
        = shell_shift (int h) x (int (j - h) - int h) ?b"
      using True j less.prems(5) by (subst shell_shift.simps) (simp add: nat_diff_distrib of_nat_diff)
    have frame: "\<forall>q. q mod h \<noteq> i mod h \<longrightarrow> ?b ! q = a ! q"
      using j by (metis nth_list_update_neq)
    show ?thesis
      unfolding eq using less.IH [of "j - h" ?b] True inv perm less.prems frame by auto
  next
    case False
    then have "shell_shift (int h) x (int j - int h) a = Some (int j - int h, a)"
      using j by (subst shell_shift.simps) (auto simp: nat_diff_distrib)
    moreover have "class_sorted h (i mod h) (Suc i) (a[j := x])"
      using False less.prems by (intro hole_inv_stop) (auto simp: sint_less)
    moreover have "\<forall>q. q mod h \<noteq> i mod h \<longrightarrow> a[j := x] ! q = a ! q"
      using j by (metis nth_list_update_neq)
    ultimately show ?thesis using less.prems j by auto
  qed
qed

lemma shell_step_correct:
  assumes j: "h \<le> j" "j < n" "n \<le> length a" "0 < h" "n + h \<le> 2147483648"
    and cls: "class_sorted h (j mod h) j a"
  shows "\<exists>b. shell_step (int h) (int j) a = Some b \<and> seg_perm 0 n a b \<and>
    class_sorted h (j mod h) (Suc j) b \<and> (\<forall>q. q mod h \<noteq> j mod h \<longrightarrow> b ! q = a ! q)"
proof (cases "a ! j <s a ! (j - h)")
  case False
  have below: "sint (a ! p) \<le> sint (a ! j)" if "p < j" "p mod h = j mod h" for p
  proof -
    have "p + h \<le> j" using same_class_gap [of p j h] that by simp
    moreover have "(j - h) mod h = j mod h" using j by (simp add: le_mod_geq)
    ultimately have "sint (a ! p) \<le> sint (a ! (j - h))"
      using cls that j by (cases "p = j - h") (auto simp: class_sorted_def)
    with False show ?thesis by (simp add: sint_less)
  qed
  then have "class_sorted h (j mod h) (Suc j) a"
    using cls by (auto simp: class_sorted_def less_Suc_eq)
  with False j show ?thesis
    by (simp add: shell_step_def nat_diff_distrib)
next
  case True
  have "hole_inv h j j (a ! j) a"
    using cls j by (intro hole_inv_start) auto
  then obtain j' b where sh: "shell_shift (int h) (a ! j) (int j - int h) a = Some (int j' - int h, b)"
    "j' \<le> j" "length b = length a" "class_sorted h (j mod h) (Suc j) (b[j' := a ! j])"
    "seg_perm 0 n a (b[j' := a ! j])" "\<forall>q. q mod h \<noteq> j mod h \<longrightarrow> b[j' := a ! j] ! q = a ! q"
    using shell_shift_correct [of h j j "a ! j" a n a] j by auto
  with True sh j show ?thesis
    by (simp add: shell_step_def nat_diff_distrib)
qed

section \<open>One class, one pass, all rounds\<close>

text \<open>
  The loop over \<open>j\<close> sorts the class of \<open>c\<close> and leaves the other classes alone.
\<close>

lemma shell_class_correct:
  assumes "j mod h = c" "h \<le> j" "class_sorted h c j a" "n \<le> length a" "0 < h" "n + h \<le> 2147483648"
  shows "\<exists>b. shell_class (int h) (int n) (int j) a = Some b \<and> seg_perm 0 n a b \<and>
    class_sorted h c n b \<and> (\<forall>q. q mod h \<noteq> c \<longrightarrow> b ! q = a ! q)"
  using assms
proof (induction "n - j" arbitrary: j a rule: less_induct)
  case less
  show ?case
  proof (cases "j < n")
    case False
    with less.prems show ?thesis
      by (subst shell_class.simps) (auto intro: class_sorted_mono)
  next
    case True
    then obtain b where b: "shell_step (int h) (int j) a = Some b" "seg_perm 0 n a b"
      "class_sorted h c (Suc j) b" "\<forall>q. q mod h \<noteq> c \<longrightarrow> b ! q = a ! q"
      using shell_step_correct [of h j n a] less.prems by auto
    have "class_sorted h c (j + h) b"
      using b(3) less.prems by (intro class_sorted_gap) auto
    moreover have "n - (j + h) < n - j" using True less.prems(5) by linarith
    ultimately obtain d where "shell_class (int h) (int n) (int (j + h)) b = Some d" "seg_perm 0 n b d"
      "class_sorted h c n d" "\<forall>q. q mod h \<noteq> c \<longrightarrow> d ! q = b ! q"
      using less.hyps [of "j + h" b] True less.prems seg_perm_length [OF b(2)] by auto
    then show ?thesis
      using True b less.prems seg_perm_trans by (subst shell_class.simps) fastforce
  qed
qed

text \<open>After a pass with gap \<open>h\<close> every class modulo \<open>h\<close> is in order.\<close>

lemma shell_pass_correct:
  assumes "\<And>c. c < i \<Longrightarrow> class_sorted h c n a" "i \<le> h" "n \<le> length a" "0 < h"
    and "n + h \<le> 2147483648" "2 * h \<le> 2147483648"
  shows "\<exists>b. shell_pass (int h) (int n) (int i) a = Some b \<and> seg_perm 0 n a b \<and>
    (\<forall>c < h. class_sorted h c n b)"
  using assms
proof (induction "h - i" arbitrary: i a rule: less_induct)
  case less
  show ?case
  proof (cases "i < h")
    case False
    with less.prems show ?thesis by (auto simp: shell_pass.simps)
  next
    case True
    have "class_sorted h i (Suc i) a"
      unfolding class_sorted_def using mod_less_eq_dividend
      by (metis leD less_Suc_eq_le order.strict_trans1)
    then have "class_sorted h i (i + h) a" using True by (intro class_sorted_gap) auto
    then obtain b where b: "shell_class (int h) (int n) (int (i + h)) a = Some b" "seg_perm 0 n a b"
      "class_sorted h i n b" "\<forall>q. q mod h \<noteq> i \<longrightarrow> b ! q = a ! q"
      using shell_class_correct [of "i + h" h i a n] True less.prems by auto
    have "class_sorted h c n b" if "c < Suc i" for c
      using that b less.prems(1) [of c] by (cases "c = i") (auto elim!: class_sorted_cong)
    moreover have "h - Suc i < h - i" using True by linarith
    ultimately obtain d where d: "shell_pass (int h) (int n) (int (Suc i)) b = Some d"
      "seg_perm 0 n b d" "\<forall>c < h. class_sorted h c n d"
      using less.hyps [of "Suc i" b] True less.prems seg_perm_length [OF b(2)] by auto
    have "shell_pass (int h) (int n) (int i) a = Some d"
      using True b(1) d(1) less.prems
      by (simp add: shell_pass.simps [of "int h" "int n" "int i"] add.commute)
    then show ?thesis using b(2) d(2,3) seg_perm_trans by blast
  qed
qed

text \<open>The gaps shrink to 1, and the pass with gap 1 is a full insertion sort.\<close>

lemma shell_rounds_correct:
  assumes "r \<le> n" "n \<le> length a" "n + n div 3 \<le> 2147483647"
  shows "\<exists>b. shell_rounds (int n) (int r) a = Some b \<and> seg_perm 0 n a b \<and> class_sorted 1 0 n b"
  using assms
proof (induction r arbitrary: a rule: less_induct)
  case (less r)
  define h where "h = r div 3 + 1"
  have h: "ck (c_div (int r) 3 + 1) = Some (int h)" "h \<le> n div 3 + 1"
    using less.prems by (auto simp: h_def c_div_nonneg div_le_mono zdiv_int)
  have "n div 3 \<le> 536870912" using less.prems(3) by presburger
  then obtain b where b: "shell_pass (int h) (int n) 0 a = Some b" "seg_perm 0 n a b"
    "\<forall>c < h. class_sorted h c n b"
    using shell_pass_correct [of 0 h n a] less.prems h by (auto simp: h_def)
  show ?case
  proof (cases "1 < h")
    case False
    then have "h = 1" by (simp add: h_def)
    with h b show ?thesis by (auto simp: shell_rounds.simps [of "int n" "int r"])
  next
    case True
    then have "h < r" by (simp add: h_def)
    then obtain d where "shell_rounds (int n) (int h) b = Some d" "seg_perm 0 n b d"
      "class_sorted 1 0 n d"
      using less.IH [of h b] less.prems seg_perm_length [OF b(2)] by auto
    with True h b show ?thesis
      using seg_perm_trans by (fastforce simp: shell_rounds.simps [of "int n" "int r"])
  qed
qed

lemma shell_sort_sorts:
  assumes "unat n \<le> length a" "unat n \<le> 1610612735"
  shows "shell_sort a n = Some (sorted_prefix (unat n) a)"
proof -
  have "unat n + unat n div 3 \<le> 2147483647" using assms(2) by presburger
  then obtain b where "shell_rounds (int (unat n)) (int (unat n)) a = Some b" "seg_perm 0 (unat n) a b"
    "class_sorted 1 0 (unat n) b"
    using shell_rounds_correct [of "unat n" "unat n" a] assms by auto
  then show ?thesis
    using sorted_prefixI [of "unat n" a b] assms
    by (simp add: shell_sort_def sint_of_small class_sorted_def)
qed

interpretation shell: array_sorter shell_sort 1610612735
  by unfold_locales (rule shell_sort_sorts)

section \<open>Properties\<close>

text \<open>
  C3: \<open>shell_sort\<close> sorts, without signed overflow, arrays of up to 1610612735 elements (for
  larger ones \<open>j += rule\<close> may leave the range of \<open>int\<close>).
\<close>

theorem shell_sort_correct:
  assumes "unat n \<le> length a" "unat n \<le> 1610612735"
  shows "shell_sort a n = Some (sort_key sint (take (unat n) a) @ drop (unat n) a)"
  using shell.sorts [of n a] assms unat_lt_u32 [of n] by (simp add: sorted_prefix_def)

theorem shell_sort_correct_witness:
  "shell_sort [3, - 2, 7, 1, 0] 4 = Some [- 2, 1, 3, 7, 0]"
  using shell_sort_correct [of 4 "[3, - 2, 7, 1, 0]"] by simp

text \<open>
  One pass of \<open>shell_sort\<close> with gap \<open>h\<close> rearranges the first \<open>n\<close> elements so that every
  two elements a multiple of \<open>h\<close> apart are in order.
\<close>

theorem shell_pass_gap_sorts:
  assumes "n \<le> length a" "0 < h" "n + h \<le> 2147483648" "h \<le> 1073741824"
  shows "\<exists>b. shell_pass (int h) (int n) 0 a = Some b \<and> mset b = mset a \<and> drop n b = drop n a \<and>
    (\<forall>p q. p < q \<and> q < n \<and> p mod h = q mod h \<longrightarrow> sint (b ! p) \<le> sint (b ! q))"
proof -
  obtain b where b: "shell_pass (int h) (int n) 0 a = Some b" "seg_perm 0 n a b"
    "\<forall>c < h. class_sorted h c n b"
    using shell_pass_correct [of 0 h n a] assms by auto
  have "sint (b ! p) \<le> sint (b ! q)" if "p < q" "q < n" "p mod h = q mod h" for p q
  proof -
    have "class_sorted h (p mod h) n b" using b(3) assms(2) by simp
    with that show ?thesis by (simp add: class_sorted_def)
  qed
  then show ?thesis
    using b(1,2) seg_perm_drop [OF b(2)] by (auto simp: seg_perm_def)
qed

theorem shell_pass_gap_sorts_witness:
  "\<exists>b. shell_pass (int 2) (int 5) 0 [5, 4, 3, 2, 1] = Some b \<and> mset b = mset [5, 4, 3, 2, 1] \<and>
    drop 5 b = drop 5 [5, 4, 3, 2, 1] \<and>
    (\<forall>p q. p < q \<and> q < 5 \<and> p mod 2 = q mod (2 :: nat) \<longrightarrow> sint (b ! p) \<le> sint (b ! q))"
  by (rule shell_pass_gap_sorts) simp_all

text \<open>
  For a length of \<open>2 ^ 31\<close> or more the conversion \<open>(int)len\<close> is negative and \<open>shell_sort\<close>
  returns without looking at the array.
\<close>

theorem shell_sort_large_unsorted:
  assumes "2147483648 \<le> unat n"
  shows "shell_sort a n = Some a"
proof -
  define r where "r = c_div (sint n) 3 + 1"
  have "sint n < 0" "- 2147483648 \<le> sint n"
    using sint_of_large [OF assms] assms unat_lt_u32 [of n] by linarith+
  then have "c_div (sint n) 3 \<le> 0" "- 2147483648 \<le> c_div (sint n) 3"
    by (auto simp: c_div_def)
  then have r: "ck r = Some r" "r \<le> 1" by (simp_all add: r_def)
  have "shell_class 1 (sint n) 1 a = Some a"
    using \<open>sint n < 0\<close> by (subst shell_class.simps) simp
  then have "shell_pass r (sint n) 0 a = Some a"
    using r(2) by (cases "r = 1") (simp_all add: shell_pass.simps)
  then show ?thesis
    using r by (simp add: shell_sort_def shell_rounds.simps [of "sint n" "sint n"] flip: r_def)
qed

theorem shell_sort_large_unsorted_witness:
  "shell_sort [2, 1] 2147483648 = Some [2, 1]"
  using shell_sort_large_unsorted [of 2147483648 "[2, 1]"] by simp

end
