(* ===== verification/Sort_Quick.thy ===== *)
theory Sort_Quick
  imports Sort_Spec
begin

text \<open>
  \<open>quick_sort\<close> and \<open>quick_recursion\<close> of \<open>classic_sort.c\<close>, with signed bounds: HOL
  integers, checked by \<open>ck\<close>. The pivot is held in \<open>basis\<close> and leaves a hole in the array
  that wanders between the two scans.
\<close>

text \<open>\<open>while (i < j && array[j] > basis) j--;\<close> handing on \<open>j\<close>.\<close>

function quick_down :: "i32 \<Rightarrow> int \<Rightarrow> int \<Rightarrow> i32 list \<Rightarrow> int option" where
  "quick_down basis i j a =
     (if i < j then do {
        x \<leftarrow> rdi a j;
        if basis <s x then do {
          j' \<leftarrow> ck (j - 1);
          quick_down basis i j' a }
        else Some j }
      else Some j)"
  by pat_completeness auto
termination
  by (relation "measure (\<lambda>(_, i, j, _). nat (j - i))") (auto simp: ck_def split: if_splits)

text \<open>\<open>while (i < j && array[i] < basis) i++;\<close> handing on \<open>i\<close>.\<close>

function quick_up :: "i32 \<Rightarrow> int \<Rightarrow> int \<Rightarrow> i32 list \<Rightarrow> int option" where
  "quick_up basis i j a =
     (if i < j then do {
        x \<leftarrow> rdi a i;
        if x <s basis then do {
          i' \<leftarrow> ck (i + 1);
          quick_up basis i' j a }
        else Some i }
      else Some i)"
  by pat_completeness auto
termination
  by (relation "measure (\<lambda>(_, i, j, _). nat (j - i))") (auto simp: ck_def split: if_splits)

declare quick_down.simps [simp del] quick_up.simps [simp del]

text \<open>The two guarded copies, \<open>array[i] = array[j]; i++\<close> and \<open>array[j] = array[i]; j--\<close>.\<close>

definition copy_left :: "int \<Rightarrow> int \<Rightarrow> i32 list \<Rightarrow> (int \<times> i32 list) option" where
  "copy_left i j a =
     (if i < j then do {
        x \<leftarrow> rdi a j;
        a \<leftarrow> wri a i x;
        i \<leftarrow> ck (i + 1);
        Some (i, a) }
      else Some (i, a))"

definition copy_right :: "int \<Rightarrow> int \<Rightarrow> i32 list \<Rightarrow> (int \<times> i32 list) option" where
  "copy_right i j a =
     (if i < j then do {
        x \<leftarrow> rdi a i;
        a \<leftarrow> wri a j x;
        j \<leftarrow> ck (j - 1);
        Some (j, a) }
      else Some (j, a))"

lemma quick_down_le: "quick_down basis i j a = Some j' \<Longrightarrow> j' \<le> j \<and> (i \<le> j \<longrightarrow> i \<le> j')"
proof (induction basis i j a rule: quick_down.induct)
  case (1 basis i j a)
  then show ?case
    by (auto simp: quick_down.simps [of basis i j] bind_eq_Some_conv ck_def split: if_splits)
       fastforce+
qed

lemma quick_up_ge: "quick_up basis i j a = Some i' \<Longrightarrow> i \<le> i' \<and> (i \<le> j \<longrightarrow> i' \<le> j)"
proof (induction basis i j a rule: quick_up.induct)
  case (1 basis i j a)
  then show ?case
    by (auto simp: quick_up.simps [of basis i j] bind_eq_Some_conv ck_def split: if_splits)
       fastforce+
qed

lemma copy_left_Some:
  "copy_left i j a = Some (i', b) \<Longrightarrow> (if i < j then i' = i + 1 else i' = i \<and> b = a)"
  by (auto simp: copy_left_def bind_eq_Some_conv ck_def split: if_splits)

lemma copy_right_Some:
  "copy_right i j a = Some (j', b) \<Longrightarrow> (if i < j then j' = j - 1 else j' = j \<and> b = a)"
  by (auto simp: copy_right_def bind_eq_Some_conv ck_def split: if_splits)

function quick_partition :: "i32 \<Rightarrow> int \<Rightarrow> int \<Rightarrow> i32 list \<Rightarrow> (int \<times> i32 list) option" where
  "quick_partition basis i j a =
     (if i < j then do {
        j1 \<leftarrow> quick_down basis i j a;
        (i1, a1) \<leftarrow> copy_left i j1 a;
        i2 \<leftarrow> quick_up basis i1 j1 a1;
        (j2, a2) \<leftarrow> copy_right i2 j1 a1;
        quick_partition basis i2 j2 a2 }
      else Some (i, a))"
  by pat_completeness auto
termination
proof (relation "measure (\<lambda>(_, i, j, _). nat (j - i))", goal_cases)
  case (2 basis i j a j1 p i1 a1 i2 q j2 a2)
  from 2 have "j1 \<le> j" "i \<le> j1" "i1 \<le> i2" "i1 \<le> j1 \<longrightarrow> i2 \<le> j1"
    using quick_down_le [of basis i j a j1] quick_up_ge [of basis i1 j1 a1 i2] by auto
  moreover have "if i < j1 then i1 = i + 1 else i1 = i" "if i2 < j1 then j2 = j1 - 1 else j2 = j1"
    using 2 copy_left_Some [of i j1 a i1 a1] copy_right_Some [of i2 j1 a1 j2 a2]
    by (auto split: if_splits)
  ultimately show ?case using 2 by (auto split: if_splits)
qed simp

declare quick_partition.simps [simp del]

text \<open>One round of the partition loop keeps the bounds ordered, so the result lies between them.\<close>

lemma partition_round:
  assumes "i < j" "quick_down basis i j a = Some j1" "copy_left i j1 a = Some (i1, a1)"
    and "quick_up basis i1 j1 a1 = Some i2" "copy_right i2 j1 a1 = Some (j2, a2)"
  shows "i \<le> i2" "i2 \<le> j2" "j2 \<le> j" "j2 - i2 < j - i"
  using assms(1) quick_down_le [OF assms(2)] copy_left_Some [OF assms(3)]
    quick_up_ge [OF assms(4)] copy_right_Some [OF assms(5)]
  by (auto split: if_splits)

lemma quick_partition_bounds:
  "quick_partition basis i j a = Some (i', b) \<Longrightarrow> i \<le> j \<Longrightarrow> i \<le> i' \<and> i' \<le> j"
proof (induction basis i j a rule: quick_partition.induct)
  case (1 basis i j a)
  show ?case
  proof (cases "i < j")
    case False
    with "1.prems" show ?thesis by (simp add: quick_partition.simps [of basis i j])
  next
    case True
    with "1.prems" obtain j1 i1 a1 i2 j2 a2 where r: "quick_down basis i j a = Some j1"
      "copy_left i j1 a = Some (i1, a1)" "quick_up basis i1 j1 a1 = Some i2"
      "copy_right i2 j1 a1 = Some (j2, a2)" "quick_partition basis i2 j2 a2 = Some (i', b)"
      by (auto simp: quick_partition.simps [of basis i j] bind_eq_Some_conv)
    with "1.IH" [OF True r(1,2) refl r(3,4) refl] partition_round [OF True r(1-4)]
    show ?thesis by simp
  qed
qed

function quick_recursion :: "i32 list \<Rightarrow> int \<Rightarrow> int \<Rightarrow> i32 list option" where
  "quick_recursion a start fin =
     (if start \<ge> fin then Some a
      else do {
        basis \<leftarrow> rdi a start;
        (i, a) \<leftarrow> quick_partition basis start fin a;
        a \<leftarrow> wri a i basis;
        l \<leftarrow> ck (i - 1);
        a \<leftarrow> quick_recursion a start l;
        r \<leftarrow> ck (i + 1);
        quick_recursion a r fin })"
  by pat_completeness auto
termination
  by (relation "measure (\<lambda>(_, start, fin). nat (fin - start + 1))")
    (auto simp: ck_def dest!: quick_partition_bounds split: if_splits)

declare quick_recursion.simps [simp del]

definition quick_sort :: "i32 list \<Rightarrow> u32 \<Rightarrow> i32 list option" where
  "quick_sort a len = do {
     fin \<leftarrow> ck (sint len - 1);
     quick_recursion a 0 fin }"

section \<open>The scans\<close>

lemma quick_down_correct:
  assumes "0 \<le> i" "i \<le> j" "j < int (length a)" "j \<le> 2147483646"
  shows "\<exists>j'. quick_down x i j a = Some j' \<and> i \<le> j' \<and> j' \<le> j \<and>
    (\<forall>p. j' < p \<and> p \<le> j \<longrightarrow> sint x < sint (a ! nat p)) \<and> (i < j' \<longrightarrow> sint (a ! nat j') \<le> sint x)"
  using assms
proof (induction x i j a rule: quick_down.induct)
  case (1 x i j a)
  show ?case
  proof (cases "i < j \<and> x <s a ! nat j")
    case False
    with "1.prems" show ?thesis by (auto simp: quick_down.simps [of x i j] sint_less)
  next
    case True
    with "1.prems" obtain j' where j': "quick_down x i (j - 1) a = Some j'" "i \<le> j'" "j' \<le> j - 1"
      "\<And>p. j' < p \<Longrightarrow> p \<le> j - 1 \<Longrightarrow> sint x < sint (a ! nat p)"
      "i < j' \<Longrightarrow> sint (a ! nat j') \<le> sint x"
      using "1.IH" [of "a ! nat j" "j - 1"] by auto
    have "sint x < sint (a ! nat p)" if "j' < p" "p \<le> j" for p
      using that j'(4) [of p] True by (cases "p = j") (auto simp: sint_less)
    moreover have "quick_down x i j a = quick_down x i (j - 1) a"
      using True "1.prems" by (simp add: quick_down.simps [of x i j])
    ultimately show ?thesis using j'(1-3,5) by auto
  qed
qed

lemma quick_up_correct:
  assumes "0 \<le> i" "i \<le> j" "j < int (length a)" "j \<le> 2147483646"
  shows "\<exists>i'. quick_up x i j a = Some i' \<and> i \<le> i' \<and> i' \<le> j \<and>
    (\<forall>p. i \<le> p \<and> p < i' \<longrightarrow> sint (a ! nat p) < sint x) \<and> (i' < j \<longrightarrow> sint x \<le> sint (a ! nat i'))"
  using assms
proof (induction x i j a rule: quick_up.induct)
  case (1 x i j a)
  show ?case
  proof (cases "i < j \<and> a ! nat i <s x")
    case False
    with "1.prems" show ?thesis by (auto simp: quick_up.simps [of x i j] sint_less)
  next
    case True
    with "1.prems" obtain i' where i': "quick_up x (i + 1) j a = Some i'" "i + 1 \<le> i'" "i' \<le> j"
      "\<And>p. i + 1 \<le> p \<Longrightarrow> p < i' \<Longrightarrow> sint (a ! nat p) < sint x"
      "i' < j \<Longrightarrow> sint x \<le> sint (a ! nat i')"
      using "1.IH" [of "a ! nat i" "i + 1"] by auto
    have "sint (a ! nat p) < sint x" if "i \<le> p" "p < i'" for p
      using that i'(4) [of p] True by (cases "p = i") (auto simp: sint_less)
    moreover have "quick_up x i j a = quick_up x (i + 1) j a"
      using True "1.prems" by (simp add: quick_up.simps [of x i j])
    ultimately show ?thesis using i'(1-3,5) by auto
  qed
qed

section \<open>The partition\<close>

text \<open>
  With the hole at \<open>i\<close>: what lies left of \<open>i\<close> is at most the pivot, what lies right of \<open>j\<close>
  is at least the pivot.
\<close>

definition part_inv :: "int \<Rightarrow> int \<Rightarrow> i32 \<Rightarrow> int \<Rightarrow> int \<Rightarrow> i32 list \<Rightarrow> bool" where
  "part_inv lo hi x i j a \<longleftrightarrow> 0 \<le> lo \<and> lo \<le> i \<and> i \<le> j \<and> j \<le> hi \<and> hi < int (length a) \<and>
     hi \<le> 2147483646 \<and>
     (\<forall>p. lo \<le> p \<and> p < i \<longrightarrow> sint (a ! nat p) \<le> sint x) \<and>
     (\<forall>p. j < p \<and> p \<le> hi \<longrightarrow> sint x \<le> sint (a ! nat p))"

lemma seg_hole_move_int:
  assumes "seg_perm (nat lo) (nat (hi + 1)) a0 (a[nat j := x])"
    and "0 \<le> lo" "lo \<le> i" "i \<le> hi" "lo \<le> j" "j \<le> hi" "hi < int (length a)"
  shows "seg_perm (nat lo) (nat (hi + 1)) a0 ((a[nat j := a ! nat i])[nat i := x])"
  using assms by (intro seg_hole_move) auto

lemma partition_step:
  assumes inv: "part_inv lo hi x i j a" and "i < j"
    and perm: "seg_perm (nat lo) (nat (hi + 1)) a0 (a[nat i := x])"
  shows "\<exists>j1 i1 a1 i2 j2 a2. quick_down x i j a = Some j1 \<and> copy_left i j1 a = Some (i1, a1) \<and>
    quick_up x i1 j1 a1 = Some i2 \<and> copy_right i2 j1 a1 = Some (j2, a2) \<and>
    part_inv lo hi x i2 j2 a2 \<and> seg_perm (nat lo) (nat (hi + 1)) a0 (a2[nat i2 := x])"
proof -
  obtain j1 where j1: "quick_down x i j a = Some j1" "i \<le> j1" "j1 \<le> j"
    "\<And>p. j1 < p \<Longrightarrow> p \<le> j \<Longrightarrow> sint x < sint (a ! nat p)"
    "i < j1 \<Longrightarrow> sint (a ! nat j1) \<le> sint x"
    using quick_down_correct [of i j a x] inv by (auto simp: part_inv_def)
  have inv1: "part_inv lo hi x i j1 a"
    using inv j1 by (auto simp: part_inv_def) (metis not_less order_less_imp_le)
  show ?thesis
  proof (cases "i < j1")
    case False
    with j1 have "i = j1" by simp
    with j1 inv1 perm show ?thesis
      by (intro exI [of _ i] exI [of _ a]) (auto simp: copy_left_def copy_right_def quick_up.simps)
  next
    case True
    define a1 where "a1 = a[nat i := a ! nat j1]"
    have left: "copy_left i j1 a = Some (i + 1, a1)"
      using True inv1 by (simp add: copy_left_def a1_def part_inv_def)
    have perm1: "seg_perm (nat lo) (nat (hi + 1)) a0 (a1[nat j1 := x])"
      unfolding a1_def using perm inv1 by (intro seg_hole_move_int) (auto simp: part_inv_def)
    have inv2: "part_inv lo hi x (i + 1) j1 a1"
      using inv1 True j1(5) by (auto simp: part_inv_def a1_def nth_list_update)
    obtain i2 where i2: "quick_up x (i + 1) j1 a1 = Some i2" "i + 1 \<le> i2" "i2 \<le> j1"
      "\<And>p. i + 1 \<le> p \<Longrightarrow> p < i2 \<Longrightarrow> sint (a1 ! nat p) < sint x"
      "i2 < j1 \<Longrightarrow> sint x \<le> sint (a1 ! nat i2)"
      using quick_up_correct [of "i + 1" j1 a1 x] inv2 by (auto simp: part_inv_def)
    have "sint (a1 ! nat p) \<le> sint x" if "lo \<le> p" "p < i2" for p
      using inv2 i2(4) [of p] that by (cases "p < i + 1") (auto simp: part_inv_def)
    then have inv3: "part_inv lo hi x i2 j1 a1"
      using inv2 i2 by (auto simp: part_inv_def)
    show ?thesis
    proof (cases "i2 < j1")
      case False
      with i2 have "i2 = j1" "copy_right i2 j1 a1 = Some (j1, a1)" by (simp_all add: copy_right_def)
      with j1(1) left i2(1) inv3 perm1 show ?thesis by blast
    next
      case copy: True
      define a2 where "a2 = a1[nat j1 := a1 ! nat i2]"
      have "copy_right i2 j1 a1 = Some (j1 - 1, a2)"
        using copy inv3 by (simp add: copy_right_def a2_def part_inv_def)
      moreover have "part_inv lo hi x i2 (j1 - 1) a2"
        using inv3 copy i2(5) by (auto simp: part_inv_def a2_def nth_list_update)
      moreover have "seg_perm (nat lo) (nat (hi + 1)) a0 (a2[nat i2 := x])"
        unfolding a2_def using perm1 inv3 by (intro seg_hole_move_int) (auto simp: part_inv_def)
      ultimately show ?thesis using j1(1) left i2(1) by auto
    qed
  qed
qed

lemma quick_partition_correct:
  assumes "part_inv lo hi x i j a" "seg_perm (nat lo) (nat (hi + 1)) a0 (a[nat i := x])"
  shows "\<exists>i' b. quick_partition x i j a = Some (i', b) \<and> part_inv lo hi x i' i' b \<and>
    seg_perm (nat lo) (nat (hi + 1)) a0 (b[nat i' := x])"
  using assms
proof (induction x i j a rule: quick_partition.induct)
  case (1 x i j a)
  show ?case
  proof (cases "i < j")
    case False
    with "1.prems" have "i = j" by (simp add: part_inv_def)
    with "1.prems" show ?thesis by (simp add: quick_partition.simps)
  next
    case True
    from partition_step [OF "1.prems"(1) True "1.prems"(2)]
    obtain j1 i1 a1 i2 j2 a2 where r: "quick_down x i j a = Some j1"
      "copy_left i j1 a = Some (i1, a1)" "quick_up x i1 j1 a1 = Some i2"
      "copy_right i2 j1 a1 = Some (j2, a2)" and inv: "part_inv lo hi x i2 j2 a2"
      and perm: "seg_perm (nat lo) (nat (hi + 1)) a0 (a2[nat i2 := x])"
      by blast
    with "1.IH" [OF True r(1,2) refl r(3,4) refl inv perm] True show ?thesis
      by (simp add: quick_partition.simps [of x i j])
  qed
qed

section \<open>The recursion\<close>

definition seg_sorted :: "int \<Rightarrow> int \<Rightarrow> i32 list \<Rightarrow> bool" where
  "seg_sorted lo hi a \<longleftrightarrow> (\<forall>p q. lo \<le> p \<and> p < q \<and> q \<le> hi \<longrightarrow> sint (a ! nat p) \<le> sint (a ! nat q))"

text \<open>Sorting the two sides of a pivot sorts the whole.\<close>

lemma seg_sorted_join:
  assumes "part_inv lo hi x i i b" "b ! nat i = x"
    and l: "seg_perm (nat lo) (nat i) b c" "seg_sorted lo (i - 1) c"
    and r: "seg_perm (nat (i + 1)) (nat (hi + 1)) c d" "seg_sorted (i + 1) hi d"
  shows "seg_sorted lo hi d"
proof -
  have bnd: "0 \<le> lo" "lo \<le> i" "i \<le> hi" "hi < int (length b)" "length c = length b" "length d = length b"
    using assms(1) seg_perm_length [OF l(1)] seg_perm_length [OF r(1)] by (auto simp: part_inv_def)
  have left: "d ! nat p = c ! nat p" if "0 \<le> p" "p \<le> i" for p
    using that bnd by (intro seg_perm_nth [OF r(1)]) auto
  have mid: "d ! nat i = x"
    using left [of i] bnd seg_perm_nth [OF l(1), of "nat i"] assms(2) by simp
  have "sint (c ! nat p) \<le> sint x" if "lo \<le> p" "p < i" for p
    using that bnd assms(1)
    by (intro seg_perm_all [OF l(1), where P = "\<lambda>y. sint y \<le> sint x"])
       (auto simp: part_inv_def nat_less_iff dest!: spec [of _ "int _"])
  then have small: "sint (d ! nat p) \<le> sint x" if "lo \<le> p" "p \<le> i" for p
    using that left mid bnd by (cases "p = i") auto
  have "sint x \<le> sint (c ! q)" if "nat (i + 1) \<le> q" "q < nat (hi + 1)" for q
  proof -
    have "c ! q = b ! q" using that bnd by (intro seg_perm_nth [OF l(1)]) auto
    moreover have "i < int q" "int q \<le> hi" using that bnd by linarith+
    then have "sint x \<le> sint (b ! nat (int q))"
      using assms(1) by (auto simp: part_inv_def simp del: nat_int)
    ultimately show ?thesis by simp
  qed
  note above = this
  have large: "sint x \<le> sint (d ! nat p)" if "i \<le> p" "p \<le> hi" for p
  proof (cases "p = i")
    case False
    then have "nat (i + 1) \<le> nat p" "nat p < nat (hi + 1)" "nat (hi + 1) \<le> length c"
      using that bnd by linarith+
    then show ?thesis
      using above by (intro seg_perm_all [OF r(1), where P = "\<lambda>y. sint x \<le> sint y"]) auto
  qed (simp add: mid)
  show ?thesis
    unfolding seg_sorted_def
  proof (intro allI impI)
    fix p q assume pq: "lo \<le> p \<and> p < q \<and> q \<le> hi"
    consider "q < i" | "i < p" | "p \<le> i" "i \<le> q" by linarith
    then show "sint (d ! nat p) \<le> sint (d ! nat q)"
    proof cases
      case 1 with pq l(2) left bnd show ?thesis by (simp add: seg_sorted_def)
    next
      case 2 with pq r(2) show ?thesis by (simp add: seg_sorted_def)
    next
      case 3 with pq show ?thesis using small [of p] large [of q] by simp
    qed
  qed
qed

lemma quick_recursion_correct:
  assumes "0 \<le> lo" "hi < int (length a)" "hi \<le> 2147483646"
  shows "\<exists>b. quick_recursion a lo hi = Some b \<and> seg_perm (nat lo) (nat (hi + 1)) a b \<and>
    seg_sorted lo hi b"
  using assms
proof (induction a lo hi rule: quick_recursion.induct)
  case (1 a lo hi)
  show ?case
  proof (cases "hi \<le> lo")
    case True
    then show ?thesis by (auto simp: quick_recursion.simps seg_sorted_def)
  next
    case False
    let ?x = "a ! nat lo"
    have x: "rdi a lo = Some ?x" using False "1.prems" by simp
    have "part_inv lo hi ?x lo hi a" using False "1.prems" by (auto simp: part_inv_def)
    from quick_partition_correct [OF this, of a]
    obtain i b where part: "quick_partition ?x lo hi a = Some (i, b)" and inv: "part_inv lo hi ?x i i b"
      and perm: "seg_perm (nat lo) (nat (hi + 1)) a (b[nat i := ?x])"
      by auto
    let ?b = "b[nat i := ?x]"
    have bnd: "lo \<le> i" "i \<le> hi" "hi < int (length b)" "0 \<le> lo" "hi \<le> 2147483646"
      using inv by (auto simp: part_inv_def)
    have wr: "wri b i ?x = Some ?b" using bnd by simp
    have cks: "ck (i - 1) = Some (i - 1)" "ck (i + 1) = Some (i + 1)" using bnd by simp_all
    obtain c where c: "quick_recursion ?b lo (i - 1) = Some c" "seg_perm (nat lo) (nat i) ?b c"
      "seg_sorted lo (i - 1) c"
      using "1.IH"(1) [OF False x part refl wr cks(1)] bnd by auto
    obtain d where d: "quick_recursion c (i + 1) hi = Some d"
      "seg_perm (nat (i + 1)) (nat (hi + 1)) c d" "seg_sorted (i + 1) hi d"
      using "1.IH"(2) [OF False x part refl wr cks(1) c(1) cks(2)] bnd seg_perm_length [OF c(2)]
      by auto
    have "seg_perm (nat lo) (nat (hi + 1)) a d"
      using perm seg_perm_mono [OF c(2), of "nat lo" "nat (hi + 1)"]
        seg_perm_mono [OF d(2), of "nat lo" "nat (hi + 1)"] bnd
      by (meson seg_perm_trans order_refl nat_mono add_increasing2 le_add_same_cancel1 zero_le_one
          order_trans less_imp_le zless_add1_eq)
    moreover have "part_inv lo hi ?x i i ?b" using inv by (auto simp: part_inv_def nth_list_update)
    then have "seg_sorted lo hi d" using c d bnd by (intro seg_sorted_join [OF _ _ c(2,3) d(2,3)]) auto
    moreover have "quick_recursion a lo hi = Some d"
      using False x part wr cks c(1) d(1) by (simp add: quick_recursion.simps [of a lo hi])
    ultimately show ?thesis by auto
  qed
qed

lemma quick_sort_sorts:
  assumes "unat n \<le> length a" "unat n \<le> 2147483647"
  shows "quick_sort a n = Some (sorted_prefix (unat n) a)"
proof -
  define m where "m = unat n"
  have n: "sint n = int m" using assms by (simp add: sint_of_small m_def)
  obtain b where b: "quick_recursion a 0 (int m - 1) = Some b" "seg_perm 0 m a b"
    "seg_sorted 0 (int m - 1) b"
    using quick_recursion_correct [of 0 "int m - 1" a] assms unfolding m_def [symmetric] by auto
  have "sint (b ! p) \<le> sint (b ! q)" if "p < q" "q < m" for p q
    using b(3) [unfolded seg_sorted_def, rule_format, of "int p" "int q"] that by simp
  then have "b = sorted_prefix m a" using b assms by (intro sorted_prefixI) (auto simp: m_def)
  moreover have "ck (int m - 1) = Some (int m - 1)"
    using assms unfolding m_def [symmetric] by simp
  ultimately show ?thesis
    using b(1) n by (simp add: quick_sort_def flip: m_def)
qed

interpretation quick: array_sorter quick_sort 2147483647
  by unfold_locales (rule quick_sort_sorts)

section \<open>Properties\<close>

text \<open>
  C1: \<open>quick_sort\<close> sorts every array whose length is a value of type \<open>int\<close>, without leaving
  the array and without overflow.
\<close>

theorem quick_sort_correct:
  assumes "unat n \<le> length a" "unat n \<le> 2147483647"
  shows "quick_sort a n = Some (sort_key sint (take (unat n) a) @ drop (unat n) a)"
  using quick.sorts [of n a] assms unat_lt_u32 [of n] by (simp add: sorted_prefix_def)

theorem quick_sort_correct_witness:
  "quick_sort [3, - 2, 7, 1, 0] 4 = Some [- 2, 1, 3, 7, 0]"
  using quick_sort_correct [of 4 "[3, - 2, 7, 1, 0]"] by simp

text \<open>
  C6: the partition step. Started with the pivot \<open>x\<close> taken out of position \<open>lo\<close>, the partition
  loop returns a position \<open>i\<close> inside the segment such that, once the pivot is put back there,
  the segment is a rearrangement of what it was, with nothing larger than the pivot on its left
  and nothing smaller on its right.
\<close>

theorem quick_partition_splits:
  assumes "0 \<le> lo" "lo \<le> hi" "hi < int (length a)" "hi \<le> 2147483646" "x = a ! nat lo"
  shows "\<exists>i b. quick_partition x lo hi a = Some (i, b) \<and> lo \<le> i \<and> i \<le> hi \<and>
    mset (b[nat i := x]) = mset a \<and>
    (\<forall>p. lo \<le> p \<and> p < i \<longrightarrow> sint (b ! nat p) \<le> sint x) \<and>
    (\<forall>p. i < p \<and> p \<le> hi \<longrightarrow> sint x \<le> sint (b ! nat p))"
proof -
  have "part_inv lo hi x lo hi a" using assms by (auto simp: part_inv_def)
  moreover have "seg_perm (nat lo) (nat (hi + 1)) a (a[nat lo := x])" using assms by simp
  ultimately show ?thesis
    using quick_partition_correct [of lo hi x lo hi a a] by (auto simp: part_inv_def seg_perm_def)
qed

theorem quick_partition_splits_witness:
  "\<exists>i b. quick_partition 3 0 3 [3, 9, 1, 2] = Some (i, b) \<and> 0 \<le> i \<and> i \<le> 3 \<and>
    mset (b[nat i := 3]) = mset [3, 9, 1, 2] \<and>
    (\<forall>p. 0 \<le> p \<and> p < i \<longrightarrow> sint (b ! nat p) \<le> sint (3 :: i32)) \<and>
    (\<forall>p. i < p \<and> p \<le> 3 \<longrightarrow> sint (3 :: i32) \<le> sint (b ! nat p))"
  by (rule quick_partition_splits) simp_all

text \<open>
  For a length above \<open>2 ^ 31\<close> the bound \<open>(int)len - 1\<close> is negative and \<open>quick_sort\<close>
  returns the array unsorted; for exactly \<open>2 ^ 31\<close> the subtraction overflows.
\<close>

theorem quick_sort_large_unsorted:
  assumes "2147483648 \<le> unat n"
  shows "quick_sort a n = (if unat n = 2147483648 then None else Some a)"
proof -
  define m where "m = unat n"
  have m: "sint n = int m - 4294967296" "2147483648 \<le> m" "m < 4294967296"
    using sint_of_large [OF assms] assms unat_lt_u32 [of n] by (simp_all add: m_def)
  then have "ck (sint n - 1) = (if m = 2147483648 then None else Some (sint n - 1))"
    by (auto simp: ck_def)
  with m show ?thesis
    unfolding m_def [symmetric] by (simp add: quick_sort_def quick_recursion.simps)
qed

theorem quick_sort_large_unsorted_witness:
  "quick_sort [2, 1] 2147483649 = Some [2, 1]"
  using quick_sort_large_unsorted [of 2147483649 "[2, 1]"] by simp

end
