(* ===== verification/Sort_Merge.thy ===== *)
theory Sort_Merge
  imports Sort_Spec
begin

text \<open>
  \<open>merger\<close>, \<open>merge_recursion\<close> and \<open>merge_sort\<close> of \<open>classic_sort.c\<close>. The scratch buffer
  \<open>arr_buf\<close> is a second array with its own bounds; \<open>calloc\<close> may fail, so its success is a
  parameter. The recursion is a partial function: with \<open>lo + hi\<close> beyond 32 bits the midpoint
  wraps and the recursion need not make progress.
\<close>

text \<open>\<open>memcpy\<close> of \<open>n\<close> elements between two arrays, undefined outside either of them.\<close>

definition c_memcpy :: "'a list \<Rightarrow> nat \<Rightarrow> 'a list \<Rightarrow> nat \<Rightarrow> nat \<Rightarrow> 'a list option" where
  "c_memcpy dst d src s n =
     (if d + n \<le> length dst \<and> s + n \<le> length src
      then Some (take d dst @ take n (drop s src) @ drop (d + n) dst) else None)"

text \<open>The two guarded moves of the merge loop; \<open>array\<close> has been advanced by \<open>lo\<close>.\<close>

definition merge_left ::
  "i32 list \<Rightarrow> u32 \<Rightarrow> u32 \<Rightarrow> u32 \<Rightarrow> u32 \<Rightarrow> u32 \<Rightarrow> u32 \<Rightarrow> i32 list \<Rightarrow> (u32 \<times> u32 \<times> i32 list) option" where
  "merge_left l_arr lo mi r_len i j k a = do {
     c \<leftarrow> (if r_len \<le> k then Some True
          else do {
            x \<leftarrow> rd l_arr (unat j);
            y \<leftarrow> rd a (unat mi + unat k);
            Some (x \<le>s y) });
     if c then do {
       x \<leftarrow> rd l_arr (unat j);
       a \<leftarrow> wr a (unat lo + unat i) x;
       Some (i + 1, j + 1, a) }
     else Some (i, j, a) }"

definition merge_right ::
  "i32 list \<Rightarrow> u32 \<Rightarrow> u32 \<Rightarrow> u32 \<Rightarrow> u32 \<Rightarrow> u32 \<Rightarrow> u32 \<Rightarrow> i32 list \<Rightarrow> (u32 \<times> u32 \<times> i32 list) option" where
  "merge_right l_arr lo mi r_len i j k a = do {
     c \<leftarrow> (if k < r_len then do {
            y \<leftarrow> rd a (unat mi + unat k);
            x \<leftarrow> rd l_arr (unat j);
            Some (y <s x) }
          else Some False);
     if c then do {
       y \<leftarrow> rd a (unat mi + unat k);
       a \<leftarrow> wr a (unat lo + unat i) y;
       Some (i + 1, k + 1, a) }
     else Some (i, k, a) }"

text \<open>\<open>for (uint32_t i = 0, j = 0, k = 0; j < l_len; )\<close>.\<close>

partial_function (option) merge_loop ::
  "i32 list \<Rightarrow> u32 \<Rightarrow> u32 \<Rightarrow> u32 \<Rightarrow> u32 \<Rightarrow> u32 \<Rightarrow> u32 \<Rightarrow> u32 \<Rightarrow> i32 list \<Rightarrow> i32 list option" where
  "merge_loop l_arr lo mi l_len r_len i j k a =
     (if j < l_len then do {
        (i, j, a) \<leftarrow> merge_left l_arr lo mi r_len i j k a;
        (i, k, a) \<leftarrow> merge_right l_arr lo mi r_len i j k a;
        merge_loop l_arr lo mi l_len r_len i j k a }
      else Some a)"

definition merger :: "i32 list \<Rightarrow> i32 list \<Rightarrow> u32 \<Rightarrow> u32 \<Rightarrow> u32 \<Rightarrow> (i32 list \<times> i32 list) option" where
  "merger a arr_buf lo mi hi = do {
     let l_len = mi - lo;
     let r_len = hi - mi;
     arr_buf \<leftarrow> c_memcpy arr_buf 0 a (unat lo) (unat l_len);
     a \<leftarrow> merge_loop arr_buf lo mi l_len r_len 0 0 0 a;
     Some (a, arr_buf) }"

definition merge_mid :: "u32 \<Rightarrow> u32 \<Rightarrow> u32" where
  "merge_mid lo hi = drop_bit 1 (lo + hi)"

partial_function (option) merge_recursion ::
  "i32 list \<Rightarrow> i32 list \<Rightarrow> u32 \<Rightarrow> u32 \<Rightarrow> (i32 list \<times> i32 list) option" where
  "merge_recursion a arr_buf lo hi =
     (if hi - lo \<le> 1 then Some (a, arr_buf)
      else do {
        (a, arr_buf) \<leftarrow> merge_recursion a arr_buf lo (merge_mid lo hi);
        (a, arr_buf) \<leftarrow> merge_recursion a arr_buf (merge_mid lo hi) hi;
        merger a arr_buf lo (merge_mid lo hi) hi })"

definition merge_sort :: "bool \<Rightarrow> i32 list \<Rightarrow> u32 \<Rightarrow> i32 list option" where
  "merge_sort calloc_ok a len =
     (if len = 0 \<or> \<not> calloc_ok then Some a
      else do {
        (a, arr_buf) \<leftarrow> merge_recursion a (replicate (unat len) 0) 0 len;
        Some a })"

section \<open>The reference merge\<close>

fun smerge :: "i32 list \<Rightarrow> i32 list \<Rightarrow> i32 list" where
  "smerge [] ys = ys"
| "smerge xs [] = xs"
| "smerge (x # xs) (y # ys) =
     (if sint x \<le> sint y then x # smerge xs (y # ys) else y # smerge (x # xs) ys)"

lemma smerge_Nil2 [simp]: "smerge xs [] = xs"
  by (cases xs) simp_all

lemma mset_smerge [simp]: "mset (smerge xs ys) = mset xs + mset ys"
  by (induction xs ys rule: smerge.induct) auto

lemma length_smerge [simp]: "length (smerge xs ys) = length xs + length ys"
  by (induction xs ys rule: smerge.induct) auto

lemma set_smerge [simp]: "set (smerge xs ys) = set xs \<union> set ys"
  by (metis mset_smerge set_mset_mset set_mset_union)

lemma sorted_smerge:
  "sorted (map sint xs) \<Longrightarrow> sorted (map sint ys) \<Longrightarrow> sorted (map sint (smerge xs ys))"
  by (induction xs ys rule: smerge.induct) (auto simp del: sint_less)

lemma smerge_sorts: "smerge (sort_key sint xs) (sort_key sint ys) = sort_key sint (xs @ ys)"
  by (rule sort_key_sint_unique) (simp_all add: sorted_smerge)

section \<open>One merge\<close>

text \<open>
  While merging, the array is: what precedes the segment, the merged part \<open>m\<close>, as many stale
  cells \<open>w\<close> as there are elements left in the buffer, the unread part of the right run, and
  what follows the segment.
\<close>

definition runs_ok ::
  "i32 list \<Rightarrow> i32 list \<Rightarrow> i32 list \<Rightarrow> i32 list \<Rightarrow> u32 \<Rightarrow> u32 \<Rightarrow> u32 \<Rightarrow> u32 \<Rightarrow> bool" where
  "runs_ok p l r l_arr lo mi l_len r_len \<longleftrightarrow> length p = unat lo \<and> unat mi = unat lo + length l \<and>
     unat l_len = length l \<and> unat r_len = length r \<and> unat mi + length r < 4294967296 \<and>
     length l \<le> length l_arr \<and> take (length l) l_arr = l \<and> (r \<noteq> [] \<longrightarrow> length l < length l_arr)"

definition merge_inv ::
  "i32 list \<Rightarrow> i32 list \<Rightarrow> u32 \<Rightarrow> u32 \<Rightarrow> u32 \<Rightarrow> i32 list \<Rightarrow> i32 list \<Rightarrow> bool" where
  "merge_inv l r i j k m w \<longleftrightarrow> length m = unat j + unat k \<and> unat i = unat j + unat k \<and>
     length w + unat j = length l \<and> unat k \<le> length r"

lemma unat_inc_bound: "unat i < 4294967295 \<Longrightarrow> unat (i + 1) = Suc (unat i)" for i :: u32
  by (rule unat_inc_less [of i 4294967295]) simp

lemma smerge_take_left:
  assumes "j < length l" "k < length r \<longrightarrow> sint (l ! j) \<le> sint (r ! k)"
  shows "smerge (drop j l) (drop k r) = l ! j # smerge (drop (Suc j) l) (drop k r)"
proof (cases "k < length r")
  case True
  with assms show ?thesis
    using Cons_nth_drop_Suc [of j l] Cons_nth_drop_Suc [of k r] by (metis smerge.simps(3))
next
  case False
  with assms show ?thesis by (simp add: Cons_nth_drop_Suc)
qed

lemma smerge_take_right:
  assumes "k < length r" "j < length l \<longrightarrow> sint (r ! k) < sint (l ! j)"
  shows "smerge (drop j l) (drop k r) = r ! k # smerge (drop j l) (drop (Suc k) r)"
proof (cases "j < length l")
  case True
  with assms show ?thesis
    using Cons_nth_drop_Suc [of j l] Cons_nth_drop_Suc [of k r] by (metis smerge.simps(3) leD)
next
  case False
  with assms show ?thesis by (simp add: Cons_nth_drop_Suc)
qed

lemma read_right:
  assumes "runs_ok p l r l_arr lo mi l_len r_len" "merge_inv l r i j k m w" "unat k < length r"
  shows "rd (p @ m @ w @ drop (unat k) r @ q) (unat mi + unat k) = Some (r ! unat k)"
proof -
  have "unat mi + unat k = length (p @ m @ w)"
    using assms by (simp add: runs_ok_def merge_inv_def)
  moreover have "rd ((p @ m @ w) @ r ! unat k # drop (Suc (unat k)) r @ q) (length (p @ m @ w))
      = Some (r ! unat k)"
    by (rule rd_middle)
  ultimately show ?thesis
    using Cons_nth_drop_Suc [OF assms(3)] by (metis append.assoc append_Cons)
qed

lemma read_left:
  assumes "runs_ok p l r l_arr lo mi l_len r_len" "j < length l"
  shows "rd l_arr j = Some (l ! j)"
proof -
  have "l ! j = take (length l) l_arr ! j" using assms(1) by (simp add: runs_ok_def)
  also have "\<dots> = l_arr ! j" using assms(2) by simp
  finally show ?thesis using assms by (simp add: runs_ok_def)
qed

lemma write_next:
  assumes "runs_ok p l r l_arr lo mi l_len r_len" "merge_inv l r i j k m w"
  shows "wr (p @ m @ z # t) (unat lo + unat i) v = Some (p @ (m @ [v]) @ t)"
  using assms by (simp add: runs_ok_def merge_inv_def wr_def list_update_append)

lemma merge_left_correct:
  assumes ok: "runs_ok p l r l_arr lo mi l_len r_len" and inv: "merge_inv l r i j k m w"
    and j: "unat j < length l"
  shows "\<exists>i' j' m' w'. merge_left l_arr lo mi r_len i j k (p @ m @ w @ drop (unat k) r @ q)
      = Some (i', j', p @ m' @ w' @ drop (unat k) r @ q) \<and> merge_inv l r i' j' k m' w' \<and>
    m' @ smerge (drop (unat j') l) (drop (unat k) r) = m @ smerge (drop (unat j) l) (drop (unat k) r) \<and>
    (unat j' = Suc (unat j) \<or> j' = j \<and> i' = i \<and> unat k < length r \<and> sint (r ! unat k) < sint (l ! unat j))"
proof -
  have x: "rd l_arr (unat j) = Some (l ! unat j)"
    using ok j by (rule read_left)
  have k: "r_len \<le> k \<longleftrightarrow> \<not> unat k < length r" using ok by (auto simp: runs_ok_def unat_le)
  obtain z w' where w: "w = z # w'" using inv j by (cases w) (auto simp: merge_inv_def)
  have bound: "unat i < 4294967295" "unat j < 4294967295"
    using ok inv j by (auto simp: runs_ok_def merge_inv_def)
  show ?thesis
  proof (cases "unat k < length r \<and> sint (r ! unat k) < sint (l ! unat j)")
    case True
    then show ?thesis
      using x k read_right [OF ok inv] inv by (auto simp: merge_left_def word_sle_eq)
  next
    case False
    then have "merge_left l_arr lo mi r_len i j k (p @ m @ w @ drop (unat k) r @ q)
      = Some (i + 1, j + 1, p @ (m @ [l ! unat j]) @ w' @ drop (unat k) r @ q)"
      using x k read_right [OF ok inv] write_next [OF ok inv]
      by (auto simp: merge_left_def word_sle_eq w)
    moreover have "merge_inv l r (i + 1) (j + 1) k (m @ [l ! unat j]) w'"
      using inv j w bound by (auto simp: merge_inv_def unat_inc_bound)
    moreover have "smerge (drop (unat j) l) (drop (unat k) r)
      = l ! unat j # smerge (drop (Suc (unat j)) l) (drop (unat k) r)"
      using j False by (intro smerge_take_left) auto
    moreover have "unat (j + 1) = Suc (unat j)" using bound by (simp add: unat_inc_bound)
    ultimately show ?thesis
      by (intro exI [of _ "i + 1"] exI [of _ "j + 1"] exI [of _ "m @ [l ! unat j]"] exI [of _ w']) simp
  qed
qed

lemma merge_right_correct:
  assumes ok: "runs_ok p l r l_arr lo mi l_len r_len" and inv: "merge_inv l r i j k m w"
  shows "\<exists>i' k' m' w'. merge_right l_arr lo mi r_len i j k (p @ m @ w @ drop (unat k) r @ q)
      = Some (i', k', p @ m' @ w' @ drop (unat k') r @ q) \<and> merge_inv l r i' j k' m' w' \<and>
    m' @ smerge (drop (unat j) l) (drop (unat k') r) = m @ smerge (drop (unat j) l) (drop (unat k) r) \<and>
    (unat k' = Suc (unat k) \<or> k' = k \<and>
      \<not> (unat k < length r \<and> unat j < length l \<and> sint (r ! unat k) < sint (l ! unat j)))"
proof -
  have k: "k < r_len \<longleftrightarrow> unat k < length r" using ok by (auto simp: runs_ok_def unat_less)
  have jl: "unat j \<le> length l" using inv by (simp add: merge_inv_def)
  show ?thesis
  proof (cases "unat k < length r \<and> sint (r ! unat k) < sint (l_arr ! unat j)")
    case False
    have x: "unat k < length r \<Longrightarrow> rd l_arr (unat j) = Some (l_arr ! unat j)"
      using ok jl by (cases "r = []") (auto simp: runs_ok_def)
    have "unat j < length l \<Longrightarrow> l_arr ! unat j = l ! unat j"
      using read_left [OF ok] by (simp add: rd_Some_iff)
    with False x k read_right [OF ok inv] inv show ?thesis
      by (auto simp: merge_right_def sint_less)
  next
    case True
    define y where "y = r ! unat k"
    define w' where "w' = (if w = [] then [] else tl w @ [y])"
    have x: "rd l_arr (unat j) = Some (l_arr ! unat j)"
      using True ok jl by (cases "r = []") (auto simp: runs_ok_def)
    have tail: "w @ drop (unat k) r @ q = hd (w @ [y]) # w' @ drop (Suc (unat k)) r @ q"
      using True by (cases w) (simp_all add: w'_def y_def Cons_nth_drop_Suc)
    have bound: "unat i < 4294967295" "unat k < 4294967295"
      using ok inv True by (auto simp: runs_ok_def merge_inv_def)
    have "merge_right l_arr lo mi r_len i j k (p @ m @ w @ drop (unat k) r @ q)
      = Some (i + 1, k + 1, p @ (m @ [y]) @ w' @ drop (Suc (unat k)) r @ q)"
    proof -
      have "rd (p @ m @ w @ drop (unat k) r @ q) (unat mi + unat k) = Some y"
        using True read_right [OF ok inv] by (simp add: y_def)
      moreover have "wr (p @ m @ w @ drop (unat k) r @ q) (unat lo + unat i) y
        = Some (p @ (m @ [y]) @ w' @ drop (Suc (unat k)) r @ q)"
        unfolding tail by (rule write_next [OF ok inv])
      ultimately show ?thesis
        using True x k by (simp add: merge_right_def sint_less flip: y_def)
    qed
    moreover have "merge_inv l r (i + 1) j (k + 1) (m @ [y]) w'"
      using inv True bound by (cases w) (auto simp: merge_inv_def unat_inc_bound w'_def)
    moreover have "smerge (drop (unat j) l) (drop (unat k) r)
      = y # smerge (drop (unat j) l) (drop (Suc (unat k)) r)"
      unfolding y_def using True read_left [OF ok] by (intro smerge_take_right) (auto simp: rd_Some_iff)
    moreover have "unat (k + 1) = Suc (unat k)" using bound by (simp add: unat_inc_bound)
    ultimately show ?thesis
      by (intro exI [of _ "i + 1"] exI [of _ "k + 1"] exI [of _ "m @ [y]"] exI [of _ w']) simp
  qed
qed

lemma merge_loop_correct:
  assumes ok: "runs_ok p l r l_arr lo mi l_len r_len" and "merge_inv l r i j k m w"
  shows "merge_loop l_arr lo mi l_len r_len i j k (p @ m @ w @ drop (unat k) r @ q) =
    Some (p @ m @ smerge (drop (unat j) l) (drop (unat k) r) @ q)"
  using assms(2)
proof (induction "(length l - unat j) + (length r - unat k)" arbitrary: i j k m w rule: less_induct)
  case less
  have jlen: "j < l_len \<longleftrightarrow> unat j < length l" using ok by (auto simp: runs_ok_def unat_less)
  show ?case
  proof (cases "unat j < length l")
    case False
    then have "w = []" using less.prems by (cases w) (auto simp: merge_inv_def)
    with False jlen show ?thesis by (subst merge_loop.simps) simp
  next
    case True
    obtain i1 j1 m1 w1 where l1: "merge_left l_arr lo mi r_len i j k (p @ m @ w @ drop (unat k) r @ q)
        = Some (i1, j1, p @ m1 @ w1 @ drop (unat k) r @ q)" and inv1: "merge_inv l r i1 j1 k m1 w1"
      and eq1: "m1 @ smerge (drop (unat j1) l) (drop (unat k) r)
        = m @ smerge (drop (unat j) l) (drop (unat k) r)"
      and dec1: "unat j1 = Suc (unat j) \<or> j1 = j \<and> i1 = i \<and> unat k < length r \<and>
        sint (r ! unat k) < sint (l ! unat j)"
      using merge_left_correct [OF ok less.prems True] by blast
    obtain i2 k2 m2 w2 where r2: "merge_right l_arr lo mi r_len i1 j1 k (p @ m1 @ w1 @ drop (unat k) r @ q)
        = Some (i2, k2, p @ m2 @ w2 @ drop (unat k2) r @ q)" and inv2: "merge_inv l r i2 j1 k2 m2 w2"
      and eq2: "m2 @ smerge (drop (unat j1) l) (drop (unat k2) r)
        = m1 @ smerge (drop (unat j1) l) (drop (unat k) r)"
      and dec2: "unat k2 = Suc (unat k) \<or> k2 = k \<and>
        \<not> (unat k < length r \<and> unat j1 < length l \<and> sint (r ! unat k) < sint (l ! unat j1))"
      using merge_right_correct [OF ok inv1] by blast
    have "(length l - unat j1) + (length r - unat k2) < (length l - unat j) + (length r - unat k)"
      using dec1 dec2 True inv1 inv2 by (auto simp: merge_inv_def)
    from less.hyps [OF this inv2] eq1 eq2 True jlen l1 r2 show ?thesis
      by (subst merge_loop.simps) (simp flip: append_assoc)
  qed
qed

lemma slice_append:
  assumes "lo \<le> mi" "mi \<le> hi"
  shows "take (mi - lo) (drop lo a) @ take (hi - mi) (drop mi a) = take (hi - lo) (drop lo a)"
proof -
  have eq: "hi - lo = (mi - lo) + (hi - mi)" using assms by linarith
  show ?thesis unfolding eq take_add using assms by simp
qed

lemma slice_split:
  "lo \<le> mi \<Longrightarrow> mi \<le> hi \<Longrightarrow> hi \<le> length a \<Longrightarrow>
    a = take lo a @ take (mi - lo) (drop lo a) @ take (hi - mi) (drop mi a) @ drop hi a"
  using seg_split [of lo mi a] seg_split [of mi hi a]
  by (metis append.assoc append_same_eq append_take_drop_id le_trans drop_drop le_add_diff_inverse2)

lemma merger_correct:
  assumes "lo \<le> mi" "mi \<le> hi" "unat hi \<le> length a" "unat hi \<le> length buf"
  shows "\<exists>buf'. length buf' = length buf \<and> merger a buf lo mi hi =
    Some (take (unat lo) a @ smerge (take (unat mi - unat lo) (drop (unat lo) a))
      (take (unat hi - unat mi) (drop (unat mi) a)) @ drop (unat hi) a, buf')"
proof -
  let ?l = "take (unat mi - unat lo) (drop (unat lo) a)"
  let ?r = "take (unat hi - unat mi) (drop (unat mi) a)"
  define buf' where "buf' = ?l @ drop (unat mi - unat lo) buf"
  have le: "unat lo \<le> unat mi" "unat mi \<le> unat hi" using assms by (simp_all add: unat_le)
  have diff: "unat (mi - lo) = unat mi - unat lo" "unat (hi - mi) = unat hi - unat mi"
    using assms by (simp_all add: unat_sub)
  have copy: "c_memcpy buf 0 a (unat lo) (unat (mi - lo)) = Some buf'"
    using le assms by (simp add: c_memcpy_def buf'_def diff)
  have "runs_ok (take (unat lo) a) ?l ?r buf' lo mi (mi - lo) (hi - mi)"
    using le assms diff unat_lt_u32 [of hi] by (auto simp: runs_ok_def buf'_def)
  moreover have "merge_inv ?l ?r 0 0 0 [] ?l" by (simp add: merge_inv_def)
  ultimately have "merge_loop buf' lo mi (mi - lo) (hi - mi) 0 0 0
      (take (unat lo) a @ [] @ ?l @ drop (unat (0 :: u32)) ?r @ drop (unat hi) a)
    = Some (take (unat lo) a @ [] @ smerge (drop (unat (0 :: u32)) ?l) (drop (unat (0 :: u32)) ?r) @ drop (unat hi) a)"
    by (rule merge_loop_correct)
  then have "merge_loop buf' lo mi (mi - lo) (hi - mi) 0 0 0 a
    = Some (take (unat lo) a @ smerge ?l ?r @ drop (unat hi) a)"
    using slice_split [OF le assms(3)] by simp
  moreover have "length buf' = length buf" using le assms by (simp add: buf'_def)
  ultimately show ?thesis using copy by (simp add: merger_def Let_def)
qed

section \<open>The recursion\<close>

lemma merge_mid_nat:
  "unat lo + unat hi < 4294967296 \<Longrightarrow> unat (merge_mid lo hi) = (unat lo + unat hi) div 2"
  by (simp add: merge_mid_def unat_drop_bit_eq drop_bit_eq_div unat_word_ariths)

lemma merge_recursion_correct:
  assumes "lo \<le> hi" "unat hi \<le> length a" "unat hi \<le> length buf" "unat hi \<le> 2147483648"
  shows "\<exists>buf'. length buf' = length buf \<and> merge_recursion a buf lo hi =
    Some (take (unat lo) a @ sort_key sint (take (unat hi - unat lo) (drop (unat lo) a))
      @ drop (unat hi) a, buf')"
  using assms
proof (induction "unat hi - unat lo" arbitrary: a buf lo hi rule: less_induct)
  case less
  let ?s = "\<lambda>i j. take (unat j - unat i) (drop (unat i) a)"
  have le: "unat lo \<le> unat hi" using less.prems by (simp add: unat_le)
  have diff: "unat (hi - lo) = unat hi - unat lo" using less.prems by (simp add: unat_sub)
  show ?case
  proof (cases "hi - lo \<le> 1")
    case True
    then have "unat hi - unat lo \<le> 1" using diff by (metis unat_le unat_1)
    then have "length (?s lo hi) \<le> 1" by simp
    then have "sort_key sint (?s lo hi) = ?s lo hi"
      by (cases "?s lo hi" rule: remdups_adj.cases) auto
    then show ?thesis
      using True le less.prems seg_split [OF le, of a] by (subst merge_recursion.simps) auto
  next
    case False
    define mi where "mi = merge_mid lo hi"
    have big: "1 < unat hi - unat lo" using False diff by (metis linorder_not_le unat_1 unat_less)
    then have mi: "unat mi = (unat lo + unat hi) div 2"
      using less.prems(4) by (simp add: mi_def merge_mid_nat)
    have ord: "unat lo < unat mi" "unat mi < unat hi" using mi big by linarith+
    then have ordw: "lo \<le> mi" "mi \<le> hi" by (simp_all add: unat_le)
    have dec: "unat mi - unat lo < unat hi - unat lo" "unat hi - unat mi < unat hi - unat lo"
      using ord by linarith+
    let ?b = "take (unat lo) a @ sort_key sint (?s lo mi) @ drop (unat mi) a"
    let ?c = "take (unat lo) a @ sort_key sint (?s lo mi) @ sort_key sint (?s mi hi) @ drop (unat hi) a"
    obtain buf1 where r1: "merge_recursion a buf lo mi = Some (?b, buf1)" "length buf1 = length buf"
      using less.hyps [OF dec(1) ordw(1), of a buf] less.prems ord by auto
    obtain buf2 where r2: "merge_recursion ?b buf1 mi hi = Some (?c, buf2)" "length buf2 = length buf"
      using less.hyps [OF dec(2) ordw(2), of ?b buf1] less.prems ord r1 le by auto
    obtain buf3 where r3: "merger ?c buf2 lo mi hi = Some (take (unat lo) a @
        smerge (sort_key sint (?s lo mi)) (sort_key sint (?s mi hi)) @ drop (unat hi) a, buf3)"
      "length buf3 = length buf"
      using merger_correct [of lo mi hi ?c buf2] less.prems ord ordw r2 le by auto
    have "?s lo mi @ ?s mi hi = ?s lo hi"
      using ord by (intro slice_append) simp_all
    then have "smerge (sort_key sint (?s lo mi)) (sort_key sint (?s mi hi)) = sort_key sint (?s lo hi)"
      by (simp only: smerge_sorts)
    then show ?thesis
      using False r1 r2 r3 by (subst merge_recursion.simps) (simp flip: mi_def)
  qed
qed

lemma merge_sort_sorts:
  assumes "unat n \<le> length a" "unat n \<le> 2147483648"
  shows "merge_sort True a n = Some (sorted_prefix (unat n) a)"
proof (cases "n = 0")
  case True
  then show ?thesis by (simp add: merge_sort_def sorted_prefix_def)
next
  case False
  then show ?thesis
    using merge_recursion_correct [of 0 n a "replicate (unat n) 0"] assms
    by (auto simp: merge_sort_def sorted_prefix_def)
qed

interpretation merge: array_sorter "merge_sort True" 2147483648
  by unfold_locales (rule merge_sort_sorts)

section \<open>Properties\<close>

text \<open>
  C2: \<open>merge_sort\<close> sorts every array of up to \<open>2 ^ 31\<close> elements, provided the scratch buffer
  was allocated; the recursion returns and neither array is left.
\<close>

theorem merge_sort_correct:
  assumes "unat n \<le> length a" "unat n \<le> 2147483648"
  shows "merge_sort True a n = Some (sort_key sint (take (unat n) a) @ drop (unat n) a)"
  using merge.sorts [of n a] assms unat_lt_u32 [of n] by (simp add: sorted_prefix_def)

theorem merge_sort_correct_witness:
  "merge_sort True [3, - 2, 7, 1, 0] 4 = Some [- 2, 1, 3, 7, 0]"
  using merge_sort_correct [of 4 "[3, - 2, 7, 1, 0]"] by simp

text \<open>
  C7: one merge. For neighbouring segments \<open>lo .. mi\<close> and \<open>mi .. hi\<close>, \<open>merger\<close> replaces them
  by their merge (left elements first among equals) and changes nothing else, although it reads
  one cell of the buffer beyond the copied run.
\<close>

theorem merger_merges:
  assumes "lo \<le> mi" "mi \<le> hi" "unat hi \<le> length a" "unat hi \<le> length buf"
  shows "map_option fst (merger a buf lo mi hi) = Some (take (unat lo) a
    @ smerge (take (unat mi - unat lo) (drop (unat lo) a)) (take (unat hi - unat mi) (drop (unat mi) a))
    @ drop (unat hi) a)"
  using merger_correct [OF assms] by auto

theorem merger_merges_witness:
  "map_option fst (merger [9, 1, 4, 2, 3, 0] [0, 0, 0, 0, 0, 0] 1 3 5) = Some [9, 1, 2, 3, 4, 0]"
  using merger_merges [of 1 3 5 "[9, 1, 4, 2, 3, 0]" "[0, 0, 0, 0, 0, 0]"] by simp

text \<open>
  When \<open>calloc\<close> fails, \<open>merge_sort\<close> returns the array as it was; the caller cannot tell.
\<close>

theorem merge_sort_without_memory: "merge_sort False a n = Some a"
  by (simp add: merge_sort_def)

text \<open>
  The midpoint \<open>(lo + hi) >> 1\<close> of 32-bit bounds lies between them as long as their sum fits
  in 32 bits, and falls below \<open>lo\<close> as soon as it does not.
\<close>

theorem merge_mid_bounds:
  assumes "lo < hi"
  shows "lo \<le> merge_mid lo hi \<and> merge_mid lo hi < hi \<longleftrightarrow> unat lo + unat hi < 4294967296"
proof -
  have lt: "unat lo < unat hi" "unat hi < 4294967296"
    using assms unat_lt_u32 by (simp_all add: unat_less)
  have "unat (merge_mid lo hi) = (unat lo + unat hi) mod 4294967296 div 2"
    by (simp add: merge_mid_def unat_drop_bit_eq drop_bit_eq_div unat_word_ariths)
  moreover have "(unat lo + unat hi) mod 4294967296 =
      (if unat lo + unat hi < 4294967296 then unat lo + unat hi else unat lo + unat hi - 4294967296)"
    using lt by (simp add: le_mod_geq)
  ultimately show ?thesis using lt by (auto simp: unat_le unat_less)
qed

theorem merge_mid_bounds_witness:
  "\<not> (2147483648 \<le> merge_mid 2147483648 2147483650 \<and> merge_mid 2147483648 2147483650 < 2147483650)"
  using merge_mid_bounds [of 2147483648 2147483650] by simp

end
