(* ===== verification/Http_Peek.thy ===== *)
theory Http_Peek
  imports C_Base
begin

text \<open>
  The definitions for \<open>common/http_peek.c\<close>: a scanner for the first lines of an HTTP request
  or response.

  \<open>mem\<close> is the object that \<open>buf\<close> points to, byte by byte; a \<open>const char *\<close> into it is an
  offset, and reading through a pointer is \<open>rd mem\<close>, undefined outside the object. A function
  that returns a pointer or \<open>NULL\<close> has a result of type \<open>\<dots> option option\<close>: the outer
  \<open>None\<close> is undefined behaviour, the inner one is the returned \<open>NULL\<close>. Bytes are unsigned;
  every comparison in the code is with a character below 128, so the signedness of \<open>char\<close> does
  not matter.
\<close>

section \<open>The result structure\<close>

text \<open>\<open>peek_header_t\<close>; \<open>None\<close> is the null pointer.\<close>

record peek_header =
  ph_name :: "nat option"
  ph_name_len :: u16
  ph_value :: "nat option"
  ph_value_len :: u16
  ph_version :: int
  ph_method :: "nat option"
  ph_method_len :: u16
  ph_path :: "nat option"
  ph_path_len :: u16
  ph_res_code :: int
  ph_msg :: "nat option"
  ph_msg_len :: u16

section \<open>Character classes\<close>

definition is_printable_ascii :: "u8 \<Rightarrow> bool" where
  "is_printable_ascii c \<longleftrightarrow> (ucast c :: u32) - 32 < 95"

definition char_is_not_number :: "u8 \<Rightarrow> bool" where
  "char_is_not_number c \<longleftrightarrow> c < 48 \<or> 57 < c"

text \<open>The control test of \<open>get_token_to_eol\<close>, and the one of \<open>ADVANCE_TOKEN\<close> (no exception for tab).\<close>

definition is_eol_ctl :: "u8 \<Rightarrow> bool" where
  "is_eol_ctl c \<longleftrightarrow> c < 32 \<and> c \<noteq> 9 \<or> c = 127"

definition is_path_ctl :: "u8 \<Rightarrow> bool" where
  "is_path_ctl c \<longleftrightarrow> c < 32 \<or> c = 127"

definition is_blank :: "u8 \<Rightarrow> bool" where
  "is_blank c \<longleftrightarrow> c = 32 \<or> c = 9"

definition token_char_map :: "nat list" where
  "token_char_map =
     replicate 32 0 @
     [0,1,0,1,1,1,1,1,0,0,1,1,0,1,1,0,1,1,1,1,1,1,1,1,1,1,0,0,0,0,0,0] @
     [0,1,1,1,1,1,1,1,1,1,1,1,1,1,1,1,1,1,1,1,1,1,1,1,1,1,1,0,0,0,1,1] @
     [1,1,1,1,1,1,1,1,1,1,1,1,1,1,1,1,1,1,1,1,1,1,1,1,1,1,1,0,1,0,1,0] @
     replicate 128 0"

definition is_token_char :: "u8 \<Rightarrow> bool" where
  "is_token_char c \<longleftrightarrow> token_char_map ! unat c \<noteq> 0"

section \<open>The scanners\<close>

text \<open>\<open>CHECK_EOF\<close> and \<open>EXPECT_CHAR(ch)\<close>: the pointer behind the expected character, or \<open>NULL\<close>.\<close>

definition expect_char :: "u8 list \<Rightarrow> nat \<Rightarrow> nat \<Rightarrow> u8 \<Rightarrow> nat option option" where
  "expect_char mem buf_end buf ch =
     (if buf = buf_end then Some None
      else do {
        c \<leftarrow> rd mem buf;
        if c \<noteq> ch then Some None else Some (Some (buf + 1)) })"

text \<open>
  \<open>get_token_to_eol\<close>. \<open>eol_doit n\<close> is the unrolled run of \<open>n\<close> copies of \<open>DOIT()\<close>: it stops
  at a non-printable character (\<open>True\<close>) or behind the \<open>n\<close> characters (\<open>False\<close>).
\<close>

fun eol_doit :: "nat \<Rightarrow> u8 list \<Rightarrow> nat \<Rightarrow> (bool \<times> nat) option" where
  "eol_doit 0 mem buf = Some (False, buf)"
| "eol_doit (Suc n) mem buf = do {
     c \<leftarrow> rd mem buf;
     if \<not> is_printable_ascii c then Some (True, buf)
     else eol_doit n mem (buf + 1) }"

lemma eol_doit_bounds:
  "eol_doit n mem buf = Some (np, p) \<Longrightarrow> buf \<le> p \<and> (np \<or> p = buf + n)"
  by (induction n arbitrary: buf) (fastforce simp: bind_eq_Some_conv split: if_splits)+

text \<open>The loop over blocks of eight: \<open>True\<close> is the jump to \<open>FOUND_CTL\<close>.\<close>

function eol_blocks :: "u8 list \<Rightarrow> nat \<Rightarrow> nat \<Rightarrow> (bool \<times> nat) option" where
  "eol_blocks mem buf_end buf =
     (if buf + 8 \<le> buf_end then do {
        (np, p) \<leftarrow> eol_doit 8 mem buf;
        if np then do {
          c \<leftarrow> rd mem p;
          if is_eol_ctl c then Some (True, p)
          else eol_blocks mem buf_end (p + 1) }
        else eol_blocks mem buf_end p }
      else Some (False, buf))"
  by pat_completeness auto
termination
  by (relation "measure (\<lambda>(_, e, p). e - p)") (auto dest!: eol_doit_bounds)

declare eol_blocks.simps [simp del]

text \<open>The loop over single characters; \<open>NULL\<close> when the end of the buffer is met.\<close>

function eol_chars :: "u8 list \<Rightarrow> nat \<Rightarrow> nat \<Rightarrow> nat option option" where
  "eol_chars mem buf_end buf =
     (if buf = buf_end then Some None
      else do {
        c \<leftarrow> rd mem buf;
        if \<not> is_printable_ascii c \<and> is_eol_ctl c then Some (Some buf)
        else eol_chars mem buf_end (buf + 1) })"
  by pat_completeness auto
termination
  by (relation "measure (\<lambda>(mem, _, p). length mem - p)") (auto simp: rd_Some_iff)

declare eol_chars.simps [simp del]

text \<open>\<open>FOUND_CTL\<close>: the result is the new \<open>buf\<close> with \<open>*token\<close> and \<open>*token_len\<close>.\<close>

definition found_ctl :: "u8 list \<Rightarrow> nat \<Rightarrow> nat \<Rightarrow> nat \<Rightarrow> (nat \<times> nat \<times> u16) option option" where
  "found_ctl mem buf_end token_start buf = do {
     c \<leftarrow> rd mem buf;
     if c = 13 then do {
       r \<leftarrow> expect_char mem buf_end (buf + 1) 10;
       Some (case r of None \<Rightarrow> None
             | Some p \<Rightarrow> Some (p, token_start, word_of_nat (p - 2 - token_start))) }
     else if c = 10 then
       Some (Some (buf + 1, token_start, word_of_nat (buf - token_start)))
     else Some None }"

definition get_token_to_eol :: "u8 list \<Rightarrow> nat \<Rightarrow> nat \<Rightarrow> (nat \<times> nat \<times> u16) option option" where
  "get_token_to_eol mem buf_end buf = do {
     (ctl, p) \<leftarrow> eol_blocks mem buf_end buf;
     if ctl then found_ctl mem buf_end buf p
     else do {
       r \<leftarrow> eol_chars mem buf_end p;
       case r of None \<Rightarrow> Some None
       | Some p \<Rightarrow> found_ctl mem buf_end buf p } }"

text \<open>\<open>parse_token\<close>: the result is the new \<open>buf\<close> with \<open>*token\<close> and \<open>*token_len\<close>.\<close>

function token_chars :: "u8 list \<Rightarrow> nat \<Rightarrow> u8 \<Rightarrow> nat \<Rightarrow> nat option option" where
  "token_chars mem buf_end next_char buf = do {
     c \<leftarrow> rd mem buf;
     if c = next_char then Some (Some buf)
     else if \<not> is_token_char c then Some None
     else if buf + 1 = buf_end then Some None
     else token_chars mem buf_end next_char (buf + 1) }"
  by pat_completeness auto
termination
  by (relation "measure (\<lambda>(mem, _, _, p). length mem - p)") (auto simp: rd_Some_iff)

declare token_chars.simps [simp del]

definition parse_token :: "u8 list \<Rightarrow> nat \<Rightarrow> nat \<Rightarrow> u8 \<Rightarrow> (nat \<times> nat \<times> u16) option option" where
  "parse_token mem buf_end buf next_char = do {
     r \<leftarrow> token_chars mem buf_end next_char buf;
     Some (case r of None \<Rightarrow> None | Some p \<Rightarrow> Some (p, buf, word_of_nat (p - buf))) }"

text \<open>The comparisons \<open>buf[0] != 'H' || buf[1] != 'T' || \<dots>\<close>, left to right.\<close>

fun match_bytes :: "u8 list \<Rightarrow> nat \<Rightarrow> u8 list \<Rightarrow> bool option" where
  "match_bytes mem buf [] = Some True"
| "match_bytes mem buf (x # xs) = do {
     c \<leftarrow> rd mem buf;
     if c \<noteq> x then Some False else match_bytes mem (buf + 1) xs }"

text \<open>\<open>HTTP/1.\<close>\<close>

definition http_prefix :: "u8 list" where
  "http_prefix = [72, 84, 84, 80, 47, 49, 46]"

definition parse_http_version :: "u8 list \<Rightarrow> nat \<Rightarrow> nat \<Rightarrow> (nat \<times> int) option option" where
  "parse_http_version mem buf_end buf =
     (if buf_end < buf + 9 then Some None
      else do {
        ok \<leftarrow> match_bytes mem buf http_prefix;
        if \<not> ok then Some None
        else do {
          c \<leftarrow> rd mem (buf + 7);
          if char_is_not_number c then Some None
          else Some (Some (buf + 8, uint c - 48)) } })"

text \<open>\<open>do { ++buf; CHECK_EOF(); } while (*buf == ' ');\<close>\<close>

function skip_spaces :: "u8 list \<Rightarrow> nat \<Rightarrow> nat \<Rightarrow> nat option option" where
  "skip_spaces mem buf_end buf =
     (if buf + 1 = buf_end then Some None
      else do {
        c \<leftarrow> rd mem (buf + 1);
        if c = 32 then skip_spaces mem buf_end (buf + 1) else Some (Some (buf + 1)) })"
  by pat_completeness auto
termination
  by (relation "measure (\<lambda>(mem, _, p). length mem - p)") (auto simp: rd_Some_iff)

text \<open>\<open>ADVANCE_TOKEN(tok, toklen)\<close>: the new \<open>buf\<close>; the token starts at the old one.\<close>

function advance_token :: "u8 list \<Rightarrow> nat \<Rightarrow> nat \<Rightarrow> nat option option" where
  "advance_token mem buf_end buf = do {
     c \<leftarrow> rd mem buf;
     if c = 32 then Some (Some buf)
     else if \<not> is_printable_ascii c \<and> is_path_ctl c then Some None
     else if buf + 1 = buf_end then Some None
     else advance_token mem buf_end (buf + 1) }"
  by pat_completeness auto
termination
  by (relation "measure (\<lambda>(mem, _, p). length mem - p)") (auto simp: rd_Some_iff)

declare skip_spaces.simps [simp del] advance_token.simps [simp del]

section \<open>One header line\<close>

text \<open>\<open>for (;; ++buf) { CHECK_EOF(); if (!(*buf == ' ' || *buf == '\t')) break; }\<close>\<close>

function skip_blanks :: "u8 list \<Rightarrow> nat \<Rightarrow> nat \<Rightarrow> nat option option" where
  "skip_blanks mem buf_end buf =
     (if buf = buf_end then Some None
      else do {
        c \<leftarrow> rd mem buf;
        if is_blank c then skip_blanks mem buf_end (buf + 1) else Some (Some buf) })"
  by pat_completeness auto
termination
  by (relation "measure (\<lambda>(mem, _, p). length mem - p)") (auto simp: rd_Some_iff)

text \<open>Remove trailing spaces and tabs: the loop over \<open>value_end\<close>.\<close>

function trim_end :: "u8 list \<Rightarrow> nat \<Rightarrow> nat \<Rightarrow> nat option" where
  "trim_end mem val e =
     (if e = val then Some e
      else if e = 0 then None
      else do {
        c \<leftarrow> rd mem (e - 1);
        if \<not> is_blank c then Some e else trim_end mem val (e - 1) })"
  by pat_completeness auto
termination
  by (relation "measure (\<lambda>(_, _, e). e)") auto

declare skip_blanks.simps [simp del] trim_end.simps [simp del]

definition header_value :: "u8 list \<Rightarrow> nat \<Rightarrow> nat \<Rightarrow> peek_header \<Rightarrow> (bool \<times> peek_header) option" where
  "header_value mem buf_end buf h = do {
     r \<leftarrow> get_token_to_eol mem buf_end buf;
     case r of None \<Rightarrow> Some (False, h)
     | Some (p, tok, value_len) \<Rightarrow> do {
         let h = h\<lparr>ph_value := Some tok\<rparr>;
         value_end \<leftarrow> trim_end mem tok (tok + unat value_len);
         Some (True, h\<lparr>ph_value_len := word_of_nat (value_end - tok)\<rparr>) } }"

definition parse_header :: "u8 list \<Rightarrow> nat \<Rightarrow> nat \<Rightarrow> peek_header \<Rightarrow> (bool \<times> peek_header) option" where
  "parse_header mem buf_end buf h =
     (if buf = buf_end then Some (False, h)
      else do {
        c \<leftarrow> rd mem buf;
        if c = 13 then do {
          r \<leftarrow> expect_char mem buf_end (buf + 1) 10;
          Some (False, h) }
        else if c = 10 then Some (False, h)
        else if \<not> is_blank c then do {
          r \<leftarrow> parse_token mem buf_end buf 58;
          case r of None \<Rightarrow> Some (False, h)
          | Some (p, tok, len) \<Rightarrow>
              (let h = h\<lparr>ph_name := Some tok, ph_name_len := len\<rparr> in
               if len = 0 then Some (False, h)
               else do {
                 r \<leftarrow> skip_blanks mem buf_end (p + 1);
                 case r of None \<Rightarrow> Some (False, h)
                 | Some q \<Rightarrow> header_value mem buf_end q h }) }
        else header_value mem buf_end buf (h\<lparr>ph_name := None, ph_name_len := 0\<rparr>) })"

section \<open>Requests and responses\<close>

text \<open>The optional line end at the start of a request and behind the version.\<close>

definition line_end :: "u8 list \<Rightarrow> nat \<Rightarrow> nat \<Rightarrow> nat option option" where
  "line_end mem buf_end buf = do {
     c \<leftarrow> rd mem buf;
     if c = 13 then expect_char mem buf_end (buf + 1) 10
     else if c = 10 then Some (Some (buf + 1))
     else Some None }"

definition skip_empty_line :: "u8 list \<Rightarrow> nat \<Rightarrow> nat \<Rightarrow> nat option option" where
  "skip_empty_line mem buf_end buf =
     (if buf = buf_end then Some None
      else do {
        c \<leftarrow> rd mem buf;
        if c = 13 then expect_char mem buf_end (buf + 1) 10
        else if c = 10 then Some (Some (buf + 1))
        else Some (Some buf) })"

text \<open>\<open>peek_http_request\<close>, from the version on, and as a whole.\<close>

definition request_version :: "u8 list \<Rightarrow> nat \<Rightarrow> nat \<Rightarrow> peek_header \<Rightarrow> (bool \<times> peek_header) option" where
  "request_version mem buf_end buf h =
     (if ph_method_len h = 0 \<or> ph_path_len h = 0 then Some (False, h)
      else do {
        r \<leftarrow> parse_http_version mem buf_end buf;
        case r of None \<Rightarrow> Some (False, h)
        | Some (p, v) \<Rightarrow> do {
            let h = h\<lparr>ph_version := v\<rparr>;
            r \<leftarrow> line_end mem buf_end p;
            case r of None \<Rightarrow> Some (False, h)
            | Some q \<Rightarrow> parse_header mem buf_end q h } })"

definition request_path :: "u8 list \<Rightarrow> nat \<Rightarrow> nat \<Rightarrow> peek_header \<Rightarrow> (bool \<times> peek_header) option" where
  "request_path mem buf_end buf h = do {
     r \<leftarrow> skip_spaces mem buf_end buf;
     case r of None \<Rightarrow> Some (False, h)
     | Some tok \<Rightarrow> do {
         r \<leftarrow> advance_token mem buf_end tok;
         case r of None \<Rightarrow> Some (False, h)
         | Some p \<Rightarrow> do {
             let h = h\<lparr>ph_path := Some tok, ph_path_len := word_of_nat (p - tok)\<rparr>;
             r \<leftarrow> skip_spaces mem buf_end p;
             case r of None \<Rightarrow> Some (False, h)
             | Some q \<Rightarrow> request_version mem buf_end q h } } }"

definition peek_http_request :: "u8 list \<Rightarrow> u16 \<Rightarrow> peek_header \<Rightarrow> (bool \<times> peek_header) option" where
  "peek_http_request mem len h = do {
     let buf_end = unat len;
     r \<leftarrow> skip_empty_line mem buf_end 0;
     case r of None \<Rightarrow> Some (False, h)
     | Some buf \<Rightarrow> do {
         r \<leftarrow> parse_token mem buf_end buf 32;
         case r of None \<Rightarrow> Some (False, h)
         | Some (p, tok, n) \<Rightarrow>
             request_path mem buf_end p (h\<lparr>ph_method := Some tok, ph_method_len := n\<rparr>) } }"

text \<open>
  \<open>peek_http_response\<close>. \<open>strip_msg\<close> is \<open>do { ++p_head->msg; --p_head->msg_len; } while
  (*p_head->msg == ' ');\<close>; \<open>msg\<close> is whatever the caller left there, null or a pointer into
  the same object.
\<close>

function strip_msg :: "u8 list \<Rightarrow> nat \<Rightarrow> u16 \<Rightarrow> (nat \<times> u16) option" where
  "strip_msg mem msg msg_len = do {
     c \<leftarrow> rd mem (msg + 1);
     if c = 32 then strip_msg mem (msg + 1) (msg_len - 1)
     else Some (msg + 1, msg_len - 1) }"
  by pat_completeness auto
termination
  by (relation "measure (\<lambda>(mem, p, _). length mem - p)") (auto simp: rd_Some_iff)

declare strip_msg.simps [simp del]

definition response_message :: "u8 list \<Rightarrow> nat \<Rightarrow> nat \<Rightarrow> peek_header \<Rightarrow> (bool \<times> peek_header) option" where
  "response_message mem buf_end buf h = do {
     r \<leftarrow> get_token_to_eol mem buf_end buf;
     case r of None \<Rightarrow> Some (False, h)
     | Some (p, tok, n) \<Rightarrow>
         (let h = h\<lparr>ph_value := Some tok, ph_value_len := n\<rparr> in
          if ph_msg_len h = 0 then parse_header mem buf_end p h
          else do {
            m \<leftarrow> ph_msg h;
            c \<leftarrow> rd mem m;
            if c = 32 then do {
              (m, k) \<leftarrow> strip_msg mem m (ph_msg_len h);
              parse_header mem buf_end p (h\<lparr>ph_msg := Some m, ph_msg_len := k\<rparr>) }
            else Some (False, h) }) }"

text \<open>The three digits of the status code at \<open>buf\<close>, tested left to right.\<close>

definition status_code :: "u8 list \<Rightarrow> nat \<Rightarrow> nat \<Rightarrow> int option option" where
  "status_code mem buf_end buf =
     (if buf_end < buf + 4 then Some None
      else do {
        d0 \<leftarrow> rd mem buf;
        if char_is_not_number d0 then Some None
        else do {
          d1 \<leftarrow> rd mem (buf + 1);
          if char_is_not_number d1 then Some None
          else do {
            d2 \<leftarrow> rd mem (buf + 2);
            if char_is_not_number d2 then Some None
            else Some (Some (100 * (uint d0 - 48) + 10 * (uint d1 - 48) + (uint d2 - 48))) } } })"

definition peek_http_response :: "u8 list \<Rightarrow> u16 \<Rightarrow> peek_header \<Rightarrow> (bool \<times> peek_header) option" where
  "peek_http_response mem len h = do {
     let buf_end = unat len;
     r \<leftarrow> parse_http_version mem buf_end 0;
     case r of None \<Rightarrow> Some (False, h)
     | Some (p, v) \<Rightarrow> do {
         let h = h\<lparr>ph_version := v\<rparr>;
         c \<leftarrow> rd mem p;
         if c \<noteq> 32 then Some (False, h)
         else do {
           r \<leftarrow> skip_spaces mem buf_end p;
           case r of None \<Rightarrow> Some (False, h)
           | Some q \<Rightarrow> do {
               r \<leftarrow> status_code mem buf_end q;
               case r of None \<Rightarrow> Some (False, h)
               | Some code \<Rightarrow>
                   response_message mem buf_end (q + 3) (h\<lparr>ph_res_code := code\<rparr>) } } } }"

end
