(* ===== verification/Http_Scan.thy ===== *)
theory Http_Scan
  imports Http_Peek
begin

text \<open>
  The scanners of \<open>Http_Peek\<close> one by one: they stay inside the buffer, and what a returned
  pointer means. The contract \<open>safe_scanner\<close> is the interface between the scanners and the
  parsers of requests and responses.
\<close>

section \<open>Character classes\<close>

lemma is_printable_iff: "is_printable_ascii c \<longleftrightarrow> 32 \<le> c \<and> c < 127"
  by (rule all_bytes [where P = "\<lambda>c. is_printable_ascii c \<longleftrightarrow> 32 \<le> c \<and> c < 127"]) code_simp

lemma eol_ctl_not_printable: "is_eol_ctl c \<Longrightarrow> \<not> is_printable_ascii c"
  by (auto simp: is_eol_ctl_def is_printable_iff word_less_nat_alt word_le_nat_alt)

lemma path_ctl_not_printable: "is_path_ctl c \<Longrightarrow> \<not> is_printable_ascii c"
  by (auto simp: is_path_ctl_def is_printable_iff word_less_nat_alt word_le_nat_alt)

section \<open>The contract of a scanner\<close>

text \<open>
  A scanner is entered at \<open>buf\<close>, which lies before \<open>buf_end\<close> (\<open>strict_in\<close>) or may be equal
  to it. It then reads only inside the object, returns, and a pointer it returns is not before
  \<open>buf\<close> and lies before \<open>buf_end\<close> (\<open>strict_out\<close>) or at most there.
\<close>

definition within :: "bool \<Rightarrow> nat \<Rightarrow> nat \<Rightarrow> bool" where
  "within strict p e \<longleftrightarrow> (if strict then p < e else p \<le> e)"

lemma within_simps [simp]: "within True p e \<longleftrightarrow> p < e" "within False p e \<longleftrightarrow> p \<le> e"
  by (simp_all add: within_def)

locale safe_scanner =
  fixes scan :: "u8 list \<Rightarrow> nat \<Rightarrow> nat \<Rightarrow> 'r option option"
    and pos :: "'r \<Rightarrow> nat"
    and strict_in strict_out :: bool
  assumes scan_safe: "e \<le> length mem \<Longrightarrow> within strict_in b e \<Longrightarrow>
    \<exists>r. scan mem e b = Some r \<and> (\<forall>x. r = Some x \<longrightarrow> b \<le> pos x \<and> within strict_out (pos x) e)"
begin

text \<open>The two ways a parser uses a scanner: for its bounds, and in front of a continuation.\<close>

lemma scan_bounds:
  assumes "e \<le> length mem" "within strict_in b e" "scan mem e b = Some (Some x)"
  shows "b \<le> pos x" "within strict_out (pos x) e"
  using scan_safe [OF assms(1,2)] assms(3) by auto

lemma scan_chain:
  assumes "e \<le> length mem" "within strict_in b e"
    and "\<And>x. scan mem e b = Some (Some x) \<Longrightarrow> b \<le> pos x \<Longrightarrow> within strict_out (pos x) e \<Longrightarrow> k x \<noteq> None"
  shows "(scan mem e b \<bind> (\<lambda>r. case r of None \<Rightarrow> Some y | Some x \<Rightarrow> k x)) \<noteq> None"
  using scan_safe [OF assms(1,2)] assms(3) by (auto split: option.splits)

end

section \<open>Line ends\<close>

lemma expect_char_safe:
  assumes "e \<le> length mem" "b \<le> e"
  shows "\<exists>r. expect_char mem e b ch = Some r \<and> (\<forall>p. r = Some p \<longrightarrow> p = b + 1 \<and> b < e \<and> mem ! b = ch)"
  using assms by (auto simp: expect_char_def)

lemma line_end_safe:
  assumes "e \<le> length mem" "b < e"
  shows "\<exists>r. line_end mem e b = Some r \<and> (\<forall>p. r = Some p \<longrightarrow> b \<le> p \<and> p \<le> e)"
  using assms expect_char_safe [of e mem "b + 1" 10] by (fastforce simp: line_end_def)

lemma skip_empty_line_safe:
  assumes "e \<le> length mem" "b \<le> e"
  shows "\<exists>r. skip_empty_line mem e b = Some r \<and> (\<forall>p. r = Some p \<longrightarrow> b \<le> p \<and> p \<le> e)"
  using assms expect_char_safe [of e mem "b + 1" 10] by (fastforce simp: skip_empty_line_def)

interpretation line_end: safe_scanner line_end "\<lambda>p. p" True False
  by unfold_locales (use line_end_safe in simp)

interpretation empty_line: safe_scanner skip_empty_line "\<lambda>p. p" False False
  by unfold_locales (use skip_empty_line_safe in simp)

section \<open>Spaces and blanks\<close>

lemma skip_spaces_safe:
  assumes "e \<le> length mem" "b < e"
  shows "\<exists>r. skip_spaces mem e b = Some r \<and> (\<forall>p. r = Some p \<longrightarrow> b < p \<and> p < e \<and>
    mem ! p \<noteq> 32 \<and> (\<forall>q. b < q \<and> q < p \<longrightarrow> mem ! q = 32))"
  using assms
proof (induction mem e b rule: skip_spaces.induct)
  case (1 mem e b)
  show ?case
  proof (cases "b + 1 < e \<and> mem ! (b + 1) = 32")
    case False
    with "1.prems" show ?thesis by (auto simp: skip_spaces.simps [of mem e b])
  next
    case True
    with "1.prems" "1.IH" [of "mem ! (b + 1)"]
    obtain r where r: "skip_spaces mem e (b + 1) = Some r"
      "\<And>p. r = Some p \<Longrightarrow> b + 1 < p \<and> p < e \<and> mem ! p \<noteq> 32 \<and> (\<forall>q. b + 1 < q \<and> q < p \<longrightarrow> mem ! q = 32)"
      by auto
    have "mem ! q = 32" if "r = Some p" "b < q" "q < p" for p q
      using r(2) [OF that(1)] True that by (cases "q = b + 1") auto
    with r True "1.prems" show ?thesis by (fastforce simp: skip_spaces.simps [of mem e b])
  qed
qed

lemma skip_blanks_safe:
  assumes "e \<le> length mem" "b \<le> e"
  shows "\<exists>r. skip_blanks mem e b = Some r \<and> (\<forall>p. r = Some p \<longrightarrow> b \<le> p \<and> p < e \<and> \<not> is_blank (mem ! p) \<and>
    (\<forall>q. b \<le> q \<and> q < p \<longrightarrow> is_blank (mem ! q)))"
  using assms
proof (induction mem e b rule: skip_blanks.induct)
  case (1 mem e b)
  show ?case
  proof (cases "b < e \<and> is_blank (mem ! b)")
    case False
    with "1.prems" show ?thesis by (auto simp: skip_blanks.simps [of mem e b])
  next
    case True
    with "1.prems" "1.IH" [of "mem ! b"]
    obtain r where r: "skip_blanks mem e (b + 1) = Some r"
      "\<And>p. r = Some p \<Longrightarrow> b + 1 \<le> p \<and> p < e \<and> \<not> is_blank (mem ! p) \<and>
        (\<forall>q. b + 1 \<le> q \<and> q < p \<longrightarrow> is_blank (mem ! q))"
      by auto
    have "is_blank (mem ! q)" if "r = Some p" "b \<le> q" "q < p" for p q
      using r(2) [OF that(1)] True that by (cases "q = b") auto
    with r True "1.prems" show ?thesis by (fastforce simp: skip_blanks.simps [of mem e b])
  qed
qed

section \<open>Tokens\<close>

lemma token_chars_safe:
  assumes "e \<le> length mem" "b < e"
  shows "\<exists>r. token_chars mem e ch b = Some r \<and> (\<forall>p. r = Some p \<longrightarrow> b \<le> p \<and> p < e \<and> mem ! p = ch \<and>
    (\<forall>q. b \<le> q \<and> q < p \<longrightarrow> is_token_char (mem ! q) \<and> mem ! q \<noteq> ch))"
  using assms
proof (induction mem e ch b rule: token_chars.induct)
  case (1 mem e ch b)
  let ?c = "mem ! b"
  show ?case
  proof (cases "?c \<noteq> ch \<and> is_token_char ?c \<and> b + 1 \<noteq> e")
    case False
    with "1.prems" show ?thesis by (auto simp: token_chars.simps [of mem e ch b])
  next
    case True
    with "1.prems" "1.IH" [of ?c]
    obtain r where r: "token_chars mem e ch (b + 1) = Some r"
      "\<And>p. r = Some p \<Longrightarrow> b + 1 \<le> p \<and> p < e \<and> mem ! p = ch \<and>
        (\<forall>q. b + 1 \<le> q \<and> q < p \<longrightarrow> is_token_char (mem ! q) \<and> mem ! q \<noteq> ch)"
      by auto
    have "is_token_char (mem ! q) \<and> mem ! q \<noteq> ch" if "r = Some p" "b \<le> q" "q < p" for p q
      using r(2) [OF that(1)] True that by (cases "q = b") auto
    with r True "1.prems" show ?thesis by (fastforce simp: token_chars.simps [of mem e ch b])
  qed
qed

lemma parse_token_safe:
  assumes "e \<le> length mem" "b < e"
  shows "\<exists>r. parse_token mem e b ch = Some r \<and> (\<forall>p tok n. r = Some (p, tok, n) \<longrightarrow> b \<le> p \<and> p < e \<and>
    mem ! p = ch \<and> tok = b \<and> n = word_of_nat (p - b) \<and>
    (\<forall>q. b \<le> q \<and> q < p \<longrightarrow> is_token_char (mem ! q) \<and> mem ! q \<noteq> ch))"
  using token_chars_safe [OF assms, of ch] by (auto simp: parse_token_def split: option.splits)

lemma advance_token_safe:
  assumes "e \<le> length mem" "b < e"
  shows "\<exists>r. advance_token mem e b = Some r \<and> (\<forall>p. r = Some p \<longrightarrow> b \<le> p \<and> p < e \<and> mem ! p = 32 \<and>
    (\<forall>q. b \<le> q \<and> q < p \<longrightarrow> \<not> is_path_ctl (mem ! q) \<and> mem ! q \<noteq> 32))"
  using assms
proof (induction mem e b rule: advance_token.induct)
  case (1 mem e b)
  let ?c = "mem ! b"
  show ?case
  proof (cases "?c \<noteq> 32 \<and> \<not> is_path_ctl ?c \<and> b + 1 \<noteq> e")
    case False
    with "1.prems" show ?thesis
      by (auto simp: advance_token.simps [of mem e b] dest: path_ctl_not_printable)
  next
    case True
    with "1.prems" "1.IH" [of ?c]
    obtain r where r: "advance_token mem e (b + 1) = Some r"
      "\<And>p. r = Some p \<Longrightarrow> b + 1 \<le> p \<and> p < e \<and> mem ! p = 32 \<and>
        (\<forall>q. b + 1 \<le> q \<and> q < p \<longrightarrow> \<not> is_path_ctl (mem ! q) \<and> mem ! q \<noteq> 32)"
      by auto
    have "\<not> is_path_ctl (mem ! q) \<and> mem ! q \<noteq> 32" if "r = Some p" "b \<le> q" "q < p" for p q
      using r(2) [OF that(1)] True that by (cases "q = b") auto
    with r True "1.prems" show ?thesis by (fastforce simp: advance_token.simps [of mem e b])
  qed
qed

section \<open>The version\<close>

lemma match_bytes_safe:
  "b + length xs \<le> length mem \<Longrightarrow> match_bytes mem b xs = Some (take (length xs) (drop b mem) = xs)"
proof (induction xs arbitrary: b)
  case (Cons x xs)
  then have "drop b mem = mem ! b # drop (b + 1) mem"
    by (simp add: Cons_nth_drop_Suc)
  with Cons show ?case by auto
qed simp

lemma length_http_prefix [simp]: "length http_prefix = 7"
  by (simp add: http_prefix_def)

lemma parse_http_version_safe:
  assumes "e \<le> length mem"
  shows "\<exists>r. parse_http_version mem e b = Some r \<and> (\<forall>p v. r = Some (p, v) \<longrightarrow> p = b + 8 \<and> p < e \<and>
    take 7 (drop b mem) = http_prefix \<and> v = uint (mem ! (b + 7)) - 48 \<and> \<not> char_is_not_number (mem ! (b + 7)))"
  using assms match_bytes_safe [of b http_prefix mem]
  by (auto simp: parse_http_version_def)

interpretation spaces: safe_scanner skip_spaces "\<lambda>p. p" True True
  by unfold_locales (metis skip_spaces_safe within_simps(1) less_imp_le)

interpretation blanks: safe_scanner skip_blanks "\<lambda>p. p" False True
  by unfold_locales (metis skip_blanks_safe within_simps)

interpretation token: safe_scanner "\<lambda>mem e b. parse_token mem e b ch" fst True True for ch
proof unfold_locales
  fix e b :: nat and mem :: "u8 list"
  assume "e \<le> length mem" "within True b e"
  then obtain r where "parse_token mem e b ch = Some r" "\<And>p tok n. r = Some (p, tok, n) \<Longrightarrow> b \<le> p \<and> p < e"
    using parse_token_safe [of e mem b ch] by auto
  then show "\<exists>r. parse_token mem e b ch = Some r \<and>
      (\<forall>x. r = Some x \<longrightarrow> b \<le> fst x \<and> within True (fst x) e)"
    by auto
qed

interpretation path: safe_scanner advance_token "\<lambda>p. p" True True
  by unfold_locales (metis advance_token_safe within_simps(1))

interpretation version: safe_scanner parse_http_version fst False True
  by unfold_locales (metis parse_http_version_safe within_simps(1) prod.collapse le_add1)

section \<open>The rest of a line\<close>

text \<open>The unrolled loop finds what the loop over single characters finds.\<close>

lemma eol_doit_None: "eol_doit n mem b = None \<Longrightarrow> b + n \<le> e \<Longrightarrow> eol_chars mem e b = None"
proof (induction n arbitrary: b)
  case (Suc n)
  then show ?case
    using eol_ctl_not_printable
    by (cases "b < length mem") (auto simp: eol_chars.simps [of mem e b] split: if_splits)
qed simp

lemma eol_doit_Some:
  "eol_doit n mem b = Some (np, p) \<Longrightarrow> b + n \<le> e \<Longrightarrow> eol_chars mem e b = eol_chars mem e p \<and>
    (np \<longrightarrow> p < e \<and> p < length mem \<and> \<not> is_printable_ascii (mem ! p))"
proof (induction n arbitrary: b)
  case (Suc n)
  then have b: "b < length mem" "b \<noteq> e" by (auto simp: bind_eq_Some_conv rd_Some_iff)
  show ?case
  proof (cases "is_printable_ascii (mem ! b)")
    case True
    with Suc.prems Suc.IH [of "b + 1"] b show ?thesis by (simp add: eol_chars.simps [of mem e b])
  next
    case False
    with Suc b show ?thesis by auto
  qed
qed simp

lemma eol_blocks_chars:
  "(eol_blocks mem e b \<bind> (\<lambda>(ctl, p). if ctl then Some (Some p) else eol_chars mem e p)) = eol_chars mem e b"
proof (induction mem e b rule: eol_blocks.induct)
  case (1 mem e b)
  show ?case
  proof (cases "b + 8 \<le> e")
    case False
    then show ?thesis by (simp add: eol_blocks.simps)
  next
    case True
    show ?thesis
    proof (cases "eol_doit 8 mem b")
      case None
      with True show ?thesis using eol_doit_None [OF None True] by (simp add: eol_blocks.simps)
    next
      case (Some r)
      then obtain np p where r: "eol_doit 8 mem b = Some (np, p)" by (cases r) auto
      note same = eol_doit_Some [OF r True]
      show ?thesis
      proof (cases np)
        case False
        with True r same "1.IH"(2) [OF True r refl] show ?thesis by (simp add: eol_blocks.simps [of mem e b])
      next
        case np: True
        with same have p: "rd mem p = Some (mem ! p)" "\<not> is_printable_ascii (mem ! p)" "p \<noteq> e" by auto
        show ?thesis
          using True r np same p "1.IH"(1) [OF True r refl np p(1)]
          by (cases "is_eol_ctl (mem ! p)")
            (simp_all add: eol_blocks.simps [of mem e b] eol_chars.simps [of mem e p])
      qed
    qed
  qed
qed

definition line_token :: "u8 list \<Rightarrow> nat \<Rightarrow> nat \<Rightarrow> (nat \<times> nat \<times> u16) option option" where
  "line_token mem e b = do {
     r \<leftarrow> eol_chars mem e b;
     case r of None \<Rightarrow> Some None | Some p \<Rightarrow> found_ctl mem e b p }"

lemma get_token_to_eol_line: "get_token_to_eol mem e b = line_token mem e b"
  unfolding line_token_def eol_blocks_chars [of mem e b, symmetric] get_token_to_eol_def
  by (cases "eol_blocks mem e b") (auto split: prod.splits)

lemma eol_chars_safe:
  assumes "e \<le> length mem" "b \<le> e"
  shows "\<exists>r. eol_chars mem e b = Some r \<and> (\<forall>p. r = Some p \<longrightarrow> b \<le> p \<and> p < e \<and> is_eol_ctl (mem ! p) \<and>
    (\<forall>q. b \<le> q \<and> q < p \<longrightarrow> \<not> is_eol_ctl (mem ! q)))"
  using assms
proof (induction mem e b rule: eol_chars.induct)
  case (1 mem e b)
  let ?c = "mem ! b"
  show ?case
  proof (cases "b \<noteq> e \<and> \<not> is_eol_ctl ?c")
    case False
    with "1.prems" show ?thesis
      using eol_ctl_not_printable [of ?c] by (auto simp: eol_chars.simps [of mem e b])
  next
    case True
    with "1.prems" "1.IH" [of ?c]
    obtain r where r: "eol_chars mem e (b + 1) = Some r"
      "\<And>p. r = Some p \<Longrightarrow> b + 1 \<le> p \<and> p < e \<and> is_eol_ctl (mem ! p) \<and>
        (\<forall>q. b + 1 \<le> q \<and> q < p \<longrightarrow> \<not> is_eol_ctl (mem ! q))"
      by auto
    have "\<not> is_eol_ctl (mem ! q)" if "r = Some p" "b \<le> q" "q < p" for p q
      using r(2) [OF that(1)] True that by (cases "q = b") auto
    with r True "1.prems" show ?thesis by (fastforce simp: eol_chars.simps [of mem e b])
  qed
qed

text \<open>
  \<open>line_at mem e b k p\<close>: the line that starts at \<open>b\<close> has its first control character at \<open>k\<close>,
  which is a line feed or a carriage return with a line feed behind it, and \<open>p\<close> is where the
  next line starts.
\<close>

definition line_at :: "u8 list \<Rightarrow> nat \<Rightarrow> nat \<Rightarrow> nat \<Rightarrow> nat \<Rightarrow> bool" where
  "line_at mem e b k p \<longleftrightarrow> b \<le> k \<and> k < p \<and> p \<le> e \<and> (\<forall>q. b \<le> q \<and> q < k \<longrightarrow> \<not> is_eol_ctl (mem ! q)) \<and>
     (mem ! k = 10 \<and> p = k + 1 \<or> mem ! k = 13 \<and> mem ! (k + 1) = 10 \<and> p = k + 2)"

lemma line_at_bounds: "line_at mem e b k p \<Longrightarrow> b \<le> p \<and> p \<le> e"
  by (auto simp: line_at_def)

lemma get_token_to_eol_safe:
  assumes "e \<le> length mem" "b \<le> e"
  shows "\<exists>r. get_token_to_eol mem e b = Some r \<and> (\<forall>p tok n. r = Some (p, tok, n) \<longrightarrow>
    tok = b \<and> (\<exists>k. line_at mem e b k p \<and> n = word_of_nat (k - b)))"
proof -
  obtain r where r: "eol_chars mem e b = Some r"
    "\<And>k. r = Some k \<Longrightarrow> b \<le> k \<and> k < e \<and> is_eol_ctl (mem ! k) \<and> (\<forall>q. b \<le> q \<and> q < k \<longrightarrow> \<not> is_eol_ctl (mem ! q))"
    using eol_chars_safe [OF assms] by auto
  show ?thesis
  proof (cases r)
    case None
    with r(1) show ?thesis by (simp add: get_token_to_eol_line line_token_def)
  next
    case (Some k)
    note k = r(2) [OF Some]
    have tok: "get_token_to_eol mem e b = found_ctl mem e b k"
      by (simp add: get_token_to_eol_line line_token_def r(1) Some)
    show ?thesis
    proof (cases "mem ! k = 13")
      case False
      have "line_at mem e b k (k + 1)" if "mem ! k = 10" using k that by (auto simp: line_at_def)
      with False k assms show ?thesis by (auto simp: tok found_ctl_def simp del: of_nat_diff)
    next
      case True
      obtain x where x: "expect_char mem e (k + 1) 10 = Some x"
        "\<And>p. x = Some p \<Longrightarrow> p = k + 2 \<and> k + 1 < e \<and> mem ! (k + 1) = 10"
        using expect_char_safe [of e mem "k + 1" 10] k assms by auto
      have "line_at mem e b k p" if "x = Some p" for p
        using x(2) [OF that] k True by (auto simp: line_at_def)
      with x True k assms show ?thesis
        by (cases x) (auto simp: tok found_ctl_def simp del: of_nat_diff)
    qed
  qed
qed

interpretation line: safe_scanner get_token_to_eol fst False False
proof unfold_locales
  fix e b :: nat and mem :: "u8 list"
  assume "e \<le> length mem" "within False b e"
  then obtain r where "get_token_to_eol mem e b = Some r"
    "\<And>p tok n. r = Some (p, tok, n) \<Longrightarrow> b \<le> p \<and> p \<le> e"
    using get_token_to_eol_safe [of e mem b] line_at_bounds by (metis within_simps(2))
  then show "\<exists>r. get_token_to_eol mem e b = Some r \<and>
      (\<forall>x. r = Some x \<longrightarrow> b \<le> fst x \<and> within False (fst x) e)"
    by auto
qed

section \<open>The scanners find what is there\<close>

text \<open>
  \<open>run P mem b p\<close>: every byte from \<open>b\<close> up to, not including, \<open>p\<close> satisfies \<open>P\<close>. With it the
  result of each scanner is characterised completely.
\<close>

definition run :: "(u8 \<Rightarrow> bool) \<Rightarrow> u8 list \<Rightarrow> nat \<Rightarrow> nat \<Rightarrow> bool" where
  "run P mem b p \<longleftrightarrow> b \<le> p \<and> (\<forall>q. b \<le> q \<and> q < p \<longrightarrow> P (mem ! q))"

lemma run_le: "run P mem b p \<Longrightarrow> b \<le> p"
  by (simp add: run_def)

lemma skip_spaces_iff:
  assumes "e \<le> length mem" "b < e"
  shows "skip_spaces mem e b = Some (Some p) \<longleftrightarrow> p < e \<and> mem ! p \<noteq> 32 \<and> run (\<lambda>c. c = 32) mem (b + 1) p"
proof
  assume "skip_spaces mem e b = Some (Some p)"
  then show "p < e \<and> mem ! p \<noteq> 32 \<and> run (\<lambda>c. c = 32) mem (b + 1) p"
    using skip_spaces_safe [OF assms] by (auto simp: run_def)
next
  assume p: "p < e \<and> mem ! p \<noteq> 32 \<and> run (\<lambda>c. c = 32) mem (b + 1) p"
  then have "b \<le> p - 1" by (auto simp: run_def)
  then show "skip_spaces mem e b = Some (Some p)"
  proof (rule inc_induct)
    show "skip_spaces mem e (p - 1) = Some (Some p)"
      using p assms by (auto simp: skip_spaces.simps [of mem e "p - Suc 0"] run_def)
    fix n assume "b \<le> n" "n < p - 1" "skip_spaces mem e (Suc n) = Some (Some p)"
    moreover from this p have "Suc n < p" "mem ! Suc n = 32" "Suc n < e" by (auto simp: run_def)
    ultimately show "skip_spaces mem e n = Some (Some p)"
      using assms by (simp add: skip_spaces.simps [of mem e n])
  qed
qed

lemma skip_blanks_iff:
  assumes "e \<le> length mem" "b \<le> e"
  shows "skip_blanks mem e b = Some (Some p) \<longleftrightarrow> p < e \<and> \<not> is_blank (mem ! p) \<and> run is_blank mem b p"
proof
  assume "skip_blanks mem e b = Some (Some p)"
  then show "p < e \<and> \<not> is_blank (mem ! p) \<and> run is_blank mem b p"
    using skip_blanks_safe [OF assms] by (auto simp: run_def)
next
  assume p: "p < e \<and> \<not> is_blank (mem ! p) \<and> run is_blank mem b p"
  then have "b \<le> p" by (simp add: run_def)
  then show "skip_blanks mem e b = Some (Some p)"
  proof (rule inc_induct)
    show "skip_blanks mem e p = Some (Some p)" using p assms by (simp add: skip_blanks.simps)
    fix n assume "b \<le> n" "n < p" "skip_blanks mem e (Suc n) = Some (Some p)"
    then show "skip_blanks mem e n = Some (Some p)"
      using p assms by (simp add: skip_blanks.simps [of mem e n] run_def)
  qed
qed

lemma parse_token_iff:
  assumes "e \<le> length mem" "b < e"
  shows "parse_token mem e b ch = Some (Some (p, tok, n)) \<longleftrightarrow> p < e \<and> mem ! p = ch \<and>
    run (\<lambda>c. is_token_char c \<and> c \<noteq> ch) mem b p \<and> tok = b \<and> n = word_of_nat (p - b)"
proof
  assume "parse_token mem e b ch = Some (Some (p, tok, n))"
  then show "p < e \<and> mem ! p = ch \<and> run (\<lambda>c. is_token_char c \<and> c \<noteq> ch) mem b p \<and> tok = b \<and>
      n = word_of_nat (p - b)"
    using parse_token_safe [OF assms, of ch] by (auto simp: run_def simp del: of_nat_diff)
next
  assume p: "p < e \<and> mem ! p = ch \<and> run (\<lambda>c. is_token_char c \<and> c \<noteq> ch) mem b p \<and> tok = b \<and>
    n = word_of_nat (p - b)"
  then have "b \<le> p" by (simp add: run_def)
  then have "token_chars mem e ch b = Some (Some p)"
  proof (rule inc_induct)
    show "token_chars mem e ch p = Some (Some p)" using p assms by (simp add: token_chars.simps)
    fix n assume "b \<le> n" "n < p" "token_chars mem e ch (Suc n) = Some (Some p)"
    then show "token_chars mem e ch n = Some (Some p)"
      using p assms by (simp add: token_chars.simps [of mem e ch n] run_def)
  qed
  with p show "parse_token mem e b ch = Some (Some (p, tok, n))"
    by (simp add: parse_token_def)
qed

lemma advance_token_iff:
  assumes "e \<le> length mem" "b < e"
  shows "advance_token mem e b = Some (Some p) \<longleftrightarrow> p < e \<and> mem ! p = 32 \<and>
    run (\<lambda>c. \<not> is_path_ctl c \<and> c \<noteq> 32) mem b p"
proof
  assume "advance_token mem e b = Some (Some p)"
  then show "p < e \<and> mem ! p = 32 \<and> run (\<lambda>c. \<not> is_path_ctl c \<and> c \<noteq> 32) mem b p"
    using advance_token_safe [OF assms] by (auto simp: run_def)
next
  assume p: "p < e \<and> mem ! p = 32 \<and> run (\<lambda>c. \<not> is_path_ctl c \<and> c \<noteq> 32) mem b p"
  then have "b \<le> p" by (simp add: run_def)
  then show "advance_token mem e b = Some (Some p)"
  proof (rule inc_induct)
    show "advance_token mem e p = Some (Some p)" using p assms by (simp add: advance_token.simps)
    fix n assume "b \<le> n" "n < p" "advance_token mem e (Suc n) = Some (Some p)"
    then show "advance_token mem e n = Some (Some p)"
      using p assms by (simp add: advance_token.simps [of mem e n] run_def)
  qed
qed

lemma parse_http_version_iff:
  assumes "e \<le> length mem"
  shows "parse_http_version mem e b = Some (Some (p, v)) \<longleftrightarrow> b + 9 \<le> e \<and> p = b + 8 \<and>
    take 7 (drop b mem) = http_prefix \<and> \<not> char_is_not_number (mem ! (b + 7)) \<and> v = uint (mem ! (b + 7)) - 48"
proof (cases "b + 9 \<le> e")
  case True
  then have "match_bytes mem b http_prefix = Some (take 7 (drop b mem) = http_prefix)"
    using match_bytes_safe [of b http_prefix mem] assms by simp
  with True assms show ?thesis by (auto simp: parse_http_version_def)
qed (simp add: parse_http_version_def)

lemma get_token_to_eol_iff:
  assumes "e \<le> length mem" "b \<le> e"
  shows "get_token_to_eol mem e b = Some (Some (p, tok, n)) \<longleftrightarrow>
    tok = b \<and> (\<exists>k. line_at mem e b k p \<and> n = word_of_nat (k - b))"
proof
  assume "get_token_to_eol mem e b = Some (Some (p, tok, n))"
  then show "tok = b \<and> (\<exists>k. line_at mem e b k p \<and> n = word_of_nat (k - b))"
    using get_token_to_eol_safe [OF assms] by auto
next
  assume "tok = b \<and> (\<exists>k. line_at mem e b k p \<and> n = word_of_nat (k - b))"
  then obtain k where tok: "tok = b" "n = word_of_nat (k - b)" and k: "line_at mem e b k p" by auto
  then have bnd: "b \<le> k" "k < p" "p \<le> e" "is_eol_ctl (mem ! k)"
    by (auto simp: line_at_def is_eol_ctl_def)
  from bnd(1) have "eol_chars mem e b = Some (Some k)"
  proof (rule inc_induct)
    show "eol_chars mem e k = Some (Some k)"
      using bnd assms eol_ctl_not_printable [of "mem ! k"] by (simp add: eol_chars.simps)
    fix j assume "b \<le> j" "j < k" "eol_chars mem e (Suc j) = Some (Some k)"
    then show "eol_chars mem e j = Some (Some k)"
      using k bnd assms by (simp add: eol_chars.simps [of mem e j] line_at_def)
  qed
  then have "get_token_to_eol mem e b = found_ctl mem e b k"
    by (simp add: get_token_to_eol_line line_token_def)
  with k tok bnd assms show "get_token_to_eol mem e b = Some (Some (p, tok, n))"
    by (auto simp: found_ctl_def expect_char_def line_at_def simp del: of_nat_diff)
qed

text \<open>Trimming the blanks at the end of a value.\<close>

definition trimmed :: "u8 list \<Rightarrow> nat \<Rightarrow> nat \<Rightarrow> nat \<Rightarrow> bool" where
  "trimmed mem v e w \<longleftrightarrow> v \<le> w \<and> run is_blank mem w e \<and> (w = v \<or> \<not> is_blank (mem ! (w - 1)))"

lemma trimmed_unique: "trimmed mem v e w \<Longrightarrow> trimmed mem v e w' \<Longrightarrow> w = w'"
proof (induction w w' rule: linorder_wlog)
  case (le w w')
  show ?case
  proof (rule ccontr)
    assume "w \<noteq> w'"
    with le have "w \<le> w' - 1" "w' - 1 < e" "\<not> is_blank (mem ! (w' - 1))"
      by (auto simp: trimmed_def run_def)
    with le show False by (auto simp: trimmed_def run_def)
  qed
qed (simp add: eq_commute)

lemma trim_end_safe:
  assumes "v \<le> e" "e \<le> length mem"
  shows "\<exists>w. trim_end mem v e = Some w \<and> trimmed mem v e w"
  using assms
proof (induction rule: dec_induct)
  case base
  show ?case by (auto simp: trim_end.simps trimmed_def run_def)
next
  case (step n)
  show ?case
  proof (cases "is_blank (mem ! n)")
    case True
    with step obtain w where w: "trim_end mem v n = Some w" "trimmed mem v n w" by auto
    have "is_blank (mem ! q)" if "w \<le> q" "q < Suc n" for q
      using w(2) True that by (cases "q = n") (auto simp: trimmed_def run_def)
    then have "trimmed mem v (Suc n) w" using w(2) by (auto simp: trimmed_def run_def)
    with w(1) True step show ?thesis by (simp add: trim_end.simps [of mem v "Suc n"])
  next
    case False
    with step show ?thesis
      by (auto simp: trim_end.simps [of mem v "Suc n"] trimmed_def run_def)
  qed
qed

lemma trim_end_iff:
  assumes "v \<le> e" "e \<le> length mem"
  shows "trim_end mem v e = Some w \<longleftrightarrow> trimmed mem v e w"
  using trim_end_safe [OF assms] trimmed_unique by auto

section \<open>Properties\<close>

text \<open>\<open>tchar\<close> of RFC 7230, section 3.2.6: digits, letters and fifteen other characters.\<close>

definition tchars :: "u8 set" where
  "tchars = {48..57} \<union> {65..90} \<union> {97..122} \<union> {33, 35, 36, 37, 38, 39, 42, 43, 45, 46, 94, 95, 96, 124, 126}"

text \<open>
  The table \<open>token_char_map\<close> marks exactly the characters that RFC 7230 allows in a token,
  for all 256 bytes.
\<close>

theorem token_map_is_tchar: "is_token_char c \<longleftrightarrow> c \<in> tchars"
proof -
  have "is_token_char c \<longleftrightarrow> 48 \<le> c \<and> c \<le> 57 \<or> 65 \<le> c \<and> c \<le> 90 \<or> 97 \<le> c \<and> c \<le> 122 \<or>
      c \<in> set [33, 35, 36, 37, 38, 39, 42, 43, 45, 46, 94, 95, 96, 124, 126]"
    by (rule all_bytes [where P = "\<lambda>c. is_token_char c \<longleftrightarrow>
        48 \<le> c \<and> c \<le> 57 \<or> 65 \<le> c \<and> c \<le> 90 \<or> 97 \<le> c \<and> c \<le> 122 \<or>
        c \<in> set [33, 35, 36, 37, 38, 39, 42, 43, 45, 46, 94, 95, 96, 124, 126]"]) code_simp
  then show ?thesis unfolding tchars_def atLeastAtMost_iff Un_iff set_simps by blast
qed

text \<open>
  C13: the loop of \<open>get_token_to_eol\<close> that is unrolled over blocks of eight characters gives, on
  every object, buffer end and start, what the plain loop over single characters gives, in the
  undefined cases too.
\<close>

theorem eol_unrolling_correct:
  "get_token_to_eol mem buf_end buf = do {
     r \<leftarrow> eol_chars mem buf_end buf;
     case r of None \<Rightarrow> Some None | Some p \<Rightarrow> found_ctl mem buf_end buf p }"
  by (simp add: get_token_to_eol_line line_token_def)

text \<open>
  \<open>get_token_to_eol\<close> returns the text of a line exactly when a line without control
  characters (tab excepted) starts at \<open>buf\<close> and ends with LF or CR LF inside the buffer: the
  token is that text, without the line end, and the new pointer is the next line.
\<close>

theorem get_token_to_eol_exact:
  assumes "buf_end \<le> length mem" "buf \<le> buf_end"
  shows "get_token_to_eol mem buf_end buf = Some (Some (p, tok, n)) \<longleftrightarrow>
    tok = buf \<and> (\<exists>k. line_at mem buf_end buf k p \<and> n = word_of_nat (k - buf))"
  using assms by (rule get_token_to_eol_iff)

theorem get_token_to_eol_witness:
  "get_token_to_eol [65, 9, 66, 13, 10, 67] 6 0 = Some (Some (5, 0, 3)) \<and> line_at [65, 9, 66, 13, 10, 67] 6 0 3 5"
proof -
  have "get_token_to_eol [65, 9, 66, 13, 10, 67] 6 0 = Some (Some (5, 0, 3))" by code_simp
  then obtain k where k: "line_at [65, 9, 66, 13, 10, 67 :: u8] 6 0 k 5"
    using get_token_to_eol_exact [of 6 "[65, 9, 66, 13, 10, 67]" 0 5 0 3] by auto
  then have "k = 4 \<or> k = 3" by (auto simp: line_at_def)
  with k have "line_at [65, 9, 66, 13, 10, 67 :: u8] 6 0 3 5" by (auto simp: line_at_def)
  with \<open>get_token_to_eol _ _ _ = _\<close> show ?thesis by blast
qed

text \<open>
  The comment at \<open>parse_token\<close> and \<open>parse_http_version\<close>: started inside the buffer both
  return, without a read outside the object, either null or a pointer in \<open>[buf, buf_end)\<close>.
\<close>

theorem returned_pointer_within:
  assumes "buf_end \<le> length mem" "buf < buf_end"
  shows "(\<exists>r. parse_token mem buf_end buf ch = Some r \<and>
      (case r of None \<Rightarrow> True | Some (p, tok, n) \<Rightarrow> buf \<le> p \<and> p < buf_end)) \<and>
    (\<exists>r. parse_http_version mem buf_end buf = Some r \<and>
      (case r of None \<Rightarrow> True | Some (p, v) \<Rightarrow> buf \<le> p \<and> p < buf_end))"
  using parse_token_safe [OF assms, of ch] parse_http_version_safe [OF assms(1), of buf]
  by (auto split: option.splits)

theorem returned_pointer_witness:
  "\<exists>r. parse_token [71, 69, 84, 32] 4 0 32 = Some r \<and>
      (case r of None \<Rightarrow> True | Some (p, tok, n) \<Rightarrow> 0 \<le> p \<and> p < 4)"
  using returned_pointer_within [of 4 "[71, 69, 84, 32]" 0 32] by simp

end
