(* ===== verification/Http_Parse.thy ===== *)
theory Http_Parse
  imports Http_Scan
begin

text \<open>
  The parsers of \<open>http_peek.c\<close> on top of the scanners: they never leave the buffer (with one
  exception, which is characterised), and a request is accepted exactly when the buffer starts
  with a request line and one header line, whose parts are then where the structure says.
\<close>

section \<open>The header line stays in the buffer\<close>

lemma len_of_nat: "n \<le> 65535 \<Longrightarrow> unat (word_of_nat n :: u16) = n"
  by (simp add: unat_of_nat take_bit_nat_eq_self)

lemma get_token_len:
  assumes "e \<le> length mem" "b \<le> e" "e \<le> 65535" "get_token_to_eol mem e b = Some (Some (p, tok, n))"
  shows "tok = b \<and> tok + unat n < p \<and> p \<le> e"
proof -
  obtain k where k: "tok = b" "line_at mem e b k p" "n = word_of_nat (k - b)"
    using assms by (auto simp: get_token_to_eol_iff)
  then have "unat n = k - b" using assms(3) by (auto simp: line_at_def len_of_nat simp del: of_nat_diff)
  with k show ?thesis by (auto simp: line_at_def)
qed

lemma header_value_safe:
  assumes "e \<le> length mem" "b \<le> e" "e \<le> 65535"
  shows "header_value mem e b h \<noteq> None"
  unfolding header_value_def
proof (rule line.scan_chain, goal_cases)
  case (3 x)
  obtain p tok n where x: "x = (p, tok, n)" by (cases x) auto
  with get_token_len [OF assms] 3 have "tok + unat n \<le> e" by fastforce
  then obtain w where "trim_end mem tok (tok + unat n) = Some w"
    using trim_end_safe [of tok "tok + unat n" mem] assms by auto
  with x show ?case by (simp add: Let_def)
qed (use assms in simp_all)

lemma parse_header_safe:
  assumes "e \<le> length mem" "b \<le> e" "e \<le> 65535"
  shows "parse_header mem e b h \<noteq> None"
proof -
  have name: "(parse_token mem e b 58 \<bind> (\<lambda>r. case r of None \<Rightarrow> Some (False, h)
      | Some x \<Rightarrow> (case x of (p, tok, len) \<Rightarrow>
          let h = h\<lparr>ph_name := Some tok, ph_name_len := len\<rparr> in
          if len = 0 then Some (False, h)
          else skip_blanks mem e (p + 1) \<bind> (\<lambda>r. case r of None \<Rightarrow> Some (False, h)
            | Some q \<Rightarrow> header_value mem e q h)))) \<noteq> None" if "b < e"
  proof (rule token.scan_chain, goal_cases)
    case (3 x)
    have "(skip_blanks mem e (fst x + 1) \<bind> (\<lambda>r. case r of None \<Rightarrow> Some (False, h')
        | Some q \<Rightarrow> header_value mem e q h')) \<noteq> None" for h'
      using assms 3 by (intro blanks.scan_chain) (simp_all add: header_value_safe [OF assms(1) _ assms(3)] del: not_None_eq)
    then show ?case by (auto simp: Let_def split: prod.splits)
  qed (use assms that in simp_all)
  show ?thesis
  proof (cases "b < e")
    case True
    then show ?thesis
      using name expect_char_safe [of e mem "b + 1" 10] header_value_safe [of e mem b] assms
      by (auto simp: parse_header_def)
  next
    case False
    with assms show ?thesis by (simp add: parse_header_def)
  qed
qed

section \<open>Memory safety of the two parsers\<close>

lemma request_version_safe:
  assumes "e \<le> length mem" "e \<le> 65535"
  shows "request_version mem e b h \<noteq> None"
proof -
  have "(parse_http_version mem e b \<bind> (\<lambda>r. case r of None \<Rightarrow> Some (False, h)
      | Some x \<Rightarrow> (case x of (p, v) \<Rightarrow> let h = h\<lparr>ph_version := v\<rparr> in
          line_end mem e p \<bind> (\<lambda>r. case r of None \<Rightarrow> Some (False, h)
            | Some q \<Rightarrow> parse_header mem e q h)))) \<noteq> None" if "b \<le> e"
  proof (rule version.scan_chain, goal_cases)
    case (3 x)
    have "(line_end mem e (fst x) \<bind> (\<lambda>r. case r of None \<Rightarrow> Some (False, h')
        | Some q \<Rightarrow> parse_header mem e q h')) \<noteq> None" for h'
      using assms 3 by (intro line_end.scan_chain) (simp_all add: parse_header_safe [OF assms(1) _ assms(2)] del: not_None_eq)
    then show ?case by (auto simp: Let_def split: prod.splits)
  qed (use assms that in simp_all)
  moreover have "parse_http_version mem e b = Some None" if "\<not> b \<le> e"
    using that by (simp add: parse_http_version_def)
  ultimately show ?thesis by (cases "b \<le> e") (auto simp: request_version_def)
qed

lemma request_path_safe:
  assumes "e \<le> length mem" "e \<le> 65535" "b < e"
  shows "request_path mem e b h \<noteq> None"
proof -
  have second: "(skip_spaces mem e p \<bind> (\<lambda>r. case r of None \<Rightarrow> Some (False, h')
      | Some q \<Rightarrow> request_version mem e q h')) \<noteq> None" if "p < e" for p h'
    using assms that by (intro spaces.scan_chain) (simp_all add: request_version_safe del: not_None_eq)
  have first: "(advance_token mem e t \<bind> (\<lambda>r. case r of None \<Rightarrow> Some (False, h) | Some p \<Rightarrow>
      let h = h\<lparr>ph_path := Some t, ph_path_len := word_of_nat (p - t)\<rparr> in
        skip_spaces mem e p \<bind> (\<lambda>r. case r of None \<Rightarrow> Some (False, h)
          | Some q \<Rightarrow> request_version mem e q h))) \<noteq> None" if "t < e" for t
    using assms that by (intro path.scan_chain) (simp_all add: second Let_def del: not_None_eq of_nat_diff)
  show ?thesis
    unfolding request_path_def
    using assms by (intro spaces.scan_chain) (simp_all add: first del: not_None_eq of_nat_diff)
qed

lemma request_token_safe:
  assumes "e \<le> length mem" "e \<le> 65535" "b < e"
  shows "(parse_token mem e b 32 \<bind> (\<lambda>r. case r of None \<Rightarrow> Some (False, h) | Some x \<Rightarrow>
      (case x of (p, tok, n) \<Rightarrow> request_path mem e p (h\<lparr>ph_method := Some tok, ph_method_len := n\<rparr>)))) \<noteq> None"
  using assms
  by (intro token.scan_chain) (simp_all add: request_path_safe case_prod_beta del: not_None_eq)

lemma unat_len_u16: "unat len = length mem \<Longrightarrow> length mem \<le> 65535" for len :: u16
  using unsigned_less [of len, where 'a = nat] by simp

text \<open>Where the token scanner is entered at the end of the buffer.\<close>

lemma skip_empty_line_at_end:
  "skip_empty_line mem (length mem) 0 = Some (Some (length mem)) \<longleftrightarrow> mem = [10] \<or> mem = [13, 10]"
proof (cases mem)
  case (Cons c cs)
  then show ?thesis by (cases cs) (auto simp: skip_empty_line_def expect_char_def)
qed (simp add: skip_empty_line_def)

lemma peek_request_None_iff:
  assumes "unat len = length mem"
  shows "peek_http_request mem len h = None \<longleftrightarrow> mem = [10] \<or> mem = [13, 10]"
proof -
  note e = order_refl [of "length mem"] unat_len_u16 [OF assms]
  obtain r where r: "skip_empty_line mem (length mem) 0 = Some r"
    "\<And>p. r = Some p \<Longrightarrow> p \<le> length mem"
    using skip_empty_line_safe [OF e(1), of 0] by auto
  show ?thesis
  proof (cases r)
    case None
    with r(1) show ?thesis
      using skip_empty_line_at_end [of mem] by (simp add: peek_http_request_def assms Let_def)
  next
    case (Some b)
    show ?thesis
    proof (cases "b = length mem")
      case True
      then have "parse_token mem (length mem) b 32 = None"
        by (simp add: parse_token_def token_chars.simps)
      with r(1) Some True skip_empty_line_at_end [of mem] show ?thesis
        by (simp add: peek_http_request_def assms Let_def)
    next
      case False
      with r Some have b: "b < length mem" by fastforce
      have "\<not> (mem = [10] \<or> mem = [13, 10])"
        using skip_empty_line_at_end [of mem] r(1) Some False by simp
      then show ?thesis
        using request_token_safe [OF e b, of h] r(1) Some by (simp add: peek_http_request_def assms Let_def)
    qed
  qed
qed

text \<open>A response, when the caller has cleared \<open>msg_len\<close>.\<close>

lemma status_code_safe:
  assumes "e \<le> length mem"
  shows "\<exists>r. status_code mem e b = Some r \<and> (\<forall>c. r = Some c \<longrightarrow> b + 4 \<le> e)"
  using assms by (auto simp: status_code_def)

lemma response_message_safe:
  assumes "e \<le> length mem" "e \<le> 65535" "b \<le> e" "ph_msg_len h = 0"
  shows "response_message mem e b h \<noteq> None"
  unfolding response_message_def using assms
  by (intro line.scan_chain)
    (simp_all add: parse_header_safe Let_def case_prod_beta del: not_None_eq of_nat_diff)

lemma response_code_safe:
  assumes "e \<le> length mem" "e \<le> 65535" "ph_msg_len h = 0"
  shows "(status_code mem e q \<bind> (\<lambda>r. case r of None \<Rightarrow> Some (False, h)
      | Some code \<Rightarrow> response_message mem e (q + 3) (h\<lparr>ph_res_code := code\<rparr>))) \<noteq> None"
proof -
  obtain r where r: "status_code mem e q = Some r" "\<And>c. r = Some c \<Longrightarrow> q + 4 \<le> e"
    using status_code_safe [OF assms(1), of q] by auto
  show ?thesis
  proof (cases r)
    case (Some c)
    then have "response_message mem e (q + 3) (h\<lparr>ph_res_code := c\<rparr>) \<noteq> None"
      using assms r(2) [OF Some] by (intro response_message_safe) simp_all
    then show ?thesis by (simp add: r(1) Some del: not_None_eq)
  qed (simp add: r(1))
qed

lemma peek_response_safe:
  assumes "unat len = length mem" "ph_msg_len h = 0"
  shows "peek_http_response mem len h \<noteq> None"
proof -
  note e = order_refl [of "length mem"] unat_len_u16 [OF assms(1)]
  have skip: "(skip_spaces mem (length mem) p \<bind> (\<lambda>r. case r of None \<Rightarrow> Some (False, h') | Some q \<Rightarrow>
      status_code mem (length mem) q \<bind> (\<lambda>r. case r of None \<Rightarrow> Some (False, h')
      | Some code \<Rightarrow> response_message mem (length mem) (q + 3) (h'\<lparr>ph_res_code := code\<rparr>)))) \<noteq> None"
    if "p < length mem" "ph_msg_len h' = 0" for p h'
    using that e by (intro spaces.scan_chain) (simp_all add: response_code_safe del: not_None_eq)
  show ?thesis
    unfolding peek_http_response_def Let_def assms(1)
    using e assms(2) by (intro version.scan_chain)
      (simp_all add: skip case_prod_beta del: not_None_eq)
qed

section \<open>What a request line is\<close>

text \<open>
  The specification of the two parsers, by positions: the header line at \<open>b\<close>, and the request
  line at the start of the buffer with the header line behind it. \<open>h'\<close> is the structure that
  describes them.
\<close>

definition value_at :: "u8 list \<Rightarrow> nat \<Rightarrow> nat \<Rightarrow> peek_header \<Rightarrow> peek_header \<Rightarrow> bool" where
  "value_at mem e v h h' \<longleftrightarrow> (\<exists>k p w. line_at mem e v k p \<and> trimmed mem v k w \<and>
     h' = h\<lparr>ph_value := Some v, ph_value_len := word_of_nat (w - v)\<rparr>)"

definition named_at :: "u8 list \<Rightarrow> nat \<Rightarrow> nat \<Rightarrow> nat \<Rightarrow> nat \<Rightarrow> bool" where
  "named_at mem e b c v \<longleftrightarrow> b < c \<and> run is_token_char mem b c \<and> c < e \<and> mem ! c = 58 \<and>
     run is_blank mem (c + 1) v \<and> v < e \<and> \<not> is_blank (mem ! v)"

definition header_at :: "u8 list \<Rightarrow> nat \<Rightarrow> nat \<Rightarrow> peek_header \<Rightarrow> peek_header \<Rightarrow> bool" where
  "header_at mem e b h h' \<longleftrightarrow> b < e \<and>
     (if is_blank (mem ! b) then value_at mem e b (h\<lparr>ph_name := None, ph_name_len := 0\<rparr>) h'
      else \<exists>c v. named_at mem e b c v \<and>
        value_at mem e v (h\<lparr>ph_name := Some b, ph_name_len := word_of_nat (c - b)\<rparr>) h')"

definition line_end_at :: "u8 list \<Rightarrow> nat \<Rightarrow> nat \<Rightarrow> nat \<Rightarrow> bool" where
  "line_end_at mem e b p \<longleftrightarrow>
     b < e \<and> mem ! b = 10 \<and> p = b + 1 \<or> b + 1 < e \<and> mem ! b = 13 \<and> mem ! (b + 1) = 10 \<and> p = b + 2"

definition version_at :: "u8 list \<Rightarrow> nat \<Rightarrow> nat \<Rightarrow> int \<Rightarrow> bool" where
  "version_at mem e b v \<longleftrightarrow> b + 9 \<le> e \<and> take 7 (drop b mem) = http_prefix \<and>
     \<not> char_is_not_number (mem ! (b + 7)) \<and> v = uint (mem ! (b + 7)) - 48"

definition gap_at :: "u8 list \<Rightarrow> nat \<Rightarrow> nat \<Rightarrow> nat \<Rightarrow> bool" where
  "gap_at mem e b p \<longleftrightarrow> mem ! b = 32 \<and> b < p \<and> p < e \<and> run (\<lambda>c. c = 32) mem b p \<and> mem ! p \<noteq> 32"

definition version_line_at :: "u8 list \<Rightarrow> nat \<Rightarrow> nat \<Rightarrow> peek_header \<Rightarrow> peek_header \<Rightarrow> bool" where
  "version_line_at mem e r h h' \<longleftrightarrow>
     (\<exists>v u. version_at mem e r v \<and> line_end_at mem e (r + 8) u \<and> header_at mem e u (h\<lparr>ph_version := v\<rparr>) h')"

definition path_line_at :: "u8 list \<Rightarrow> nat \<Rightarrow> nat \<Rightarrow> peek_header \<Rightarrow> peek_header \<Rightarrow> bool" where
  "path_line_at mem e m h h' \<longleftrightarrow> (\<exists>t q r. gap_at mem e m t \<and>
     t < q \<and> q < e \<and> mem ! q = 32 \<and> run (\<lambda>c. \<not> is_path_ctl c \<and> c \<noteq> 32) mem t q \<and> gap_at mem e q r \<and>
     version_line_at mem e r (h\<lparr>ph_path := Some t, ph_path_len := word_of_nat (q - t)\<rparr>) h')"

definition request_at :: "u8 list \<Rightarrow> nat \<Rightarrow> peek_header \<Rightarrow> peek_header \<Rightarrow> bool" where
  "request_at mem e h h' \<longleftrightarrow> (\<exists>s m. (line_end_at mem e 0 s \<or> s = 0) \<and>
     s < m \<and> m < e \<and> mem ! m = 32 \<and> run is_token_char mem s m \<and>
     path_line_at mem e m (h\<lparr>ph_method := Some s, ph_method_len := word_of_nat (m - s)\<rparr>) h')"

section \<open>The parsers accept exactly that\<close>

lemma chain_accepts:
  "(f \<bind> (\<lambda>r. case r of None \<Rightarrow> Some (False, h) | Some x \<Rightarrow> k x)) = Some (True, h') \<longleftrightarrow>
     (\<exists>x. f = Some (Some x) \<and> k x = Some (True, h'))"
  by (cases f) (auto split: option.splits)

lemma line_at_end: "line_at mem e b k p \<Longrightarrow> b \<le> k \<and> k < e"
  by (auto simp: line_at_def)

lemma header_value_iff:
  assumes "e \<le> length mem" "e \<le> 65535" "b \<le> e"
  shows "header_value mem e b h = Some (True, h') \<longleftrightarrow> value_at mem e b h h'"
proof -
  have "header_value mem e b h = Some (True, h') \<longleftrightarrow> (\<exists>k p w. line_at mem e b k p \<and>
      trim_end mem b (b + unat (word_of_nat (k - b) :: u16)) = Some w \<and>
      h' = h\<lparr>ph_value := Some b, ph_value_len := word_of_nat (w - b)\<rparr>)"
    unfolding header_value_def chain_accepts
    by (auto simp: get_token_to_eol_iff [OF assms(1,3)] Let_def bind_eq_Some_conv simp del: of_nat_diff; blast)
  moreover have "trim_end mem b (b + unat (word_of_nat (k - b) :: u16)) = Some w \<longleftrightarrow> trimmed mem b k w"
    if "line_at mem e b k p" for k p w
  proof -
    have k: "b \<le> k" "k < e" using line_at_end [OF that] by simp_all
    then have "unat (word_of_nat (k - b) :: u16) = k - b"
      using assms(2) by (intro len_of_nat) linarith
    then show ?thesis using trim_end_iff [of b k mem w] assms(1) k by simp
  qed
  ultimately show ?thesis by (simp add: value_at_def cong: conj_cong)
qed

lemma word_of_nat_eq_0: "n \<le> 65535 \<Longrightarrow> (word_of_nat n :: u16) = 0 \<longleftrightarrow> n = 0"
  using len_of_nat [of n] unat_eq_zero [of "word_of_nat n :: u16"] by simp

lemma tokens_not_special:
  "\<not> is_token_char 58" "\<not> is_token_char 32" "\<not> is_token_char 10" "\<not> is_token_char 13"
  "\<not> is_token_char 9" "\<not> is_blank 10" "\<not> is_blank 13"
  by code_simp+

lemma token_run: "\<not> is_token_char ch \<Longrightarrow> (\<lambda>c. is_token_char c \<and> c \<noteq> ch) = is_token_char"
  by (rule ext) auto

lemma parse_header_iff:
  assumes "e \<le> length mem" "e \<le> 65535" "b \<le> e"
  shows "parse_header mem e b h = Some (True, h') \<longleftrightarrow> header_at mem e b h h'"
proof (cases "b < e")
  case False
  with assms(3) show ?thesis by (simp add: parse_header_def header_at_def)
next
  case b: True
  note val = header_value_iff [OF assms(1,2)]
  consider "mem ! b = 13 \<or> mem ! b = 10" | "is_blank (mem ! b)"
    | "\<not> is_blank (mem ! b)" "mem ! b \<noteq> 13" "mem ! b \<noteq> 10" by blast
  then show ?thesis
  proof cases
    case 1
    then have "\<not> is_blank (mem ! b)" "\<not> is_token_char (mem ! b)"
      using tokens_not_special by metis+
    then have "\<not> header_at mem e b h h'" by (auto simp: header_at_def named_at_def run_def)
    moreover have "parse_header mem e b h \<noteq> Some (True, h')"
      using 1 b assms expect_char_safe [of e mem "b + 1" 10] by (auto simp: parse_header_def)
    ultimately show ?thesis by simp
  next
    case 2
    then have "mem ! b \<noteq> 13" "mem ! b \<noteq> 10" by (auto simp: is_blank_def)
    then show ?thesis using 2 b assms by (simp add: parse_header_def val header_at_def)
  next
    case 3
    let ?h = "\<lambda>c. h\<lparr>ph_name := Some b, ph_name_len := word_of_nat (c - b)\<rparr>"
    let ?rest = "\<lambda>c. b < c \<and> c < e \<and> mem ! c = 58 \<and> run is_token_char mem b c"
    have "parse_header mem e b h = Some (True, h') \<longleftrightarrow> (\<exists>c. c < e \<and> mem ! c = 58 \<and> run is_token_char mem b c \<and>
        (word_of_nat (c - b) :: u16) \<noteq> 0 \<and> (\<exists>v. skip_blanks mem e (c + 1) = Some (Some v) \<and>
        header_value mem e v (?h c) = Some (True, h')))"
      using 3 b assms
      by (simp add: parse_header_def chain_accepts parse_token_iff Let_def token_run tokens_not_special
        cong: conj_cong del: of_nat_diff) blast
    also have "\<dots> \<longleftrightarrow> (\<exists>c. ?rest c \<and> (\<exists>v. skip_blanks mem e (c + 1) = Some (Some v) \<and>
        header_value mem e v (?h c) = Some (True, h')))"
    proof -
      have "(word_of_nat (c - b) :: u16) = 0 \<longleftrightarrow> \<not> b < c" if "c < e" "run is_token_char mem b c" for c
        using word_of_nat_eq_0 [of "c - b"] that assms(2) run_le [OF that(2)] by linarith
      then show ?thesis by blast
    qed
    also have "\<dots> \<longleftrightarrow> (\<exists>c v. named_at mem e b c v \<and> value_at mem e v (?h c) h')"
    proof -
      have "skip_blanks mem e (c + 1) = Some (Some v) \<longleftrightarrow> run is_blank mem (c + 1) v \<and> v < e \<and> \<not> is_blank (mem ! v)"
        if "c < e" for c v using skip_blanks_iff [of e mem "c + 1" v] assms(1) that by auto
      moreover have "header_value mem e v (?h c) = Some (True, h') \<longleftrightarrow> value_at mem e v (?h c) h'"
        if "v < e" for c v using val [of v] that by simp
      ultimately show ?thesis unfolding named_at_def by blast
    qed
    also have "\<dots> \<longleftrightarrow> header_at mem e b h h'"
      using 3 b unfolding header_at_def by simp
    finally show ?thesis .
  qed
qed

lemma version_iff:
  assumes "e \<le> length mem"
  shows "parse_http_version mem e b = Some (Some (p, v)) \<longleftrightarrow> p = b + 8 \<and> version_at mem e b v"
  unfolding parse_http_version_iff [OF assms] version_at_def by blast

lemma line_end_iff:
  assumes "e \<le> length mem" "b < e"
  shows "line_end mem e b = Some (Some p) \<longleftrightarrow> line_end_at mem e b p"
  using assms by (auto simp: line_end_def line_end_at_def expect_char_def)

lemma skip_empty_line_iff:
  assumes "e \<le> length mem"
  shows "skip_empty_line mem e 0 = Some (Some s) \<longleftrightarrow>
    line_end_at mem e 0 s \<or> s = 0 \<and> 0 < e \<and> mem ! 0 \<noteq> 13 \<and> mem ! 0 \<noteq> 10"
proof (cases "e = 0")
  case False
  then have "rd mem 0 = Some (mem ! 0)" using assms by (intro rd_ok) linarith
  with False assms show ?thesis
    by (auto simp: skip_empty_line_def line_end_at_def expect_char_def split: if_splits)
qed (simp add: skip_empty_line_def line_end_at_def)

lemma gap_iff:
  assumes "e \<le> length mem" "b < e" "mem ! b = 32"
  shows "skip_spaces mem e b = Some (Some p) \<longleftrightarrow> gap_at mem e b p"
proof -
  have "run (\<lambda>c. c = 32) mem (b + 1) p \<longleftrightarrow> b < p \<and> run (\<lambda>c. c = 32) mem b p"
    using assms(3) by (auto simp: run_def Suc_le_eq) (metis Suc_leI le_neq_implies_less)
  then show ?thesis using assms by (auto simp: skip_spaces_iff gap_at_def)
qed

text \<open>From the version on, and from the path on.\<close>

lemma request_version_iff:
  assumes "e \<le> length mem" "e \<le> 65535"
  shows "request_version mem e b h = Some (True, h') \<longleftrightarrow>
    ph_method_len h \<noteq> 0 \<and> ph_path_len h \<noteq> 0 \<and> version_line_at mem e b h h'"
proof -
  have "(\<exists>q. line_end mem e (b + 8) = Some (Some q) \<and> parse_header mem e q k = Some (True, h')) \<longleftrightarrow>
      (\<exists>u. line_end_at mem e (b + 8) u \<and> header_at mem e u k h')" if "version_at mem e b v" for v k
  proof -
    have "u \<le> e" if "line_end_at mem e (b + 8) u" for u using that by (auto simp: line_end_at_def)
    then show ?thesis
      using that assms by (auto simp: version_at_def line_end_iff parse_header_iff)
  qed
  then show ?thesis
    by (simp add: request_version_def version_line_at_def chain_accepts version_iff [OF assms(1)] Let_def
        cong: conj_cong)
qed

lemma run_len_nonzero:
  assumes "run P mem i j" "j < e" "e \<le> 65535"
  shows "(word_of_nat (j - i) :: u16) = 0 \<longleftrightarrow> \<not> i < j"
  using word_of_nat_eq_0 [of "j - i"] assms run_le [OF assms(1)] by linarith

lemma request_path_iff:
  assumes "e \<le> length mem" "e \<le> 65535" "m < e" "mem ! m = 32"
  shows "request_path mem e m h = Some (True, h') \<longleftrightarrow> ph_method_len h \<noteq> 0 \<and> path_line_at mem e m h h'"
proof -
  have second: "(\<exists>r. skip_spaces mem e q = Some (Some r) \<and> request_version mem e r k = Some (True, h')) \<longleftrightarrow>
      ph_method_len k \<noteq> 0 \<and> ph_path_len k \<noteq> 0 \<and> (\<exists>r. gap_at mem e q r \<and> version_line_at mem e r k h')" if "q < e" "mem ! q = 32" for q k
    using gap_iff [OF assms(1) that] request_version_iff [OF assms(1,2)] by simp blast
  have first: "(advance_token mem e t \<bind> (\<lambda>r. case r of None \<Rightarrow> Some (False, h) | Some q \<Rightarrow>
      let h = h\<lparr>ph_path := Some t, ph_path_len := word_of_nat (q - t)\<rparr> in
        skip_spaces mem e q \<bind> (\<lambda>r. case r of None \<Rightarrow> Some (False, h)
          | Some q \<Rightarrow> request_version mem e q h))) = Some (True, h') \<longleftrightarrow>
      ph_method_len h \<noteq> 0 \<and> (\<exists>q r. t < q \<and> q < e \<and> mem ! q = 32 \<and> run (\<lambda>c. \<not> is_path_ctl c \<and> c \<noteq> 32) mem t q \<and> gap_at mem e q r \<and>
        version_line_at mem e r (h\<lparr>ph_path := Some t, ph_path_len := word_of_nat (q - t)\<rparr>) h')" if "t < e" for t
  proof -
    have "(word_of_nat (q - t) :: u16) = 0 \<longleftrightarrow> \<not> t < q"
      if "q < e" "run (\<lambda>c. \<not> is_path_ctl c \<and> c \<noteq> 32) mem t q" for q
      using run_len_nonzero that assms(2) by blast
    then show ?thesis
      by (simp add: Let_def chain_accepts advance_token_iff [OF assms(1) that] second
          cong: conj_cong del: of_nat_diff) blast
  qed
  have "t < e" if "gap_at mem e m t" for t using that by (simp add: gap_at_def)
  with first show ?thesis
    unfolding request_path_def chain_accepts path_line_at_def gap_iff [OF assms(1,3,4)]
    by blast
qed

lemma start_cong:
  "(E 0 \<Longrightarrow> Q) \<Longrightarrow> (\<exists>s. (L s \<or> s = 0 \<and> Q) \<and> E s) \<longleftrightarrow> (\<exists>s. (L s \<or> s = 0) \<and> E s)"
  by auto

lemma peek_request_iff:
  assumes "unat len = length mem"
  shows "peek_http_request mem len h = Some (True, h') \<longleftrightarrow> request_at mem (length mem) h h'"
proof -
  note e = order_refl [of "length mem"] unat_len_u16 [OF assms]
  let ?line = "\<lambda>s m. s < m \<and> m < length mem \<and> mem ! m = 32 \<and> run is_token_char mem s m \<and>
    path_line_at mem (length mem) m (h\<lparr>ph_method := Some s, ph_method_len := word_of_nat (m - s)\<rparr>) h'"
  let ?token = "\<lambda>s. parse_token mem (length mem) s 32 \<bind> (\<lambda>r. case r of None \<Rightarrow> Some (False, h) | Some (p, tok, n) \<Rightarrow>
      request_path mem (length mem) p (h\<lparr>ph_method := Some tok, ph_method_len := n\<rparr>))"
  have tok: "?token s = Some (True, h') \<longleftrightarrow> (\<exists>m. ?line s m)" for s
  proof (cases "s < length mem")
    case True
    have "(word_of_nat (m - s) :: u16) = 0 \<longleftrightarrow> \<not> s < m" if "m < length mem" "run is_token_char mem s m" for m
      using run_len_nonzero that e(2) by blast
    then show ?thesis
      using True e by (simp add: chain_accepts parse_token_iff request_path_iff token_run tokens_not_special
        cong: conj_cong del: of_nat_diff) blast
  next
    case False
    then have "parse_token mem (length mem) s 32 = None"
      by (simp add: parse_token_def token_chars.simps)
    with False show ?thesis by simp
  qed
  have start: "0 < length mem \<and> mem ! 0 \<noteq> 13 \<and> mem ! 0 \<noteq> 10" if "?line 0 m" for m
  proof -
    have "is_token_char (mem ! 0)" "0 < length mem" using that by (auto simp: run_def)
    then show ?thesis using tokens_not_special by metis
  qed
  have "peek_http_request mem len h = Some (True, h') \<longleftrightarrow>
      (\<exists>s. skip_empty_line mem (length mem) 0 = Some (Some s) \<and> ?token s = Some (True, h'))"
    unfolding peek_http_request_def assms Let_def by (rule chain_accepts)
  also have "\<dots> \<longleftrightarrow> (\<exists>s. (line_end_at mem (length mem) 0 s \<or> s = 0) \<and> (\<exists>m. ?line s m))"
    unfolding tok skip_empty_line_iff [OF e(1)] using start by (intro start_cong) (elim exE)
  finally show ?thesis by (simp add: request_at_def)
qed

section \<open>Responses\<close>

text \<open>
  The status line: version \<open>v\<close>, the three digits at \<open>q\<close> with the value \<open>code\<close>, the rest of the
  line up to \<open>k\<close>, of any content, and the next line at \<open>p\<close>.
\<close>

definition status_line_at :: "u8 list \<Rightarrow> nat \<Rightarrow> int \<Rightarrow> nat \<Rightarrow> int \<Rightarrow> nat \<Rightarrow> nat \<Rightarrow> bool" where
  "status_line_at mem e v q code k p \<longleftrightarrow> version_at mem e 0 v \<and> gap_at mem e 8 q \<and> q + 4 \<le> e \<and>
     (\<forall>i \<in> {q, q + 1, q + 2}. \<not> char_is_not_number (mem ! i)) \<and>
     code = 100 * (uint (mem ! q) - 48) + 10 * (uint (mem ! (q + 1)) - 48) + (uint (mem ! (q + 2)) - 48) \<and>
     line_at mem e (q + 3) k p"

definition response_at :: "u8 list \<Rightarrow> nat \<Rightarrow> peek_header \<Rightarrow> peek_header \<Rightarrow> bool" where
  "response_at mem e h h' \<longleftrightarrow> (\<exists>v q code k p. status_line_at mem e v q code k p \<and>
     header_at mem e p (h\<lparr>ph_version := v, ph_res_code := code\<rparr>) h')"

lemma header_at_value: "header_at mem e b (h\<lparr>ph_value := x, ph_value_len := y\<rparr>) h' \<longleftrightarrow> header_at mem e b h h'"
  by (simp add: header_at_def value_at_def)

lemma status_code_iff:
  assumes "e \<le> length mem"
  shows "status_code mem e q = Some (Some code) \<longleftrightarrow> q + 4 \<le> e \<and>
    (\<forall>i \<in> {q, q + 1, q + 2}. \<not> char_is_not_number (mem ! i)) \<and>
    code = 100 * (uint (mem ! q) - 48) + 10 * (uint (mem ! (q + 1)) - 48) + (uint (mem ! (q + 2)) - 48)"
  using assms by (auto simp: status_code_def)

text \<open>After the status line has been read: \<open>k\<close> as in \<open>status_line_at\<close>.\<close>

lemma status_line_scan:
  assumes "unat len = length mem"
  shows "(\<exists>n. parse_http_version mem (length mem) 0 = Some (Some (8, v)) \<and> mem ! 8 = 32 \<and>
      skip_spaces mem (length mem) 8 = Some (Some q) \<and> status_code mem (length mem) q = Some (Some code) \<and>
      get_token_to_eol mem (length mem) (q + 3) = Some (Some (p, q + 3, n))) \<longleftrightarrow>
    (\<exists>k. status_line_at mem (length mem) v q code k p)"
proof -
  have "8 < length mem" if "version_at mem (length mem) 0 v" using that by (simp add: version_at_def)
  moreover have "mem ! 8 = 32" if "gap_at mem (length mem) 8 q" using that by (simp add: gap_at_def)
  ultimately show ?thesis
    by (auto simp: version_iff gap_iff status_code_iff get_token_to_eol_iff status_line_at_def simp del: of_nat_diff)
qed

lemma response_after_status:
  assumes "unat len = length mem" "status_line_at mem (length mem) v q code k p"
  shows "peek_http_response mem len h =
    (let h = h\<lparr>ph_version := v, ph_res_code := code, ph_value := Some (q + 3),
                ph_value_len := word_of_nat (k - (q + 3))\<rparr> in
     if ph_msg_len h = 0 then parse_header mem (length mem) p h
     else do {
       m \<leftarrow> ph_msg h;
       c \<leftarrow> rd mem m;
       if c = 32 then do {
         (m, k) \<leftarrow> strip_msg mem m (ph_msg_len h);
         parse_header mem (length mem) p (h\<lparr>ph_msg := Some m, ph_msg_len := k\<rparr>) }
       else Some (False, h) })"
proof -
  let ?e = "length mem"
  have v: "parse_http_version mem ?e 0 = Some (Some (8, v))" "8 < ?e"
    using assms(2) by (auto simp: status_line_at_def version_iff version_at_def)
  have gap: "gap_at mem ?e 8 q" using assms(2) by (simp add: status_line_at_def)
  then have sp: "mem ! 8 = 32" "skip_spaces mem ?e 8 = Some (Some q)"
    using gap_iff [of ?e mem 8 q] v(2) by (simp_all add: gap_at_def)
  have code: "status_code mem ?e q = Some (Some code)"
    using assms(2) by (simp add: status_code_iff status_line_at_def)
  have tok: "get_token_to_eol mem ?e (q + 3) = Some (Some (p, q + 3, word_of_nat (k - (q + 3))))"
    using assms(2) by (auto simp: get_token_to_eol_iff status_line_at_def simp del: of_nat_diff)
  show ?thesis
    using v sp code tok by (simp add: peek_http_response_def assms(1) response_message_def Let_def del: of_nat_diff)
qed

lemma response_needs_status:
  assumes "unat len = length mem" "peek_http_response mem len h = Some (True, h')"
  shows "\<exists>v q code k p. status_line_at mem (length mem) v q code k p"
proof -
  let ?e = "length mem"
  obtain p v where v: "parse_http_version mem ?e 0 = Some (Some (p, v))"
    and more: "(if mem ! p \<noteq> 32 then Some (False, h\<lparr>ph_version := v\<rparr>) else
      skip_spaces mem ?e p \<bind> (\<lambda>r. case r of None \<Rightarrow> Some (False, h\<lparr>ph_version := v\<rparr>) | Some q \<Rightarrow>
        status_code mem ?e q \<bind> (\<lambda>r. case r of None \<Rightarrow> Some (False, h\<lparr>ph_version := v\<rparr>) | Some code \<Rightarrow>
          response_message mem ?e (q + 3) (h\<lparr>ph_version := v, ph_res_code := code\<rparr>)))) = Some (True, h')"
    using assms(2) unfolding peek_http_response_def assms(1) Let_def chain_accepts
    by (auto simp: bind_eq_Some_conv rd_Some_iff)
  have p: "p = 8" "8 < ?e" using v by (auto simp: version_iff version_at_def)
  from more have "mem ! 8 = 32" by (simp add: p split: if_splits)
  with more obtain q code where q: "skip_spaces mem ?e 8 = Some (Some q)" "status_code mem ?e q = Some (Some code)"
    "response_message mem ?e (q + 3) (h\<lparr>ph_version := v, ph_res_code := code\<rparr>) = Some (True, h')"
    by (auto simp: p chain_accepts)
  then obtain t tok n where "get_token_to_eol mem ?e (q + 3) = Some (Some (t, tok, n))"
    by (auto simp: response_message_def chain_accepts)
  then obtain k where "line_at mem ?e (q + 3) k t"
    using q(2) by (auto simp: get_token_to_eol_iff status_code_iff)
  then have "status_line_at mem ?e v q code k t"
    using v p q \<open>mem ! 8 = 32\<close> by (auto simp: status_line_at_def version_iff gap_iff status_code_iff)
  then show ?thesis by blast
qed

lemma peek_response_iff:
  assumes "unat len = length mem" "ph_msg_len h = 0"
  shows "peek_http_response mem len h = Some (True, h') \<longleftrightarrow> response_at mem (length mem) h h'"
proof -
  have "peek_http_response mem len h = Some (True, h') \<longleftrightarrow>
      header_at mem (length mem) p (h\<lparr>ph_version := v, ph_res_code := code\<rparr>) h'"
    if st: "status_line_at mem (length mem) v q code k p" for v q code k p
  proof -
    have "p \<le> length mem" using st line_at_bounds by (auto simp: status_line_at_def)
    then show ?thesis
      using response_after_status [OF assms(1) st, of h] unat_len_u16 [OF assms(1)]
      by (simp add: assms(2) Let_def parse_header_iff header_at_value del: of_nat_diff)
  qed
  then show ?thesis
    unfolding response_at_def using response_needs_status [OF assms(1), of h h'] by blast
qed

section \<open>Properties\<close>

text \<open>A structure as the caller has it after \<open>memset\<close>, and a request and a response to run.\<close>

definition empty_header :: peek_header where
  "empty_header = \<lparr>ph_name = None, ph_name_len = 0, ph_value = None, ph_value_len = 0, ph_version = 0,
     ph_method = None, ph_method_len = 0, ph_path = None, ph_path_len = 0, ph_res_code = 0,
     ph_msg = None, ph_msg_len = 0\<rparr>"

definition sample_request :: "u8 list" where
  "sample_request = [71, 69, 84, 32, 47, 32, 72, 84, 84, 80, 47, 49, 46, 49, 10, 65, 58, 32, 98, 10]"

definition sample_response :: "u8 list" where
  "sample_response = [72, 84, 84, 80, 47, 49, 46, 49, 32, 50, 48, 48, 120, 121, 10, 65, 58, 32, 98, 10]"

text \<open>
  C8: \<open>peek_http_request\<close> accepts a buffer exactly when it starts with a request line (an
  optional empty line, a token, spaces, a path without control characters, spaces, a version and
  a line end) followed by one complete header line, and the structure it fills then describes
  exactly these parts, every other field being unchanged.
\<close>

theorem request_accepts_iff:
  assumes "unat len = length mem"
  shows "peek_http_request mem len h = Some (True, h') \<longleftrightarrow> request_at mem (length mem) h h'"
  using assms by (rule peek_request_iff)

theorem request_accepts_witness:
  "request_at sample_request 20 empty_header
     (empty_header\<lparr>ph_name := Some 15, ph_name_len := 1, ph_value := Some 18, ph_value_len := 1, ph_version := 1,
        ph_method := Some 0, ph_method_len := 3, ph_path := Some 4, ph_path_len := 1\<rparr>)"
proof -
  have len: "unat (20 :: u16) = length sample_request" "length sample_request = 20"
    by (simp_all add: sample_request_def)
  have "peek_http_request sample_request 20 empty_header = Some (True,
     empty_header\<lparr>ph_name := Some 15, ph_name_len := 1, ph_value := Some 18, ph_value_len := 1, ph_version := 1,
        ph_method := Some 0, ph_method_len := 3, ph_path := Some 4, ph_path_len := 1\<rparr>)" by code_simp
  then show ?thesis using request_accepts_iff [OF len(1)] len(2) by simp
qed

text \<open>
  C10: on a buffer of exactly \<open>len\<close> bytes \<open>peek_http_request\<close> returns without reading outside
  it, whatever the bytes are, unless the buffer holds a line end and nothing else: then
  \<open>parse_token\<close> reads the byte behind the buffer.
\<close>

theorem request_memory_safe_iff:
  assumes "unat len = length mem"
  shows "peek_http_request mem len h = None \<longleftrightarrow> mem = [10] \<or> mem = [13, 10]"
  using assms by (rule peek_request_None_iff)

theorem request_memory_witness:
  "peek_http_request [13, 10] 2 empty_header = None \<and> peek_http_request [13] 1 empty_header \<noteq> None"
  using request_memory_safe_iff [of 2 "[13, 10]" empty_header] request_memory_safe_iff [of 1 "[13]" empty_header]
  by simp

text \<open>
  C12: \<open>peek_http_response\<close> on a buffer of exactly \<open>len\<close> bytes, called with \<open>msg_len\<close> zero, returns
  without reading outside the buffer, whatever the bytes are.
\<close>

theorem response_memory_safe:
  assumes "unat len = length mem" "ph_msg_len h = 0"
  shows "\<exists>ok h'. peek_http_response mem len h = Some (ok, h')"
  using peek_response_safe [OF assms] by auto

theorem response_memory_witness:
  "\<exists>ok h'. peek_http_response [72, 84, 84, 80, 47, 49, 46, 49, 32] 9 empty_header = Some (ok, h')"
  by (rule response_memory_safe) (simp_all add: empty_header_def)

text \<open>
  C11: called with \<open>msg_len\<close> zero, \<open>peek_http_response\<close> accepts a buffer exactly when it starts with
  a version, spaces, three digits, any text up to the line end and one complete header line. The
  text behind the digits need not start with a space, and no field of the structure keeps it:
  \<open>value\<close> is that of the header line and \<open>msg\<close> stays as it was.
\<close>

theorem response_accepts_iff:
  assumes "unat len = length mem" "ph_msg_len h = 0"
  shows "peek_http_response mem len h = Some (True, h') \<longleftrightarrow> response_at mem (length mem) h h'"
  using assms by (rule peek_response_iff)

theorem response_accepts_witness:
  "response_at sample_response 20 empty_header
     (empty_header\<lparr>ph_name := Some 15, ph_name_len := 1, ph_value := Some 18, ph_value_len := 1, ph_version := 1,
        ph_res_code := 200\<rparr>)"
proof -
  have len: "unat (20 :: u16) = length sample_response" "length sample_response = 20" "ph_msg_len empty_header = 0"
    by (simp_all add: sample_response_def empty_header_def)
  have "peek_http_response sample_response 20 empty_header = Some (True,
     empty_header\<lparr>ph_name := Some 15, ph_name_len := 1, ph_value := Some 18, ph_value_len := 1, ph_version := 1,
        ph_res_code := 200\<rparr>)" by code_simp
  then show ?thesis using response_accepts_iff [OF len(1,3)] len(2) by simp
qed

text \<open>
  C14: \<open>peek_http_response\<close> reads through \<open>msg\<close>, which it never sets: when the caller leaves a
  non-zero \<open>msg_len\<close> with a null \<open>msg\<close> in the structure, every complete status line leads to a
  dereference of the null pointer.
\<close>

theorem response_stale_msg:
  assumes "unat len = length mem" "status_line_at mem (length mem) v q code k p"
    and "ph_msg_len h \<noteq> 0" "ph_msg h = None"
  shows "peek_http_response mem len h = None"
  using assms(3,4) by (simp add: response_after_status [OF assms(1,2)] Let_def)

theorem response_stale_witness:
  "peek_http_response sample_response 20 (empty_header\<lparr>ph_msg_len := 1\<rparr>) = None"
proof -
  have len: "unat (20 :: u16) = length sample_response" by (simp add: sample_response_def)
  have "peek_http_response sample_response 20 empty_header = Some (True,
     empty_header\<lparr>ph_name := Some 15, ph_name_len := 1, ph_value := Some 18, ph_value_len := 1, ph_version := 1,
        ph_res_code := 200\<rparr>)" by code_simp
  then obtain v q code k p where "status_line_at sample_response (length sample_response) v q code k p"
    using response_needs_status [OF len] by blast
  then show ?thesis by (rule response_stale_msg [OF len]) (simp_all add: empty_header_def)
qed

end
