(* ===== verification/Http_Round.thy ===== *)
theory Http_Round
  imports Http_Parse
begin

text \<open>
  The other direction: a request written out from its parts is accepted by
  \<open>peek_http_request\<close>, and the fields of the structure are these parts again.
\<close>

section \<open>Pieces of a buffer\<close>

definition piece :: "u8 list \<Rightarrow> nat \<Rightarrow> u8 list \<Rightarrow> bool" where
  "piece mem b xs \<longleftrightarrow> b + length xs \<le> length mem \<and> take (length xs) (drop b mem) = xs"

lemma piece_whole: "piece mem 0 mem"
  by (simp add: piece_def)

lemma piece_append: "piece mem b (xs @ ys) \<longleftrightarrow> piece mem b xs \<and> piece mem (b + length xs) ys"
  by (auto simp: piece_def take_add add.commute add.left_commute append_eq_append_conv)

lemma piece_Nil: "piece mem b [] \<longleftrightarrow> b \<le> length mem"
  by (simp add: piece_def)

lemma piece_nth: "piece mem b xs \<Longrightarrow> i < length xs \<Longrightarrow> mem ! (b + i) = xs ! i"
  unfolding piece_def by (metis nth_drop nth_take add_leD1)

lemma piece_Cons: "piece mem b (x # xs) \<Longrightarrow> mem ! b = x \<and> b < length mem"
  using piece_nth [of mem b "x # xs" 0] by (auto simp: piece_def)

lemma piece_end: "piece mem b xs \<Longrightarrow> b + length xs \<le> length mem"
  by (simp add: piece_def)

lemma piece_run:
  assumes "piece mem b xs" "\<forall>c \<in> set xs. P c"
  shows "run P mem b (b + length xs)"
  unfolding run_def
proof (intro conjI allI impI)
  fix q assume q: "b \<le> q \<and> q < b + length xs"
  then have i: "q - b < length xs" "b + (q - b) = q" by linarith+
  then show "P (mem ! q)" using piece_nth [OF assms(1) i(1)] assms(2) by simp
qed simp

text \<open>The text of a field of the structure: a pointer and a length.\<close>

definition field :: "u8 list \<Rightarrow> nat option \<Rightarrow> u16 \<Rightarrow> u8 list" where
  "field mem p n = (case p of None \<Rightarrow> [] | Some b \<Rightarrow> take (unat n) (drop b mem))"

lemma field_piece:
  assumes "piece mem b xs" "length mem \<le> 65535"
  shows "field mem (Some b) (word_of_nat (length xs)) = xs"
proof -
  have "unat (word_of_nat (length xs) :: u16) = length xs"
    using assms by (intro len_of_nat) (simp add: piece_def)
  with assms(1) show ?thesis by (simp add: field_def piece_def)
qed

section \<open>Writing a request\<close>

record request_parts =
  rq_lead :: "u8 list"      \<comment> \<open>an empty line before the request\<close>
  rq_method :: "u8 list"
  rq_gap1 :: nat            \<comment> \<open>spaces beyond the one that is needed\<close>
  rq_path :: "u8 list"
  rq_gap2 :: nat
  rq_minor :: nat
  rq_eol1 :: "u8 list"
  rq_name :: "u8 list"
  rq_blanks :: "u8 list"
  rq_value :: "u8 list"
  rq_trail :: "u8 list"
  rq_eol2 :: "u8 list"
  rq_rest :: "u8 list"      \<comment> \<open>further header lines and the content\<close>

definition header_text :: "request_parts \<Rightarrow> u8 list" where
  "header_text r = rq_name r @ [58] @ rq_blanks r @ rq_value r @ rq_trail r @ rq_eol2 r @ rq_rest r"

definition request_text :: "request_parts \<Rightarrow> u8 list" where
  "request_text r = rq_lead r @ rq_method r @ replicate (Suc (rq_gap1 r)) 32 @
     rq_path r @ replicate (Suc (rq_gap2 r)) 32 @ http_prefix @ [48 + word_of_nat (rq_minor r)] @ rq_eol1 r @
     header_text r"

definition eols :: "u8 list set" where
  "eols = {[10], [13, 10]}"

definition parts_ok :: "request_parts \<Rightarrow> bool" where
  "parts_ok r \<longleftrightarrow> rq_lead r \<in> insert [] eols \<and> rq_eol1 r \<in> eols \<and> rq_eol2 r \<in> eols \<and> rq_minor r < 10 \<and>
     rq_method r \<noteq> [] \<and> (\<forall>c \<in> set (rq_method r). is_token_char c) \<and>
     rq_path r \<noteq> [] \<and> (\<forall>c \<in> set (rq_path r). \<not> is_path_ctl c \<and> c \<noteq> 32) \<and>
     rq_name r \<noteq> [] \<and> (\<forall>c \<in> set (rq_name r). is_token_char c) \<and>
     (\<forall>c \<in> set (rq_blanks r) \<union> set (rq_trail r). is_blank c) \<and>
     (\<forall>c \<in> set (rq_value r). \<not> is_eol_ctl c) \<and>
     (if rq_value r = [] then rq_trail r = []
      else \<not> is_blank (hd (rq_value r)) \<and> \<not> is_blank (last (rq_value r)))"

lemma blank_no_ctl: "is_blank c \<Longrightarrow> \<not> is_eol_ctl c"
  by (auto simp: is_blank_def is_eol_ctl_def)

lemma eols_line_end:
  assumes "piece mem b eol" "eol \<in> eols"
  shows "line_end_at mem (length mem) b (b + length eol)"
  using assms piece_nth [OF assms(1), of 0] piece_nth [OF assms(1), of 1] piece_end [OF assms(1)]
  by (auto simp: eols_def line_end_at_def)

lemma gap_piece:
  assumes "piece mem b (replicate (Suc n) 32)" "mem ! (b + Suc n) \<noteq> 32" "b + Suc n < length mem"
  shows "gap_at mem (length mem) b (b + Suc n)"
  using assms piece_run [OF assms(1), of "\<lambda>c. c = 32"] piece_nth [OF assms(1), of 0] by (simp add: gap_at_def)

lemma digit_bytes: "n < 10 \<Longrightarrow> \<not> char_is_not_number (48 + word_of_nat n) \<and> uint (48 + word_of_nat n :: u8) - 48 = int n"
proof -
  assume "n < 10"
  moreover have "\<forall>n \<in> set [0..<10]. \<not> char_is_not_number (48 + word_of_nat n) \<and> uint (48 + word_of_nat n :: u8) - 48 = int n"
    by code_simp
  ultimately show ?thesis by simp
qed

lemma version_piece:
  assumes "piece mem b (http_prefix @ [48 + word_of_nat n] @ eol)" "n < 10" "eol \<noteq> []"
  shows "version_at mem (length mem) b (int n)"
proof -
  have p: "piece mem b http_prefix" "piece mem (b + 7) [48 + word_of_nat n]" "piece mem (b + 8) eol"
    using assms(1) unfolding piece_append by (simp_all add: add.commute)
  have "b + 9 \<le> length mem" using piece_end [OF p(3)] assms(3) by (cases eol) auto
  moreover have "take 7 (drop b mem) = http_prefix" using p(1) by (simp add: piece_def)
  ultimately show ?thesis
    using piece_Cons [OF p(2)] digit_bytes [OF assms(2)] by (simp add: version_at_def)
qed

section \<open>The header line\<close>

lemma line_piece:
  assumes "piece mem b (xs @ eol)" "\<forall>c \<in> set xs. \<not> is_eol_ctl c" "eol \<in> eols"
  shows "line_at mem (length mem) b (b + length xs) (b + length xs + length eol)"
proof -
  have p: "piece mem b xs" "piece mem (b + length xs) eol" using assms(1) by (simp_all add: piece_append)
  have "run (\<lambda>c. \<not> is_eol_ctl c) mem b (b + length xs)" using p(1) assms(2) by (rule piece_run)
  with eols_line_end [OF p(2) assms(3)] piece_end [OF p(2)] show ?thesis
    by (auto simp: line_at_def run_def line_end_at_def)
qed

lemma trimmed_piece:
  assumes "piece mem b (val @ trail)" "\<forall>c \<in> set trail. is_blank c"
    and "val \<noteq> [] \<longrightarrow> \<not> is_blank (last val)"
  shows "trimmed mem b (b + length (val @ trail)) (b + length val)"
proof -
  have p: "piece mem b val" "piece mem (b + length val) trail" using assms(1) by (simp_all add: piece_append)
  have "\<not> is_blank (mem ! (b + length val - 1))" if "val \<noteq> []"
  proof -
    have "val ! (length val - 1) = last val" "b + (length val - 1) = b + length val - 1" "length val - 1 < length val"
      using that by (simp_all add: last_conv_nth Suc_le_eq)
    then have "mem ! (b + length val - 1) = last val" using piece_nth [OF p(1), of "length val - 1"] by metis
    then show ?thesis using that assms(3) by metis
  qed
  then show ?thesis
    using piece_run [OF p(2) assms(2)] by (auto simp: trimmed_def add.assoc)
qed

lemma header_text_at:
  assumes "parts_ok r" "piece mem b (header_text r)"
  defines "v \<equiv> b + length (rq_name r) + 1 + length (rq_blanks r)"
  shows "header_at mem (length mem) b h
    (h\<lparr>ph_name := Some b, ph_name_len := word_of_nat (length (rq_name r)),
       ph_value := Some v, ph_value_len := word_of_nat (length (rq_value r))\<rparr>)"
    and "piece mem b (rq_name r)" "piece mem v (rq_value r)"
proof -
  let ?c = "b + length (rq_name r)" and ?e = "length mem"
  let ?line = "rq_value r @ rq_trail r"
  have p: "piece mem b (rq_name r)" "piece mem ?c [58]" "piece mem (?c + 1) (rq_blanks r)"
    "piece mem v (?line @ rq_eol2 r)"
    using assms(2) unfolding header_text_def piece_append v_def by (simp_all add: add.assoc)
  have pv: "piece mem v (rq_value r)" "piece mem (v + length ?line) (rq_eol2 r)" "piece mem v ?line"
    using p(4) unfolding piece_append by (simp_all add: add.assoc)
  then show "piece mem v (rq_value r)" "piece mem b (rq_name r)" using p(1) by simp_all
  have ok: "rq_eol2 r \<in> eols" "\<forall>c \<in> set ?line. \<not> is_eol_ctl c" "\<forall>c \<in> set (rq_trail r). is_blank c"
    "rq_value r \<noteq> [] \<longrightarrow> \<not> is_blank (last (rq_value r))" "\<forall>c \<in> set (rq_blanks r). is_blank c"
    "rq_name r \<noteq> []" "\<forall>c \<in> set (rq_name r). is_token_char c"
    using assms(1) blank_no_ctl by (auto simp: parts_ok_def split: if_splits)
  have "value_at mem ?e v h' (h'\<lparr>ph_value := Some v, ph_value_len := word_of_nat (length (rq_value r))\<rparr>)" for h'
    unfolding value_at_def
    using line_piece [OF p(4) ok(2,1)] trimmed_piece [OF pv(3) ok(3,4)]
    by (intro exI [of _ "v + length ?line"] exI [of _ "v + length (rq_value r)"] exI conjI) auto
  moreover have "named_at mem ?e b ?c v"
  proof -
    have "mem ! v = hd ((?line @ rq_eol2 r))" "v < ?e"
      using piece_Cons [of mem v "hd (?line @ rq_eol2 r)" "tl (?line @ rq_eol2 r)"] p(4) ok(1)
      by (auto simp: eols_def)
    moreover have "\<not> is_blank (hd (?line @ rq_eol2 r))"
      using assms(1) ok(1) tokens_not_special by (auto simp: parts_ok_def eols_def hd_append split: if_splits)
    ultimately show ?thesis
      using piece_run [OF p(1) ok(7)] piece_Cons [OF p(2)] piece_run [OF p(3) ok(5)] ok(6)
      by (simp add: named_at_def v_def add.assoc)
  qed
  moreover have "b < ?e" "\<not> is_blank (mem ! b)"
  proof -
    have "mem ! b = hd (rq_name r) \<and> b < ?e"
      using piece_Cons [of mem b "hd (rq_name r)" "tl (rq_name r)"] p(1) ok(6) by simp
    moreover have "\<not> is_blank c" if "is_token_char c" for c
      using that tokens_not_special by (auto simp: is_blank_def)
    ultimately show "b < ?e" "\<not> is_blank (mem ! b)" using ok(6,7) by simp_all
  qed
  ultimately show "header_at mem ?e b h
    (h\<lparr>ph_name := Some b, ph_name_len := word_of_nat (length (rq_name r)),
       ph_value := Some v, ph_value_len := word_of_nat (length (rq_value r))\<rparr>)"
    by (simp add: header_at_def, intro exI [of _ ?c] exI [of _ v]) simp
qed

section \<open>The request line\<close>

lemma request_text_at:
  assumes ok: "parts_ok r" and mem: "mem = request_text r"
  defines "s \<equiv> length (rq_lead r)"
  defines "t \<equiv> s + length (rq_method r) + Suc (rq_gap1 r)"
  defines "u \<equiv> t + length (rq_path r) + Suc (rq_gap2 r) + 8 + length (rq_eol1 r)"
  defines "v \<equiv> u + length (rq_name r) + 1 + length (rq_blanks r)"
  shows "request_at mem (length mem) h
    (h\<lparr>ph_method := Some s, ph_method_len := word_of_nat (length (rq_method r)),
       ph_path := Some t, ph_path_len := word_of_nat (length (rq_path r)),
       ph_version := int (rq_minor r),
       ph_name := Some u, ph_name_len := word_of_nat (length (rq_name r)),
       ph_value := Some v, ph_value_len := word_of_nat (length (rq_value r))\<rparr>)"
    and "piece mem s (rq_method r)" "piece mem t (rq_path r)"
    "piece mem u (rq_name r)" "piece mem v (rq_value r)"
proof -
  let ?e = "length mem" and ?m = "s + length (rq_method r)" and ?q = "t + length (rq_path r)"
  let ?r = "?q + Suc (rq_gap2 r)"
  let ?version = "http_prefix @ [48 + word_of_nat (rq_minor r)] @ rq_eol1 r"
  have "piece mem 0 (rq_lead r @ rq_method r @ replicate (Suc (rq_gap1 r)) 32 @
     rq_path r @ replicate (Suc (rq_gap2 r)) 32 @ ?version @ header_text r)"
    using piece_whole [of mem] mem by (simp add: request_text_def)
  then have p: "piece mem 0 (rq_lead r)" "piece mem s (rq_method r)"
    "piece mem ?m (replicate (Suc (rq_gap1 r)) 32)" "piece mem t (rq_path r)"
    "piece mem ?q (replicate (Suc (rq_gap2 r)) 32)" "piece mem ?r ?version"
    "piece mem (?r + 8) (rq_eol1 r)" "piece mem u (header_text r)"
    unfolding piece_append s_def t_def u_def by (simp_all add: ac_simps del: replicate.simps)
  note header = header_text_at [OF ok p(8)]
  then show "piece mem s (rq_method r)" "piece mem t (rq_path r)"
    "piece mem u (rq_name r)" "piece mem v (rq_value r)"
    using p by (simp_all add: v_def)
  have parts: "rq_lead r = [] \<or> rq_lead r \<in> eols" "rq_eol1 r \<in> eols" "rq_eol1 r \<noteq> []" "rq_minor r < 10"
    "rq_method r \<noteq> []" "\<forall>c \<in> set (rq_method r). is_token_char c"
    "rq_path r \<noteq> []" "\<forall>c \<in> set (rq_path r). \<not> is_path_ctl c \<and> c \<noteq> 32"
    using ok by (auto simp: parts_ok_def eols_def)
  have lead: "line_end_at mem ?e 0 s \<or> s = 0"
    using parts(1) eols_line_end [OF p(1)] by (auto simp: s_def)
  have at: "mem ! t = hd (rq_path r)" "t < ?e" "mem ! ?r = 72" "?r < ?e" "mem ! ?m = 32" "mem ! ?q = 32"
    using piece_Cons [of mem t "hd (rq_path r)" "tl (rq_path r)"] p(4) parts(7)
      piece_Cons [of mem ?r 72 "tl ?version"] p(6)
      piece_nth [OF p(3), of 0] piece_nth [OF p(5), of 0]
    by (simp_all add: http_prefix_def)
  have gap1: "gap_at mem ?e ?m t"
    using gap_piece [OF p(3)] at(1,2) parts(7,8) by (simp add: t_def)
  have gap2: "gap_at mem ?e ?q ?r"
    using gap_piece [OF p(5)] at(3,4) by simp
  have line: "line_end_at mem ?e (?r + 8) u"
    using eols_line_end [OF p(7) parts(2)] by (simp add: u_def add.assoc)
  let ?fields = "\<lambda>h. h\<lparr>ph_name := Some u, ph_name_len := word_of_nat (length (rq_name r)),
     ph_value := Some v, ph_value_len := word_of_nat (length (rq_value r))\<rparr>"
  let ?path = "\<lambda>h. h\<lparr>ph_path := Some t, ph_path_len := word_of_nat (length (rq_path r))\<rparr>"
  have version: "version_line_at mem ?e ?r k (?fields (k\<lparr>ph_version := int (rq_minor r)\<rparr>))" for k
    unfolding version_line_at_def
    using version_piece [OF p(6) parts(4,3)] line header(1) [of "k\<lparr>ph_version := int (rq_minor r)\<rparr>"]
    unfolding v_def by blast
  have path: "path_line_at mem ?e ?m k (?fields (?path k\<lparr>ph_version := int (rq_minor r)\<rparr>))" for k
    unfolding path_line_at_def
    using gap1 gap2 at(6) parts(7) piece_run [OF p(4) parts(8)] piece_end [OF p(5)] version [of "?path k"]
    by (intro exI [of _ t] exI [of _ ?q] exI [of _ ?r] conjI) simp_all
  show "request_at mem ?e h
    (h\<lparr>ph_method := Some s, ph_method_len := word_of_nat (length (rq_method r)),
       ph_path := Some t, ph_path_len := word_of_nat (length (rq_path r)),
       ph_version := int (rq_minor r),
       ph_name := Some u, ph_name_len := word_of_nat (length (rq_name r)),
       ph_value := Some v, ph_value_len := word_of_nat (length (rq_value r))\<rparr>)"
    unfolding request_at_def
    using lead at(5) parts(5) piece_run [OF p(2) parts(6)] piece_end [OF p(3)] path
    by (intro exI [of _ s] exI [of _ ?m] conjI) simp_all
qed

section \<open>The round trip\<close>

text \<open>
  C9: parsing what was written: every request written out from well-formed parts (with an empty
  line before it or not, any number of spaces, either line end, blanks around the value) is
  accepted, and method, path, version, name and value read back from the structure are the parts.
\<close>

theorem request_roundtrip:
  assumes "parts_ok r" "unat len = length (request_text r)"
  defines "mem \<equiv> request_text r"
  shows "\<exists>h'. peek_http_request mem len h = Some (True, h') \<and>
    field mem (ph_method h') (ph_method_len h') = rq_method r \<and>
    field mem (ph_path h') (ph_path_len h') = rq_path r \<and>
    ph_version h' = int (rq_minor r) \<and>
    field mem (ph_name h') (ph_name_len h') = rq_name r \<and>
    field mem (ph_value h') (ph_value_len h') = rq_value r"
proof -
  note at = request_text_at [OF assms(1) mem_def [THEN meta_eq_to_obj_eq]]
  have len: "unat len = length mem" using assms(2) by (simp add: mem_def)
  note short = unat_len_u16 [OF len]
  show ?thesis
    by (rule exI, rule conjI, rule peek_request_iff [OF len, THEN iffD2], rule at(1))
      (use at(2-5) [THEN field_piece, OF short] in simp)
qed

lemma tokens_of_sample: "is_token_char 71" "is_token_char 69" "is_token_char 84" "is_token_char 72"
  by code_simp+

definition sample_parts :: request_parts where
  "sample_parts = \<lparr>rq_lead = [13, 10], rq_method = [71, 69, 84], rq_gap1 = 1, rq_path = [47, 97], rq_gap2 = 0,
     rq_minor = 1, rq_eol1 = [10], rq_name = [72], rq_blanks = [32], rq_value = [98, 32, 99], rq_trail = [9],
     rq_eol2 = [13, 10], rq_rest = [88]\<rparr>"

theorem request_roundtrip_witness:
  "\<exists>h'. peek_http_request (request_text sample_parts) 29 empty_header = Some (True, h') \<and>
    field (request_text sample_parts) (ph_path h') (ph_path_len h') = [47, 97]"
proof -
  have ok: "parts_ok sample_parts"
    using tokens_of_sample by (simp add: parts_ok_def sample_parts_def eols_def is_blank_def is_eol_ctl_def is_path_ctl_def)
  have len: "unat (29 :: u16) = length (request_text sample_parts)"
    by (simp add: request_text_def header_text_def sample_parts_def)
  show ?thesis
    using request_roundtrip [OF ok len, of empty_header] by (auto simp: sample_parts_def)
qed

end
