(* ===== verification/Cas_Queue.thy ===== *)
theory Cas_Queue
  imports C_Base
begin

text \<open>
  The queue of \<open>common/cas_queue.hpp\<close>: a ring of slots with three 32-bit counters, changed by
  compare-and-swap, and a separate atomic length.

  One step of a thread is one atomic access, or one access to a slot of the ring; what lies
  between two of them touches only local variables. A thread is therefore a program counter with
  its local variables, and a run is a sequence of steps of the threads in any order. A weak
  compare-and-swap may fail for no reason; the scheduler decides it. As in the standard library,
  a failed one stores the value that is there in the variable that held the expected value.
\<close>

section \<open>Sizes\<close>

definition power_of_two :: "u32 \<Rightarrow> bool" where
  "power_of_two num \<longleftrightarrow> num \<noteq> 0 \<and> num AND (num - 1) = 0"

definition ceil_power_of_two :: "u32 \<Rightarrow> u32" where
  "ceil_power_of_two num = (let
     num = num OR drop_bit 1 num;
     num = num OR drop_bit 2 num;
     num = num OR drop_bit 4 num;
     num = num OR drop_bit 8 num;
     num = num OR drop_bit 16 num
     in num - drop_bit 1 num)"

definition roundup_power_of_two :: "u32 \<Rightarrow> u32" where
  "roundup_power_of_two num = ceil_power_of_two (push_bit 1 (num - 1))"

definition ring_size :: "u32 \<Rightarrow> u32" where
  "ring_size sz = (if sz = 1 then 2 else if power_of_two sz then sz else roundup_power_of_two sz)"

section \<open>The queue\<close>

record 'a cas_queue =
  q_size :: u32
  q_length :: u32
  q_read :: u32
  q_write :: u32
  q_last :: u32
  q_slots :: "'a list"

text \<open>The constructor; \<open>d\<close> is what \<open>new T[n]\<close> leaves in the slots.\<close>

definition cas_queue_init :: "'a \<Rightarrow> u32 \<Rightarrow> 'a cas_queue" where
  "cas_queue_init d sz = \<lparr>q_size = ring_size sz, q_length = 0, q_read = 0, q_write = 0, q_last = 0,
     q_slots = replicate (unat (ring_size sz)) d\<rparr>"

definition index_of_queue :: "'a cas_queue \<Rightarrow> u32 \<Rightarrow> nat" where
  "index_of_queue q i = unat (i AND (q_size q - 1))"

definition cas_empty :: "'a cas_queue \<Rightarrow> bool" where
  "cas_empty q \<longleftrightarrow> 0 = q_length q"

definition cas_size :: "'a cas_queue \<Rightarrow> u32" where
  "cas_size q = q_length q"

section \<open>Threads\<close>

text \<open>
  Where a thread is, named after the access it does next. An enqueue carries its element, a
  dequeue the variable \<open>data\<close> it fills.
\<close>

datatype 'a pc =
    Idle
  | E_read 'a                 \<comment> \<open>load \<open>_read_idx\<close>\<close>
  | E_write 'a u32            \<comment> \<open>load \<open>_write_idx\<close>, test for full\<close>
  | E_cas 'a u32              \<comment> \<open>compare-and-swap of \<open>_write_idx\<close>\<close>
  | E_store 'a u32            \<comment> \<open>write the slot\<close>
  | E_publish 'a u32          \<comment> \<open>compare-and-swap of \<open>_last_write_idx\<close>\<close>
  | E_count 'a                \<comment> \<open>add to \<open>_length\<close>, return true\<close>
  | D_read 'a                 \<comment> \<open>load \<open>_read_idx\<close>\<close>
  | D_last 'a u32             \<comment> \<open>load \<open>_last_write_idx\<close>, test for empty\<close>
  | D_data 'a u32             \<comment> \<open>read the slot\<close>
  | D_cas 'a u32              \<comment> \<open>compare-and-swap of \<open>_read_idx\<close>\<close>
  | D_count 'a                \<comment> \<open>subtract from \<open>_length\<close>, return true\<close>

text \<open>A finished call: what it returned, with the element of an enqueue and the final \<open>data\<close> of a dequeue.\<close>

datatype 'a result = Enqueued bool 'a | Dequeued bool 'a

text \<open>\<open>enqueue\<close>, step by step. \<open>weak\<close> makes a compare-and-swap fail; \<open>None\<close> is an access outside the ring.\<close>

fun enqueue_step :: "bool \<Rightarrow> 'a cas_queue \<Rightarrow> 'a pc \<Rightarrow> ('a cas_queue \<times> 'a pc \<times> 'a result option) option" where
  "enqueue_step weak q (E_read x) = Some (q, E_write x (q_read q), None)"
| "enqueue_step weak q (E_write x r) = (let w = q_write q in
     if index_of_queue q (w + 1) = index_of_queue q r then Some (q, Idle, Some (Enqueued False x))
     else Some (q, E_cas x w, None))"
| "enqueue_step weak q (E_cas x w) =
     (if \<not> weak \<and> q_write q = w then Some (q\<lparr>q_write := w + 1\<rparr>, E_store x w, None)
      else Some (q, E_read x, None))"
| "enqueue_step weak q (E_store x w) = do {
     s \<leftarrow> wr (q_slots q) (index_of_queue q w) x;
     Some (q\<lparr>q_slots := s\<rparr>, E_publish x w, None) }"
| "enqueue_step weak q (E_publish x w) =
     (if \<not> weak \<and> q_last q = w then Some (q\<lparr>q_last := w + 1\<rparr>, E_count x, None)
      else Some (q, E_publish x (q_last q), None))"
| "enqueue_step weak q (E_count x) = Some (q\<lparr>q_length := q_length q + 1\<rparr>, Idle, Some (Enqueued True x))"
| "enqueue_step weak q c = None"

fun dequeue_step :: "bool \<Rightarrow> 'a cas_queue \<Rightarrow> 'a pc \<Rightarrow> ('a cas_queue \<times> 'a pc \<times> 'a result option) option" where
  "dequeue_step weak q (D_read d) = Some (q, D_last d (q_read q), None)"
| "dequeue_step weak q (D_last d r) =
     (if index_of_queue q (q_last q) = index_of_queue q r then Some (q, Idle, Some (Dequeued False d))
      else Some (q, D_data d r, None))"
| "dequeue_step weak q (D_data d r) = do {
     x \<leftarrow> rd (q_slots q) (index_of_queue q r);
     Some (q, D_cas x r, None) }"
| "dequeue_step weak q (D_cas d r) =
     (if \<not> weak \<and> q_read q = r then Some (q\<lparr>q_read := r + 1\<rparr>, D_count d, None)
      else Some (q, D_read d, None))"
| "dequeue_step weak q (D_count d) = Some (q\<lparr>q_length := q_length q - 1\<rparr>, Idle, Some (Dequeued True d))"
| "dequeue_step weak q c = None"

section \<open>Schedules\<close>

datatype 'a action =
    Call_enqueue nat 'a
  | Call_dequeue nat 'a
  | Run nat bool        \<comment> \<open>one step of a thread, with the choice for a weak compare-and-swap\<close>

fun enqueuing :: "'a pc \<Rightarrow> bool" where
  "enqueuing (E_read x) = True"
| "enqueuing (E_write x r) = True"
| "enqueuing (E_cas x w) = True"
| "enqueuing (E_store x w) = True"
| "enqueuing (E_publish x w) = True"
| "enqueuing (E_count x) = True"
| "enqueuing c = False"

definition thread_step :: "bool \<Rightarrow> 'a cas_queue \<Rightarrow> 'a pc \<Rightarrow> ('a cas_queue \<times> 'a pc \<times> 'a result option) option" where
  "thread_step weak q c = (if enqueuing c then enqueue_step weak q c else dequeue_step weak q c)"

record 'a system =
  s_queue :: "'a cas_queue"
  s_threads :: "'a pc list"
  s_results :: "(nat \<times> 'a result) list"

text \<open>One action; \<open>None\<close> also for an action that the thread cannot do.\<close>

fun act :: "'a action \<Rightarrow> 'a system \<Rightarrow> 'a system option" where
  "act (Call_enqueue t x) s = do {
     c \<leftarrow> rd (s_threads s) t;
     if c = Idle then Some (s\<lparr>s_threads := (s_threads s)[t := E_read x]\<rparr>) else None }"
| "act (Call_dequeue t d) s = do {
     c \<leftarrow> rd (s_threads s) t;
     if c = Idle then Some (s\<lparr>s_threads := (s_threads s)[t := D_read d]\<rparr>) else None }"
| "act (Run t weak) s = do {
     c \<leftarrow> rd (s_threads s) t;
     (q, c, r) \<leftarrow> thread_step weak (s_queue s) c;
     Some \<lparr>s_queue = q, s_threads = (s_threads s)[t := c],
           s_results = s_results s @ (case r of None \<Rightarrow> [] | Some x \<Rightarrow> [(t, x)])\<rparr> }"

fun acts :: "'a action list \<Rightarrow> 'a system \<Rightarrow> 'a system option" where
  "acts [] s = Some s"
| "acts (a # as) s = act a s \<bind> acts as"

definition start :: "'a \<Rightarrow> u32 \<Rightarrow> nat \<Rightarrow> 'a system" where
  "start d sz n = \<lparr>s_queue = cas_queue_init d sz, s_threads = replicate n Idle, s_results = []\<rparr>"

section \<open>The size of the ring\<close>

text \<open>Each round of \<open>num |= num >> m\<close> doubles how far a bit is smeared to the right.\<close>

definition smeared :: "u32 \<Rightarrow> nat \<Rightarrow> u32 \<Rightarrow> bool" where
  "smeared x m y \<longleftrightarrow> (\<forall>n. bit y n \<longleftrightarrow> (\<exists>j<m. bit x (n + j)))"

lemma smear_round:
  assumes "smeared x m y"
  shows "smeared x (2 * m) (y OR drop_bit m y)"
  unfolding smeared_def
proof
  fix n
  have "(\<exists>j<2 * m. bit x (n + j)) \<longleftrightarrow> (\<exists>j<m. bit x (n + j)) \<or> (\<exists>j<m. bit x (n + m + j))"
  proof
    assume "\<exists>j<2 * m. bit x (n + j)"
    then obtain j where j: "j < 2 * m" "bit x (n + j)" by blast
    show "(\<exists>j<m. bit x (n + j)) \<or> (\<exists>j<m. bit x (n + m + j))"
    proof (cases "j < m")
      case False
      with j have "j - m < m" "bit x (n + m + (j - m))" by simp_all
      then show ?thesis by blast
    qed (use j in blast)
  next
    assume "(\<exists>j<m. bit x (n + j)) \<or> (\<exists>j<m. bit x (n + m + j))"
    then show "\<exists>j<2 * m. bit x (n + j)"
    proof
      assume "\<exists>j<m. bit x (n + j)"
      then show ?thesis by (metis less_le_trans le_add1 mult_2)
    next
      assume "\<exists>j<m. bit x (n + m + j)"
      then obtain j where "j < m" "bit x (n + (m + j))" by (auto simp: add.assoc)
      then show ?thesis by (intro exI [of _ "m + j"]) simp
    qed
  qed
  with assms show "bit (y OR drop_bit m y) n \<longleftrightarrow> (\<exists>j<2 * m. bit x (n + j))"
    by (simp add: smeared_def bit_or_iff bit_drop_bit_eq add.commute)
qed

lemma smear_all:
  "smeared x 32 (let
     num = x OR drop_bit 1 x;
     num = num OR drop_bit 2 num;
     num = num OR drop_bit 4 num;
     num = num OR drop_bit 8 num
     in num OR drop_bit 16 num)"
proof -
  have "smeared x 1 x" by (simp add: smeared_def)
  from smear_round [OF smear_round [OF smear_round [OF smear_round [OF smear_round [OF this]]]]]
  show ?thesis by (simp add: Let_def)
qed

text \<open>The highest bit of a number.\<close>

lemma highest_bit:
  assumes "0 < (n :: nat)"
  obtains h where "2 ^ h \<le> n" "n < 2 ^ Suc h"
  using ex_power_ivl1 [of 2 n] assms by auto

lemma bit_highest:
  assumes "2 ^ h \<le> n" "n < 2 ^ Suc h"
  shows "bit (n :: nat) h" "h < k \<Longrightarrow> \<not> bit n k"
proof -
  have "n div 2 ^ h = 1"
    using assms by (intro div_nat_eqI) simp_all
  then show "bit n h" by (simp add: bit_iff_odd)
  assume "h < k"
  then have "n < 2 ^ k" using assms(2) by (meson Suc_leI less_le_trans one_le_numeral power_increasing)
  then show "\<not> bit n k" by (simp add: bit_iff_odd)
qed

lemma smeared_highest:
  assumes "smeared x 32 y" "2 ^ h \<le> unat x" "unat x < 2 ^ Suc h"
  shows "y = mask (Suc h)"
proof (rule bit_word_eqI)
  fix n assume n: "n < LENGTH(32)"
  have bits: "bit x k \<longleftrightarrow> bit (unat x) k" for k by (simp add: bit_unsigned_iff)
  have h: "h < 32"
  proof (rule ccontr)
    assume "\<not> h < 32"
    then have "(2 :: nat) ^ 32 \<le> 2 ^ h" by (intro power_increasing) simp_all
    with assms(2) unat_lt_u32 [of x] show False by simp
  qed
  have "bit y n \<longleftrightarrow> n \<le> h"
  proof
    assume "bit y n"
    then obtain j where "bit x (n + j)" using assms(1) by (auto simp: smeared_def)
    then show "n \<le> h" using bit_highest(2) [OF assms(2,3), of "n + j"] bits by force
  next
    assume "n \<le> h"
    then have "bit x (n + (h - n))" "h - n < 32" using bit_highest(1) [OF assms(2,3)] bits h by simp_all
    then show "bit y n" using assms(1) by (auto simp: smeared_def)
  qed
  then show "bit y n \<longleftrightarrow> bit (mask (Suc h) :: u32) n" using n by (simp add: bit_mask_iff less_Suc_eq_le)
qed

lemma highest_less_32: "2 ^ h \<le> unat x \<Longrightarrow> h < 32" for x :: u32
proof (rule ccontr)
  assume x: "2 ^ h \<le> unat x" and "\<not> h < 32"
  then have "(2 :: nat) ^ 32 \<le> 2 ^ h" by (intro power_increasing) simp_all
  with x unat_lt_u32 [of x] show False by simp
qed

lemma unat_exp: "h < 32 \<Longrightarrow> unat (2 ^ h :: u32) = 2 ^ h"
proof -
  assume "h < 32"
  then have "(2 :: nat) ^ h < 2 ^ 32" by (intro power_strict_increasing) simp_all
  then have "unat (word_of_nat (2 ^ h) :: u32) = 2 ^ h"
    by (simp only: unat_of_nat) (simp add: take_bit_nat_eq_self)
  then show ?thesis by simp
qed

lemma ceil_power_of_two_highest:
  assumes "2 ^ h \<le> unat x" "unat x < 2 ^ Suc h"
  shows "ceil_power_of_two x = 2 ^ h"
proof -
  have "ceil_power_of_two x = mask (Suc h) - drop_bit 1 (mask (Suc h))"
    unfolding ceil_power_of_two_def Let_def smeared_highest [OF smear_all assms, unfolded Let_def] by (rule refl)
  also have "drop_bit 1 (mask (Suc h)) = (mask h :: u32)"
    using highest_less_32 [OF assms(1)] by (intro bit_word_eqI) (auto simp: bit_drop_bit_eq bit_mask_iff)
  also have "mask (Suc h) - mask h = (2 ^ h :: u32)" by (simp add: mask_eq_exp_minus_1)
  finally show ?thesis .
qed

lemma ceil_power_of_two_0: "ceil_power_of_two 0 = 0"
  by (simp add: ceil_power_of_two_def Let_def)

lemma power_of_two_exp:
  assumes "power_of_two x"
  shows "\<exists>h < 32. x = 2 ^ h"
proof -
  have x: "x \<noteq> 0" "x AND (x - 1) = 0" using assms by (simp_all add: power_of_two_def)
  then have "0 < unat x" by (simp add: unat_gt_0)
  then obtain h where h: "2 ^ h \<le> unat x" "unat x < 2 ^ Suc h" by (rule highest_bit)
  have "unat x = 2 ^ h"
  proof (rule ccontr)
    assume "unat x \<noteq> 2 ^ h"
    moreover have "unat (x - 1) = unat x - 1" using x(1) by (rule unat_minus_one)
    ultimately have "2 ^ h \<le> unat (x - 1)" "unat (x - 1) < 2 ^ Suc h" using h by simp_all
    then have "bit (unat x) h" "bit (unat (x - 1)) h" using bit_highest(1) h by blast+
    then have "bit (x AND (x - 1)) h" by (simp add: bit_and_iff bit_unsigned_iff)
    with x(2) show False by simp
  qed
  then have "unat x = unat (2 ^ h :: u32)" using highest_less_32 [OF h(1)] by (simp add: unat_exp)
  then show ?thesis using highest_less_32 [OF h(1)] by (auto simp: word_unat_eq_iff)
qed

lemma exp_power_of_two: "h < 32 \<Longrightarrow> power_of_two (2 ^ h)"
proof -
  assume h: "h < 32"
  have "(2 ^ h :: u32) AND (2 ^ h - 1) = 0"
    by (intro bit_word_eqI) (auto simp: bit_and_iff bit_exp_iff bit_mask_iff mask_eq_exp_minus_1 [symmetric])
  moreover have "(2 ^ h :: u32) \<noteq> 0" using unat_exp [OF h] by (metis power_not_zero unat_0 zero_neq_numeral)
  ultimately show ?thesis by (simp add: power_of_two_def)
qed

lemma ring_size_exp:
  assumes "1 \<le> unat sz" "unat sz \<le> 2 ^ 31"
  shows "\<exists>k. 1 \<le> k \<and> k \<le> 31 \<and> ring_size sz = 2 ^ k \<and> unat sz \<le> 2 ^ k \<and> (2 ^ k < 2 * unat sz \<or> unat sz = 1 \<and> k = 1)"
proof -
  consider "sz = 1" | "sz \<noteq> 1" "power_of_two sz" | "sz \<noteq> 1" "\<not> power_of_two sz" by blast
  then show ?thesis
  proof cases
    case 1
    then show ?thesis by (intro exI [of _ 1]) (simp add: ring_size_def)
  next
    case 2
    then obtain h where h: "h < 32" "sz = 2 ^ h" using power_of_two_exp by blast
    with 2 have "h \<noteq> 0" by (metis power_0)
    with 2 h show ?thesis by (intro exI [of _ h]) (simp add: ring_size_def unat_exp)
  next
    case 3
    let ?y = "push_bit 1 (sz - 1)"
    have "unat sz \<noteq> 1" using 3(1) by (metis unat_1 word_unat_eq_iff)
    then have sz: "2 \<le> unat sz" using assms(1) by simp
    then have dec: "unat (sz - 1) = unat sz - 1" by (intro unat_minus_one) (auto simp: unat_eq_zero)
    have y: "unat ?y = 2 * (unat sz - 1)"
    proof -
      have "unat ?y = (unat (sz - 1) * 2) mod 2 ^ 32"
        unfolding push_bit_eq_mult unat_word_ariths by simp
      also have "\<dots> = unat (sz - 1) * 2" using assms(2) dec by (intro mod_less) simp
      finally show ?thesis using dec by simp
    qed
    then have "0 < unat ?y" using sz by simp
    then obtain h where h: "2 ^ h \<le> unat ?y" "unat ?y < 2 ^ Suc h" by (rule highest_bit)
    have ring: "ring_size sz = 2 ^ h"
      using 3 ceil_power_of_two_highest [OF h] by (simp add: ring_size_def roundup_power_of_two_def)
    have "h \<noteq> 0" using h(2) y sz by (intro notI) simp
    moreover have "h \<le> 31" using highest_less_32 [OF h(1)] by simp
    moreover have "unat sz \<le> 2 ^ h" using h(2) y sz by simp
    moreover have "2 ^ h < 2 * unat sz" using h(1) y sz by simp
    ultimately show ?thesis using ring by (intro exI [of _ h]) simp
  qed
qed

section \<open>Indices\<close>

lemma mask_index: "k < 32 \<Longrightarrow> i AND (2 ^ k - 1) = take_bit k i" for i :: u32
  by (simp add: take_bit_eq_mask mask_eq_exp_minus_1)

text \<open>
  Counters that differ by less than the size have different slots, also when they have wrapped
  around.
\<close>

lemma index_eq_iff:
  assumes "q_size q = 2 ^ k" "k < 32" "unat (b - a) < 2 ^ k"
  shows "index_of_queue q a = index_of_queue q b \<longleftrightarrow> a = b"
proof
  assume "index_of_queue q a = index_of_queue q b"
  then have "take_bit k a = take_bit k b"
    using assms(1,2) by (simp add: index_of_queue_def mask_index word_unat_eq_iff)
  then have "uint (take_bit k b) = uint (take_bit k a)" by simp
  then have eq: "uint b mod 2 ^ k = uint a mod 2 ^ k"
    by (metis take_bit_eq_mod unsigned_take_bit_eq)
  have "uint (b - a) mod 2 ^ k = (uint b - uint a) mod 2 ^ 32 mod 2 ^ k"
    by (simp add: uint_word_ariths)
  also have "\<dots> = (uint b - uint a) mod 2 ^ k"
    using assms(2) by (intro mod_mod_cancel le_imp_power_dvd) simp
  also have "\<dots> = 0" using eq by (simp add: mod_eq_dvd_iff)
  finally have "unat (b - a) mod 2 ^ k = 0"
    by (metis (mono_tags, lifting) int_ops(1) of_nat_eq_iff of_nat_numeral of_nat_power uint_nat zmod_int)
  with assms(3) have "unat (b - a) = 0" by simp
  then show "a = b" by (simp add: unat_eq_zero)
qed simp

lemma index_bound:
  assumes "q_size q = 2 ^ k" "k < 32"
  shows "index_of_queue q i < 2 ^ k"
proof -
  have "unat (take_bit k i) = take_bit k (unat i)" by (simp add: unsigned_take_bit_eq)
  also have "\<dots> < 2 ^ k" by simp
  finally show ?thesis using assms by (simp add: index_of_queue_def mask_index)
qed

end
