(* ===== verification/Cas_Spsc.thy ===== *)
theory Cas_Spsc
  imports Cas_Queue
begin

text \<open>
  The queue with one producer and one consumer, for which it is meant: in every interleaving the
  consumer gets the elements in order, each once, no access leaves the ring, and the length is
  right whenever both threads are idle. Counters may wrap around any number of times.
\<close>

section \<open>What the ring holds\<close>

definition items :: "'a cas_queue \<Rightarrow> u32 \<Rightarrow> nat \<Rightarrow> 'a list" where
  "items q r n = map (\<lambda>i. q_slots q ! index_of_queue q (r + word_of_nat i)) [0..<n]"

definition pending :: "'a cas_queue \<Rightarrow> nat" where
  "pending q = unat (q_last q - q_read q)"

definition contents :: "'a cas_queue \<Rightarrow> 'a list" where
  "contents q = items q (q_read q) (pending q)"

definition ring_ok :: "'a cas_queue \<Rightarrow> nat \<Rightarrow> bool" where
  "ring_ok q k \<longleftrightarrow> 1 \<le> k \<and> k \<le> 31 \<and> q_size q = 2 ^ k \<and> length (q_slots q) = 2 ^ k"

lemma items_Suc: "items q r (Suc n) = items q r n @ [q_slots q ! index_of_queue q (r + word_of_nat n)]"
  by (simp add: items_def)

lemma items_Cons: "items q r (Suc n) = q_slots q ! index_of_queue q r # items q (r + 1) n"
  by (rule nth_equalityI) (auto simp: items_def nth_Cons ac_simps simp del: upt_Suc split: nat.splits)

lemma items_cong:
  assumes "q_size q' = q_size q"
    and "\<And>i. i < n \<Longrightarrow> q_slots q' ! index_of_queue q (r + word_of_nat i) = q_slots q ! index_of_queue q (r + word_of_nat i)"
  shows "items q' r n = items q r n"
  using assms by (simp add: items_def index_of_queue_def)

lemma index_upd [simp]: "index_of_queue (q\<lparr>q_last := n\<rparr>) = index_of_queue q"
  "index_of_queue (q\<lparr>q_read := n\<rparr>) = index_of_queue q" "index_of_queue (q\<lparr>q_write := n\<rparr>) = index_of_queue q"
  "index_of_queue (q\<lparr>q_length := n\<rparr>) = index_of_queue q" "index_of_queue (q\<lparr>q_slots := s\<rparr>) = index_of_queue q"
  by (simp_all add: index_of_queue_def fun_eq_iff)

lemma pow_le_31: "k \<le> 31 \<Longrightarrow> (2 :: nat) ^ k \<le> 2147483648"
  using power_increasing [of k 31 "2 :: nat"] by simp

lemma unat_diff_inc:
  fixes a b :: u32
  assumes "unat (b - a) < 4294967295"
  shows "unat (b + 1 - a) = unat (b - a) + 1"
proof -
  have eq: "b + 1 - a = (b - a) + 1" by (simp add: algebra_simps)
  have "unat ((b - a) + 1) = unat (b - a) + 1"
    using assms by (subst unat_word_ariths) simp
  then show ?thesis unfolding eq .
qed

lemma unat_diff_dec:
  fixes a b :: u32
  assumes "b \<noteq> a"
  shows "unat (b - (a + 1)) = unat (b - a) - 1"
proof -
  have eq: "b - (a + 1) = (b - a) - 1" by (simp add: algebra_simps)
  have "b - a \<noteq> 0" using assms by simp
  then show ?thesis unfolding eq by (rule unat_minus_one)
qed

lemma pending_nonempty: "q_last q \<noteq> q_read q \<Longrightarrow> 0 < pending q"
  by (simp add: pending_def unat_gt_0)

text \<open>The three ways the contents change, or do not.\<close>

lemma contents_publish:
  assumes "unat (q_last q - q_read q) < 4294967295"
  shows "contents (q\<lparr>q_last := q_last q + 1\<rparr>) = contents q @ [q_slots q ! index_of_queue q (q_last q)]"
proof -
  have "items (q\<lparr>q_last := q_last q + 1\<rparr>) r n = items q r n" for r n by (rule items_cong) simp_all
  moreover have "q_read q + word_of_nat (pending q) = q_last q" by (simp add: pending_def)
  ultimately show ?thesis
    using unat_diff_inc [OF assms] by (simp add: contents_def pending_def items_Suc)
qed

lemma contents_take:
  assumes "q_last q \<noteq> q_read q"
  shows "contents q = q_slots q ! index_of_queue q (q_read q) # contents (q\<lparr>q_read := q_read q + 1\<rparr>)"
proof -
  have "items (q\<lparr>q_read := q_read q + 1\<rparr>) r n = items q r n" for r n by (rule items_cong) simp_all
  moreover have "pending q = Suc (pending (q\<lparr>q_read := q_read q + 1\<rparr>))"
    using unat_diff_dec [OF assms] pending_nonempty [OF assms] by (simp add: pending_def)
  ultimately show ?thesis by (simp add: contents_def items_Cons)
qed

lemma contents_store:
  assumes "ring_ok q k" "pending q + 1 < 2 ^ k"
  shows "contents (q\<lparr>q_slots := (q_slots q)[index_of_queue q (q_last q) := x]\<rparr>) = contents q"
proof -
  have "index_of_queue q (q_last q) \<noteq> index_of_queue q (q_read q + word_of_nat i)" if "i < pending q" for i
  proof -
    have "q_last q - (q_read q + word_of_nat i) = word_of_nat (pending q - i)"
      using that by (simp add: pending_def algebra_simps)
    moreover have "pending q - i < 2 ^ 32" using assms pow_le_31 [of k] by (simp add: ring_ok_def)
    ultimately have u: "unat (q_last q - (q_read q + word_of_nat i)) = pending q - i"
      by (simp add: unat_of_nat take_bit_nat_eq_self del: of_nat_diff)
    then have "unat (q_last q - (q_read q + word_of_nat i)) < 2 ^ k" using assms(2) by simp
    then show ?thesis
      using index_eq_iff [of q k "q_last q" "q_read q + word_of_nat i"] assms(1) u that by (auto simp: ring_ok_def)
  qed
  then have "items (q\<lparr>q_slots := (q_slots q)[index_of_queue q (q_last q) := x]\<rparr>) (q_read q) (pending q) =
      items q (q_read q) (pending q)"
    by (intro items_cong) simp_all
  then show ?thesis by (simp add: contents_def pending_def)
qed

lemma contents_length [simp]: "contents (q\<lparr>q_length := n\<rparr>) = contents q" "contents (q\<lparr>q_write := n\<rparr>) = contents q"
  by (simp_all add: contents_def items_def pending_def index_of_queue_def)

section \<open>The invariant\<close>

text \<open>What each thread knows, by program point; a producer never dequeues and a consumer never enqueues.\<close>

fun producer_ok :: "nat \<Rightarrow> 'a cas_queue \<Rightarrow> 'a pc \<Rightarrow> bool" where
  "producer_ok k q Idle \<longleftrightarrow> q_write q = q_last q"
| "producer_ok k q (E_read x) \<longleftrightarrow> q_write q = q_last q"
| "producer_ok k q (E_write x r) \<longleftrightarrow> q_write q = q_last q \<and>
     pending q \<le> unat (q_last q - r) \<and> unat (q_last q - r) < 2 ^ k"
| "producer_ok k q (E_cas x w) \<longleftrightarrow> q_write q = q_last q \<and> w = q_write q \<and> pending q + 1 < 2 ^ k"
| "producer_ok k q (E_store x w) \<longleftrightarrow> q_write q = q_last q + 1 \<and> w = q_last q \<and> pending q + 1 < 2 ^ k"
| "producer_ok k q (E_publish x w) \<longleftrightarrow> q_write q = q_last q + 1 \<and> w = q_last q \<and> pending q + 1 < 2 ^ k \<and>
     q_slots q ! index_of_queue q w = x"
| "producer_ok k q (E_count x) \<longleftrightarrow> q_write q = q_last q"
| "producer_ok k q c \<longleftrightarrow> False"

fun consumer_ok :: "'a cas_queue \<Rightarrow> 'a pc \<Rightarrow> bool" where
  "consumer_ok q Idle \<longleftrightarrow> True"
| "consumer_ok q (D_read d) \<longleftrightarrow> True"
| "consumer_ok q (D_last d r) \<longleftrightarrow> r = q_read q"
| "consumer_ok q (D_data d r) \<longleftrightarrow> r = q_read q \<and> q_last q \<noteq> q_read q"
| "consumer_ok q (D_cas d r) \<longleftrightarrow> r = q_read q \<and> q_last q \<noteq> q_read q \<and> d = q_slots q ! index_of_queue q r"
| "consumer_ok q (D_count d) \<longleftrightarrow> True"
| "consumer_ok q c \<longleftrightarrow> False"

fun counting :: "'a pc \<Rightarrow> 'a list" where
  "counting (E_count x) = [x]"
| "counting (D_count x) = [x]"
| "counting c = []"

text \<open>
  The counters and the length; an element is published before it is counted, and counted as
  taken after it is.
\<close>

definition length_ok :: "'a cas_queue \<Rightarrow> 'a pc \<Rightarrow> 'a pc \<Rightarrow> bool" where
  "length_ok q p c \<longleftrightarrow>
     q_length q + word_of_nat (length (counting p)) = q_last q - q_read q + word_of_nat (length (counting c))"

definition spsc_ok :: "nat \<Rightarrow> 'a cas_queue \<Rightarrow> 'a pc \<Rightarrow> 'a pc \<Rightarrow> bool" where
  "spsc_ok k q p c \<longleftrightarrow> ring_ok q k \<and> pending q < 2 ^ k \<and> producer_ok k q p \<and> consumer_ok q c \<and> length_ok q p c"

section \<open>Steps of the producer\<close>

lemma take_bit_add_exp:
  fixes r :: u32
  assumes "k < 32"
  shows "take_bit k (r + 2 ^ k) = take_bit k r"
proof -
  have "uint (r + 2 ^ k) mod 2 ^ k = (uint r + uint (2 ^ k :: u32)) mod 2 ^ 32 mod 2 ^ k"
    by (simp add: uint_word_ariths)
  also have "\<dots> = (uint r + uint (2 ^ k :: u32)) mod 2 ^ k"
    using assms by (intro mod_mod_cancel le_imp_power_dvd) simp
  also have "uint (2 ^ k :: u32) = 2 ^ k" using unat_exp [OF assms] by (simp add: uint_nat)
  finally have "uint (r + 2 ^ k) mod 2 ^ k = uint r mod 2 ^ k" by simp
  then show ?thesis
    by (metis take_bit_eq_mod unsigned_take_bit_eq word_uint_eq_iff)
qed

lemma full_test:
  assumes "ring_ok q k" "unat (q_write q - r) < 2 ^ k"
    and "index_of_queue q (q_write q + 1) \<noteq> index_of_queue q r"
  shows "unat (q_write q - r) + 1 < 2 ^ k"
proof (rule ccontr)
  assume "\<not> unat (q_write q - r) + 1 < 2 ^ k"
  then have "unat (q_write q - r) = 2 ^ k - 1" using assms(2) by linarith
  moreover have k: "k < 32" "q_size q = 2 ^ k" "k \<le> 31" using assms(1) by (simp_all add: ring_ok_def)
  moreover have "(2 :: nat) ^ k \<le> 2147483648" using k(3) by (rule pow_le_31)
  ultimately have u: "unat (q_write q + 1 - r) = 2 ^ k" using assms(2) by (subst unat_diff_inc) simp_all
  have "unat (q_write q + 1 - r) mod 2 ^ k = 0" using u by simp
  then have "q_write q + 1 - r = 2 ^ k"
    using u unat_exp [OF k(1)] by (simp add: word_unat_eq_iff)
  then have "q_write q + 1 = r + 2 ^ k" by (simp add: algebra_simps)
  moreover have "take_bit k (r + 2 ^ k) = take_bit k r" using k(1) by (rule take_bit_add_exp)
  ultimately show False
    using assms(3) k(1,2) by (simp add: index_of_queue_def mask_index)
qed

lemma pending_upd [simp]: "pending (q\<lparr>q_slots := s\<rparr>) = pending q" "pending (q\<lparr>q_write := n\<rparr>) = pending q"
  "pending (q\<lparr>q_length := n\<rparr>) = pending q"
  by (simp_all add: pending_def)

lemma ring_ok_upd [simp]: "ring_ok (q\<lparr>q_last := n\<rparr>) k = ring_ok q k" "ring_ok (q\<lparr>q_read := n\<rparr>) k = ring_ok q k"
  "ring_ok (q\<lparr>q_write := n\<rparr>) k = ring_ok q k" "ring_ok (q\<lparr>q_length := n\<rparr>) k = ring_ok q k"
  "ring_ok (q\<lparr>q_slots := (q_slots q)[i := x]\<rparr>) k = ring_ok q k"
  by (simp_all add: ring_ok_def)

lemma pending_publish:
  assumes "ring_ok q k" "pending q + 1 < 2 ^ k"
  shows "pending (q\<lparr>q_last := q_last q + 1\<rparr>) = pending q + 1"
  using assms pow_le_31 [of k] unat_diff_inc [of "q_last q" "q_read q"] by (simp add: ring_ok_def pending_def)

lemma pending_take:
  "q_last q \<noteq> q_read q \<Longrightarrow> pending (q\<lparr>q_read := q_read q + 1\<rparr>) = pending q - 1"
  by (simp add: pending_def unat_diff_dec)

lemma slot_of_last:
  assumes "ring_ok q k" "pending q < 2 ^ k" "q_last q \<noteq> q_read q"
  shows "index_of_queue q (q_last q) \<noteq> index_of_queue q (q_read q)"
  using index_eq_iff [of q k "q_last q" "q_read q"] assms by (auto simp: ring_ok_def pending_def)

text \<open>What one step of a thread does to the published and the taken elements.\<close>

definition outcome :: "'a result option \<Rightarrow> 'a list" where
  "outcome r = (case r of Some (Enqueued True x) \<Rightarrow> [x] | Some (Dequeued True x) \<Rightarrow> [x] | _ \<Rightarrow> [])"

lemma producer_step:
  assumes "spsc_ok k q p c" "p \<noteq> Idle"
  shows "\<exists>q' p' r. thread_step weak q p = Some (q', p', r) \<and> spsc_ok k q' p' c \<and>
    (\<exists>new. outcome r @ counting p' = counting p @ new \<and> contents q' = contents q @ new)"
proof -
  have ok: "ring_ok q k" "pending q < 2 ^ k" "producer_ok k q p" "consumer_ok q c" "length_ok q p c"
    using assms(1) by (simp_all add: spsc_ok_def)
  then have k: "length (q_slots q) = 2 ^ k" "k < 32" "q_size q = 2 ^ k" by (simp_all add: ring_ok_def)
  have p32: "(2 :: nat) ^ k < 4294967295" using ok(1) pow_le_31 [of k] by (simp add: ring_ok_def)
  show ?thesis
  proof (cases p)
    case (E_read x)
    then show ?thesis using ok by (simp add: thread_step_def spsc_ok_def length_ok_def outcome_def pending_def)
  next
    case (E_write x r)
    note w = ok(3) [unfolded E_write producer_ok.simps]
    show ?thesis
    proof (cases "index_of_queue q (q_write q + 1) = index_of_queue q r")
      case True
      then show ?thesis using ok E_write by (simp add: thread_step_def spsc_ok_def length_ok_def outcome_def)
    next
      case False
      have "unat (q_write q - r) + 1 < 2 ^ k" using w by (intro full_test [OF ok(1) _ False]) simp
      then have "pending q + 1 < 2 ^ k" using w by simp
      with False w ok E_write show ?thesis
        by (simp add: thread_step_def spsc_ok_def length_ok_def outcome_def Let_def)
    qed
  next
    case (E_cas x w)
    then show ?thesis using ok
      by (cases weak; cases c) (auto simp: thread_step_def spsc_ok_def length_ok_def outcome_def pending_def)
  next
    case (E_store x w)
    let ?q = "q\<lparr>q_slots := (q_slots q)[index_of_queue q (q_last q) := x]\<rparr>"
    have w: "q_write q = q_last q + 1" "w = q_last q" "pending q + 1 < 2 ^ k" using ok(3) E_store by simp_all
    have idx: "index_of_queue q (q_last q) < length (q_slots q)" using index_bound [OF k(3,2)] k(1) by simp
    have "consumer_ok ?q c"
      using ok(4) slot_of_last [OF ok(1,2)] by (cases c) simp_all
    then show ?thesis
      using ok w idx E_store contents_store [OF ok(1) w(3), of x]
      by (simp add: thread_step_def spsc_ok_def length_ok_def outcome_def)
  next
    case (E_publish x w)
    let ?q = "q\<lparr>q_last := q_last q + 1\<rparr>"
    have w: "q_write q = q_last q + 1" "w = q_last q" "pending q + 1 < 2 ^ k"
      "q_slots q ! index_of_queue q (q_last q) = x" using ok(3) E_publish by auto
    have c: "contents ?q = contents q @ [x]"
      using contents_publish [of q] w(3,4) p32 by (simp add: pending_def)
    have "q_last q + 1 \<noteq> q_read q"
      using pending_publish [OF ok(1) w(3)] by (auto simp: pending_def)
    then have "consumer_ok ?q c" using ok(4) by (cases c) simp_all
    then show ?thesis
      using ok w E_publish c pending_publish [OF ok(1) w(3)]
      by (auto simp: thread_step_def spsc_ok_def length_ok_def outcome_def algebra_simps)
  next
    case (E_count x)
    then show ?thesis using ok
      by (cases c) (simp_all add: thread_step_def spsc_ok_def length_ok_def outcome_def pending_def algebra_simps)
  qed (use ok assms(2) in simp_all)
qed

section \<open>Steps of the consumer\<close>

lemma empty_test:
  assumes "ring_ok q k" "pending q < 2 ^ k"
  shows "index_of_queue q (q_last q) = index_of_queue q (q_read q) \<longleftrightarrow> q_last q = q_read q"
proof -
  have "q_size q = 2 ^ k" "k < 32" "unat (q_last q - q_read q) < 2 ^ k"
    using assms by (simp_all add: ring_ok_def pending_def)
  from index_eq_iff [OF this] show ?thesis by metis
qed

lemma consumer_step:
  assumes "spsc_ok k q p c" "c \<noteq> Idle"
  shows "\<exists>q' c' r. thread_step weak q c = Some (q', c', r) \<and> spsc_ok k q' p c' \<and>
    (\<exists>new. outcome r @ counting c' = counting c @ new \<and> contents q = new @ contents q')"
proof -
  have ok: "ring_ok q k" "pending q < 2 ^ k" "producer_ok k q p" "consumer_ok q c" "length_ok q p c"
    using assms(1) by (simp_all add: spsc_ok_def)
  then have k: "length (q_slots q) = 2 ^ k" "k < 32" "q_size q = 2 ^ k" by (simp_all add: ring_ok_def)
  show ?thesis
  proof (cases c)
    case (D_read d)
    then show ?thesis using ok by (simp add: thread_step_def spsc_ok_def length_ok_def outcome_def)
  next
    case (D_last d r)
    then show ?thesis using ok empty_test [OF ok(1,2)]
      by (auto simp: thread_step_def spsc_ok_def length_ok_def outcome_def)
  next
    case (D_data d r)
    have "index_of_queue q (q_read q) < length (q_slots q)" using index_bound [OF k(3,2)] k(1) by simp
    then show ?thesis using ok D_data
      by (simp add: thread_step_def spsc_ok_def length_ok_def outcome_def)
  next
    case (D_cas d r)
    let ?q = "q\<lparr>q_read := q_read q + 1\<rparr>"
    have r: "r = q_read q" "q_last q \<noteq> q_read q" "d = q_slots q ! index_of_queue q (q_read q)"
      using ok(4) D_cas by simp_all
    have taken: "contents q = d # contents ?q" using contents_take [OF r(2)] r(3) by simp
    have pend: "pending ?q < pending q" "unat (q_last q - (q_read q + 1)) < unat (q_last q - q_read q)"
      using pending_take [OF r(2)] pending_nonempty [OF r(2)] by (simp_all add: pending_def)
    have "producer_ok k ?q p"
      using ok(3) pend by (cases p) (auto simp: pending_def)
    then show ?thesis
      using ok r taken pend D_cas
      by (cases weak) (auto simp: thread_step_def spsc_ok_def length_ok_def outcome_def algebra_simps)
  next
    case (D_count d)
    have "producer_ok k (q\<lparr>q_length := n\<rparr>) p" for n using ok(3) by (cases p) simp_all
    then show ?thesis using ok D_count
      by (auto simp: thread_step_def spsc_ok_def length_ok_def outcome_def algebra_simps)
  qed (use ok assms(2) in simp_all)
qed

section \<open>Every run of a producer and a consumer\<close>

text \<open>Thread 0 only enqueues, thread 1 only dequeues.\<close>

fun spsc_action :: "'a action \<Rightarrow> bool" where
  "spsc_action (Call_enqueue t x) \<longleftrightarrow> t = 0"
| "spsc_action (Call_dequeue t d) \<longleftrightarrow> t = 1"
| "spsc_action (Run t weak) \<longleftrightarrow> True"

inductive spsc_reach :: "'a \<Rightarrow> u32 \<Rightarrow> 'a system \<Rightarrow> bool" for d sz where
  start: "spsc_reach d sz (start d sz 2)"
| act: "spsc_reach d sz s \<Longrightarrow> spsc_action a \<Longrightarrow> act a s = Some s' \<Longrightarrow> spsc_reach d sz s'"

definition returned :: "nat \<Rightarrow> 'a system \<Rightarrow> 'a list" where
  "returned t s = concat (map (\<lambda>(u, r). if u = t then outcome (Some r) else []) (s_results s))"

definition published :: "'a system \<Rightarrow> 'a list" where
  "published s = returned 0 s @ counting (s_threads s ! 0)"

definition taken :: "'a system \<Rightarrow> 'a list" where
  "taken s = returned 1 s @ counting (s_threads s ! 1)"

definition spsc_inv :: "nat \<Rightarrow> 'a system \<Rightarrow> bool" where
  "spsc_inv k s \<longleftrightarrow> (\<exists>p c. s_threads s = [p, c] \<and> spsc_ok k (s_queue s) p c) \<and>
     published s = taken s @ contents (s_queue s)"

lemma returned_step:
  "s_results s' = s_results s @ (case r of None \<Rightarrow> [] | Some x \<Rightarrow> [(t, x)]) \<Longrightarrow>
     returned u s' = returned u s @ (if u = t then outcome r else [])"
  by (auto simp: returned_def outcome_def split: option.splits)

lemma spsc_inv_start:
  assumes "ring_size sz = 2 ^ k" "1 \<le> k" "k \<le> 31"
  shows "spsc_inv k (start d sz 2)"
  using assms
  by (auto simp: spsc_inv_def start_def spsc_ok_def ring_ok_def cas_queue_init_def pending_def length_ok_def
      published_def taken_def returned_def contents_def items_def unat_exp numeral_2_eq_2)

lemma spsc_inv_act:
  assumes "spsc_inv k s" "spsc_action a" "act a s = Some s'"
  shows "spsc_inv k s'"
proof -
  obtain p c where s: "s_threads s = [p, c]" "spsc_ok k (s_queue s) p c"
    "published s = taken s @ contents (s_queue s)"
    using assms(1) by (auto simp: spsc_inv_def)
  show ?thesis
  proof (cases a)
    case (Call_enqueue t x)
    with assms(2,3) s show ?thesis
      by (auto simp: spsc_inv_def spsc_ok_def length_ok_def published_def taken_def returned_def split: if_splits)
  next
    case (Call_dequeue t x)
    with assms(2,3) s show ?thesis
      by (auto simp: spsc_inv_def spsc_ok_def length_ok_def published_def taken_def returned_def split: if_splits)
  next
    case (Run t weak)
    then have "t < 2" using assms(3) s(1) by (auto simp: bind_eq_Some_conv rd_Some_iff)
    then consider "t = 0" | "t = 1" by linarith
    then show ?thesis
    proof cases
      case 1
      have "p \<noteq> Idle" using assms(3) s(1) Run 1 by (auto simp: thread_step_def)
      then obtain q' p' r new where st: "thread_step weak (s_queue s) p = Some (q', p', r)" "spsc_ok k q' p' c"
        "outcome r @ counting p' = counting p @ new" "contents q' = contents (s_queue s) @ new"
        using producer_step [OF s(2)] by blast
      then have s': "s' = \<lparr>s_queue = q', s_threads = [p', c],
          s_results = s_results s @ (case r of None \<Rightarrow> [] | Some x \<Rightarrow> [(0, x)])\<rparr>"
        using assms(3) s(1) Run 1 by simp
      then have "returned 0 s' = returned 0 s @ outcome r" "returned 1 s' = returned 1 s"
        using returned_step [of s' s 0 r] by simp_all
      then show ?thesis using s st s' by (simp add: spsc_inv_def published_def taken_def)
    next
      case 2
      have "c \<noteq> Idle" using assms(3) s(1) Run 2 by (auto simp: thread_step_def)
      then obtain q' c' r new where st: "thread_step weak (s_queue s) c = Some (q', c', r)" "spsc_ok k q' p c'"
        "outcome r @ counting c' = counting c @ new" "contents (s_queue s) = new @ contents q'"
        using consumer_step [OF s(2)] by blast
      then have s': "s' = \<lparr>s_queue = q', s_threads = [p, c'],
          s_results = s_results s @ (case r of None \<Rightarrow> [] | Some x \<Rightarrow> [(1, x)])\<rparr>"
        using assms(3) s(1) Run 2 by (cases r) simp_all
      then have "returned 0 s' = returned 0 s" "returned 1 s' = returned 1 s @ outcome r"
        using returned_step [of s' s 1 r] by simp_all
      then show ?thesis using s st s' by (simp add: spsc_inv_def published_def taken_def)
    qed
  qed
qed

lemma spsc_reach_inv:
  assumes "spsc_reach d sz s" "ring_size sz = 2 ^ k" "1 \<le> k" "k \<le> 31"
  shows "spsc_inv k s"
  using assms(1)
proof induction
  case start
  show ?case using assms(2-4) by (rule spsc_inv_start)
next
  case (act s a s')
  then show ?case by (blast intro: spsc_inv_act)
qed

section \<open>A call that is not disturbed\<close>

lemma full_test_iff:
  assumes "ring_ok q k" "pending q < 2 ^ k"
  shows "index_of_queue q (q_last q + 1) = index_of_queue q (q_read q) \<longleftrightarrow> pending q + 1 = 2 ^ k"
proof
  assume "pending q + 1 = 2 ^ k"
  moreover have k: "k < 32" "q_size q = 2 ^ k" "k \<le> 31" using assms(1) by (simp_all add: ring_ok_def)
  ultimately have "unat (q_last q + 1 - q_read q) = 2 ^ k"
    using pow_le_31 [OF k(3)] unat_diff_inc [of "q_last q" "q_read q"] by (simp add: pending_def)
  then have "q_last q + 1 - q_read q = 2 ^ k" using unat_exp [OF k(1)] by (simp add: word_unat_eq_iff)
  then have "q_last q + 1 = q_read q + 2 ^ k" by (simp add: algebra_simps)
  then show "index_of_queue q (q_last q + 1) = index_of_queue q (q_read q)"
    using take_bit_add_exp [OF k(1), of "q_read q"] k(1,2) by (simp add: index_of_queue_def mask_index)
next
  assume eq: "index_of_queue q (q_last q + 1) = index_of_queue q (q_read q)"
  let ?q = "q\<lparr>q_write := q_last q\<rparr>"
  show "pending q + 1 = 2 ^ k"
  proof (rule ccontr)
    assume "pending q + 1 \<noteq> 2 ^ k"
    then have less: "pending q + 1 < 2 ^ k" using assms(2) by linarith
    have k: "k < 32" "q_size q = 2 ^ k" using assms(1) by (simp_all add: ring_ok_def)
    have "unat (q_last q + 1 - q_read q) = pending q + 1"
      using pending_publish [OF assms(1) less] by (simp add: pending_def)
    then show False
      using index_eq_iff [OF k(2,1), of "q_last q + 1" "q_read q"] eq less by auto
  qed
qed

text \<open>The whole of an enqueue, and of a dequeue, by a thread that runs alone.\<close>

lemma enqueue_alone:
  assumes "spsc_inv k s" "s_threads s = [Idle, c]"
  defines "ok \<equiv> length (contents (s_queue s)) + 1 < 2 ^ k"
  shows "\<exists>n \<le> 6. \<exists>s'. acts (Call_enqueue 0 x # replicate n (Run 0 False)) s = Some s' \<and>
    s_threads s' = [Idle, c] \<and> s_results s' = s_results s @ [(0, Enqueued ok x)] \<and>
    contents (s_queue s') = contents (s_queue s) @ (if ok then [x] else [])"
proof -
  let ?q = "s_queue s"
  have q: "ring_ok ?q k" "pending ?q < 2 ^ k" "q_write ?q = q_last ?q"
    using assms(1,2) by (auto simp: spsc_inv_def spsc_ok_def)
  have ok: "ok \<longleftrightarrow> pending ?q + 1 \<noteq> 2 ^ k"
    using q(2) by (auto simp: ok_def contents_def items_def)
  note full = full_test_iff [OF q(1,2)]
  have k: "length (q_slots ?q) = 2 ^ k" "k < 32" "q_size ?q = 2 ^ k" using q(1) by (simp_all add: ring_ok_def)
  show ?thesis
  proof (cases ok)
    case False
    then have "acts (Call_enqueue 0 x # replicate 2 (Run 0 False)) s =
        Some (s\<lparr>s_results := s_results s @ [(0, Enqueued False x)]\<rparr>)"
      using assms(2) q(3) full ok by (cases s) (simp add: numeral_2_eq_2 thread_step_def Let_def)
    then show ?thesis using False assms(2) by (intro exI [of _ 2] conjI exI [of _ "s\<lparr>s_results := s_results s @ [(0, Enqueued False x)]\<rparr>"]) simp_all
  next
    case True
    let ?q1 = "?q\<lparr>q_write := q_last ?q + 1\<rparr>"
    let ?q2 = "?q1\<lparr>q_slots := (q_slots ?q)[index_of_queue ?q (q_last ?q) := x]\<rparr>"
    let ?q3 = "?q2\<lparr>q_last := q_last ?q + 1, q_length := q_length ?q + 1\<rparr>"
    let ?s = "s\<lparr>s_queue := ?q3, s_results := s_results s @ [(0, Enqueued True x)]\<rparr>"
    have idx: "index_of_queue ?q (q_last ?q) < length (q_slots ?q)" using index_bound [OF k(3,2)] k(1) by simp
    have less: "pending ?q + 1 < 2 ^ k" using True ok q(2) by linarith
    have "acts (Call_enqueue 0 x # replicate 6 (Run 0 False)) s = Some ?s"
      using assms(2) q(3) full ok True idx
      by (cases s) (simp add: eval_nat_numeral thread_step_def Let_def)
    moreover have "contents ?q3 = contents ?q @ [x]"
    proof -
      have "contents ?q2 = contents ?q"
        using contents_store [of ?q1 k x] q(1) less by simp
      moreover have "unat (q_last ?q2 - q_read ?q2) < 4294967295"
        using less pow_le_31 [of k] q(1) by (simp add: pending_def ring_ok_def)
      then have "contents (?q2\<lparr>q_last := q_last ?q + 1\<rparr>) = contents ?q2 @ [x]"
        using contents_publish [of ?q2] idx by simp
      ultimately show ?thesis by simp
    qed
    ultimately show ?thesis using True assms(2) by (intro exI [of _ 6] conjI exI [of _ ?s]) simp_all
  qed
qed

lemma dequeue_alone:
  assumes "spsc_inv k s" "s_threads s = [p, Idle]"
  shows "\<exists>n \<le> 5. \<exists>s'. acts (Call_dequeue 1 d # replicate n (Run 1 False)) s = Some s' \<and> s_threads s' = [p, Idle] \<and>
    (case contents (s_queue s) of
       [] \<Rightarrow> s_results s' = s_results s @ [(1, Dequeued False d)] \<and> contents (s_queue s') = []
     | x # xs \<Rightarrow> s_results s' = s_results s @ [(1, Dequeued True x)] \<and> contents (s_queue s') = xs)"
proof -
  let ?q = "s_queue s"
  have q: "ring_ok ?q k" "pending ?q < 2 ^ k"
    using assms by (auto simp: spsc_inv_def spsc_ok_def)
  have k: "length (q_slots ?q) = 2 ^ k" "k < 32" "q_size ?q = 2 ^ k" using q(1) by (simp_all add: ring_ok_def)
  note empty = empty_test [OF q]
  show ?thesis
  proof (cases "q_last ?q = q_read ?q")
    case True
    let ?s = "s\<lparr>s_results := s_results s @ [(1, Dequeued False d)]\<rparr>"
    have "acts (Call_dequeue 1 d # replicate 2 (Run 1 False)) s = Some ?s"
      using assms(2) empty True by (cases s) (simp add: numeral_2_eq_2 thread_step_def Let_def)
    moreover have "contents ?q = []" using True by (simp add: contents_def items_def pending_def)
    ultimately show ?thesis using assms(2) by (intro exI [of _ 2] conjI exI [of _ ?s]) simp_all
  next
    case False
    let ?x = "q_slots ?q ! index_of_queue ?q (q_read ?q)"
    let ?q1 = "?q\<lparr>q_read := q_read ?q + 1\<rparr>"
    let ?s = "s\<lparr>s_queue := ?q1\<lparr>q_length := q_length ?q - 1\<rparr>, s_results := s_results s @ [(1, Dequeued True ?x)]\<rparr>"
    have idx: "index_of_queue ?q (q_read ?q) < length (q_slots ?q)" using index_bound [OF k(3,2)] k(1) by simp
    have "acts (Call_dequeue 1 d # replicate 5 (Run 1 False)) s = Some ?s"
      using assms(2) empty False idx by (cases s) (simp add: eval_nat_numeral thread_step_def Let_def)
    then show ?thesis using assms(2) contents_take [OF False]
      by (intro exI [of _ 5] conjI exI [of _ ?s]) simp_all
  qed
qed

end
