(* ===== verification/Cas_Props.thy ===== *)
theory Cas_Props
  imports Cas_Spsc
begin

text \<open>
  What the queue promises, and what it does not. The interface of a bounded first-in-first-out
  queue is a locale; the queue of \<open>cas_queue.hpp\<close> is an instance of it when calls do not
  overlap. For overlapping calls of one producer and one consumer the invariant of \<open>Cas_Spsc\<close>
  gives order, progress and the length; two producers, and the length itself, go wrong on
  schedules written out here.
\<close>

section \<open>The interface\<close>

locale bounded_fifo =
  fixes inv :: "'s \<Rightarrow> bool" and elems :: "'s \<Rightarrow> 'a list" and cap :: nat
    and enq :: "'a \<Rightarrow> 's \<Rightarrow> ('a result \<times> 's) option"
    and deq :: "'a \<Rightarrow> 's \<Rightarrow> ('a result \<times> 's) option"
  assumes bound: "inv s \<Longrightarrow> length (elems s) \<le> cap"
    and enq_full: "inv s \<Longrightarrow> length (elems s) = cap \<Longrightarrow>
      \<exists>s'. enq x s = Some (Enqueued False x, s') \<and> inv s' \<and> elems s' = elems s"
    and enq_ok: "inv s \<Longrightarrow> length (elems s) < cap \<Longrightarrow>
      \<exists>s'. enq x s = Some (Enqueued True x, s') \<and> inv s' \<and> elems s' = elems s @ [x]"
    and deq_empty: "inv s \<Longrightarrow> elems s = [] \<Longrightarrow>
      \<exists>s'. deq d s = Some (Dequeued False d, s') \<and> inv s' \<and> elems s' = []"
    and deq_ok: "inv s \<Longrightarrow> elems s = y # ys \<Longrightarrow>
      \<exists>s'. deq d s = Some (Dequeued True y, s') \<and> inv s' \<and> elems s' = ys"

text \<open>A caller's program and its answers, on the queue and on a list.\<close>

datatype 'a call = Enq 'a | Deq 'a

fun list_calls :: "nat \<Rightarrow> 'a call list \<Rightarrow> 'a list \<Rightarrow> 'a result list" where
  "list_calls cap [] xs = []"
| "list_calls cap (Enq x # cs) xs = (if length xs < cap then Enqueued True x # list_calls cap cs (xs @ [x])
     else Enqueued False x # list_calls cap cs xs)"
| "list_calls cap (Deq d # cs) [] = Dequeued False d # list_calls cap cs []"
| "list_calls cap (Deq d # cs) (x # xs) = Dequeued True x # list_calls cap cs xs"

fun calls_with :: "('a \<Rightarrow> 's \<Rightarrow> ('a result \<times> 's) option) \<Rightarrow> ('a \<Rightarrow> 's \<Rightarrow> ('a result \<times> 's) option) \<Rightarrow>
    'a call list \<Rightarrow> 's \<Rightarrow> 'a result list option" where
  "calls_with enq deq [] s = Some []"
| "calls_with enq deq (Enq x # cs) s = do {
     (r, s) \<leftarrow> enq x s;
     rs \<leftarrow> calls_with enq deq cs s;
     Some (r # rs) }"
| "calls_with enq deq (Deq d # cs) s = do {
     (r, s) \<leftarrow> deq d s;
     rs \<leftarrow> calls_with enq deq cs s;
     Some (r # rs) }"

context bounded_fifo begin

lemma calls_refine: "inv s \<Longrightarrow> calls_with enq deq cs s = Some (list_calls cap cs (elems s))"
proof (induction cs arbitrary: s)
  case (Cons c cs)
  show ?case
  proof (cases c)
    case (Enq x)
    consider "length (elems s) = cap" | "length (elems s) < cap" using bound [OF Cons.prems] by linarith
    then show ?thesis
    proof cases
      case 1
      with enq_full [OF Cons.prems 1, of x] Enq Cons.IH show ?thesis by auto
    next
      case 2
      with enq_ok [OF Cons.prems 2, of x] Enq Cons.IH show ?thesis by auto
    qed
  next
    case (Deq d)
    show ?thesis
    proof (cases "elems s")
      case Nil
      with deq_empty [OF Cons.prems, of d] Deq Cons.IH show ?thesis by auto
    next
      case (Cons y ys)
      with deq_ok [OF Cons.prems(1) Cons, of d] Deq Cons.IH show ?thesis by auto
    qed
  qed
qed simp

end

section \<open>Calls that do not overlap\<close>

text \<open>Run a thread until its call returns, at most \<open>n\<close> steps.\<close>

fun finish :: "nat \<Rightarrow> nat \<Rightarrow> 'a system \<Rightarrow> 'a system option" where
  "finish n t s = do {
     c \<leftarrow> rd (s_threads s) t;
     if c = Idle then Some s
     else case n of 0 \<Rightarrow> None | Suc n \<Rightarrow> act (Run t False) s \<bind> finish n t }"

declare finish.simps [simp del]

definition last_result :: "'a system \<Rightarrow> 'a result" where
  "last_result s = snd (last (s_results s))"

definition enqueue_call :: "'a \<Rightarrow> 'a system \<Rightarrow> ('a result \<times> 'a system) option" where
  "enqueue_call x s = do {
     s \<leftarrow> act (Call_enqueue 0 x) s;
     s \<leftarrow> finish 6 0 s;
     Some (last_result s, s) }"

definition dequeue_call :: "'a \<Rightarrow> 'a system \<Rightarrow> ('a result \<times> 'a system) option" where
  "dequeue_call d s = do {
     s \<leftarrow> act (Call_dequeue 1 d) s;
     s \<leftarrow> finish 5 1 s;
     Some (last_result s, s) }"

definition quiet_inv :: "nat \<Rightarrow> 'a system \<Rightarrow> bool" where
  "quiet_inv k s \<longleftrightarrow> spsc_inv k s \<and> s_threads s = [Idle, Idle]"

lemma finish_runs:
  assumes "acts (replicate n (Run t False)) s = Some s'" "n \<le> m" "rd (s_threads s') t = Some Idle"
  shows "finish m t s = Some s'"
  using assms
proof (induction n arbitrary: s m)
  case 0
  then show ?case by (simp add: finish.simps)
next
  case (Suc n)
  then obtain m' where m: "m = Suc m'" by (cases m) simp_all
  obtain s1 where s1: "act (Run t False) s = Some s1" "acts (replicate n (Run t False)) s1 = Some s'"
    using Suc.prems(1) by (auto simp del: act.simps simp: bind_eq_Some_conv)
  obtain c where "rd (s_threads s) t = Some c" using s1(1) by (auto simp: bind_eq_Some_conv)
  moreover from this have "c \<noteq> Idle" using s1(1) by (auto simp: thread_step_def)
  moreover have "finish m' t s1 = Some s'" using Suc s1(2) m by simp
  ultimately show ?case using s1(1) m by (subst finish.simps) simp
qed

lemma acts_inv:
  assumes "spsc_inv k s" "acts as s = Some s'" "list_all spsc_action as"
  shows "spsc_inv k s'"
  using assms
proof (induction "as" arbitrary: s)
  case (Cons a as)
  then obtain s1 where "act a s = Some s1" "acts as s1 = Some s'" by (auto simp: bind_eq_Some_conv)
  with Cons show ?case using spsc_inv_act [of k s a s1] by simp
qed simp

lemma quiet_length:
  assumes "quiet_inv k s"
  shows "length (contents (s_queue s)) < 2 ^ k"
  using assms by (auto simp: quiet_inv_def spsc_inv_def spsc_ok_def contents_def items_def)

lemma enqueue_call_cases:
  assumes "quiet_inv k s"
  defines "ok \<equiv> length (contents (s_queue s)) + 1 < 2 ^ k"
  shows "\<exists>s'. enqueue_call x s = Some (Enqueued ok x, s') \<and> quiet_inv k s' \<and>
    contents (s_queue s') = contents (s_queue s) @ (if ok then [x] else [])"
proof -
  have s: "spsc_inv k s" "s_threads s = [Idle, Idle]" using assms(1) by (simp_all add: quiet_inv_def)
  obtain n s' where n: "n \<le> 6" "acts (Call_enqueue 0 x # replicate n (Run 0 False)) s = Some s'"
    "s_threads s' = [Idle, Idle]" "s_results s' = s_results s @ [(0, Enqueued ok x)]"
    "contents (s_queue s') = contents (s_queue s) @ (if ok then [x] else [])"
    using enqueue_alone [OF s, of x] unfolding ok_def by blast
  obtain s1 where s1: "act (Call_enqueue 0 x) s = Some s1" "acts (replicate n (Run 0 False)) s1 = Some s'"
    using n(2) by (auto simp: bind_eq_Some_conv simp del: act.simps)
  have "finish 6 0 s1 = Some s'" using finish_runs [OF s1(2) n(1)] n(3) by simp
  moreover have "spsc_inv k s'" using acts_inv [OF s(1) n(2)] by (simp add: list_all_iff)
  ultimately show ?thesis
    using s1(1) n by (simp add: enqueue_call_def last_result_def quiet_inv_def del: act.simps)
qed

lemma dequeue_call_cases:
  assumes "quiet_inv k s"
  shows "\<exists>s'. quiet_inv k s' \<and> (case contents (s_queue s) of
      [] \<Rightarrow> dequeue_call d s = Some (Dequeued False d, s') \<and> contents (s_queue s') = []
    | x # xs \<Rightarrow> dequeue_call d s = Some (Dequeued True x, s') \<and> contents (s_queue s') = xs)"
proof -
  have s: "spsc_inv k s" "s_threads s = [Idle, Idle]" using assms(1) by (simp_all add: quiet_inv_def)
  obtain n s' where n: "n \<le> 5" "acts (Call_dequeue 1 d # replicate n (Run 1 False)) s = Some s'"
    "s_threads s' = [Idle, Idle]" and r: "case contents (s_queue s) of
       [] \<Rightarrow> s_results s' = s_results s @ [(1, Dequeued False d)] \<and> contents (s_queue s') = []
     | x # xs \<Rightarrow> s_results s' = s_results s @ [(1, Dequeued True x)] \<and> contents (s_queue s') = xs"
    using dequeue_alone [OF s, of d] by blast
  obtain s1 where s1: "act (Call_dequeue 1 d) s = Some s1" "acts (replicate n (Run 1 False)) s1 = Some s'"
    using n(2) by (auto simp: bind_eq_Some_conv simp del: act.simps)
  have "finish 5 1 s1 = Some s'" using finish_runs [OF s1(2) n(1)] n(3) by simp
  moreover have "spsc_inv k s'" using acts_inv [OF s(1) n(2)] by (simp add: list_all_iff)
  ultimately have "dequeue_call d s = Some (last_result s', s')" "quiet_inv k s'"
    using s1(1) n by (simp_all add: dequeue_call_def quiet_inv_def del: act.simps)
  then show ?thesis using r by (intro exI [of _ s']) (auto simp: last_result_def split: list.splits)
qed

interpretation cas: bounded_fifo "quiet_inv k" "\<lambda>s. contents (s_queue s)" "2 ^ k - 1" enqueue_call dequeue_call for k
proof unfold_locales
  fix s :: "'a system" and x d y ys
  assume s: "quiet_inv k s"
  note len = quiet_length [OF s]
  show "length (contents (s_queue s)) \<le> 2 ^ k - 1" using len by linarith
  note enq = enqueue_call_cases [OF s, of x] and deq = dequeue_call_cases [OF s, of d]
  show "length (contents (s_queue s)) = 2 ^ k - 1 \<Longrightarrow> \<exists>s'. enqueue_call x s = Some (Enqueued False x, s') \<and>
      quiet_inv k s' \<and> contents (s_queue s') = contents (s_queue s)"
    using enq by simp
  show "length (contents (s_queue s)) < 2 ^ k - 1 \<Longrightarrow> \<exists>s'. enqueue_call x s = Some (Enqueued True x, s') \<and>
      quiet_inv k s' \<and> contents (s_queue s') = contents (s_queue s) @ [x]"
    using enq by (simp add: less_diff_conv)
  show "contents (s_queue s) = [] \<Longrightarrow> \<exists>s'. dequeue_call d s = Some (Dequeued False d, s') \<and>
      quiet_inv k s' \<and> contents (s_queue s') = []"
    using deq by auto
  show "contents (s_queue s) = y # ys \<Longrightarrow> \<exists>s'. dequeue_call d s = Some (Dequeued True y, s') \<and>
      quiet_inv k s' \<and> contents (s_queue s') = ys"
    using deq by auto
qed

section \<open>Progress\<close>

text \<open>How many own steps a thread still needs, when no compare-and-swap fails.\<close>

fun steps_left :: "'a pc \<Rightarrow> nat" where
  "steps_left Idle = 0"
| "steps_left (E_read x) = 6"
| "steps_left (E_write x r) = 5"
| "steps_left (E_cas x w) = 4"
| "steps_left (E_store x w) = 3"
| "steps_left (E_publish x w) = 2"
| "steps_left (E_count x) = 1"
| "steps_left (D_read d) = 5"
| "steps_left (D_last d r) = 4"
| "steps_left (D_data d r) = 3"
| "steps_left (D_cas d r) = 2"
| "steps_left (D_count d) = 1"

lemma producer_progress:
  assumes "producer_ok k q p" "enqueuing p" "thread_step False q p = Some (q', p', r)"
  shows "steps_left p' < steps_left p"
  using assms by (cases p) (auto simp: thread_step_def Let_def bind_eq_Some_conv split: if_splits)

lemma consumer_progress:
  assumes "consumer_ok q c" "\<not> enqueuing c" "thread_step False q c = Some (q', c', r)"
  shows "steps_left c' < steps_left c"
  using assms by (cases c) (auto simp: thread_step_def bind_eq_Some_conv split: if_splits)

lemma producer_enqueuing: "producer_ok k q p \<Longrightarrow> p \<noteq> Idle \<Longrightarrow> enqueuing p"
  by (cases p) simp_all

lemma consumer_not_enqueuing: "consumer_ok q c \<Longrightarrow> \<not> enqueuing c"
  by (cases c) simp_all

lemma reach_acts:
  assumes "acts as s = Some s'" "list_all spsc_action as" "spsc_reach d sz s"
  shows "spsc_reach d sz s'"
  using assms
proof (induction "as" arbitrary: s)
  case (Cons a as)
  then obtain s1 where "act a s = Some s1" "acts as s1 = Some s'" by (auto simp: bind_eq_Some_conv)
  with Cons show ?case using spsc_reach.act [of d sz s a s1] by simp
qed simp

lemma reach_size:
  assumes "spsc_reach d sz s" "1 \<le> unat sz" "unat sz \<le> 2147483648"
  obtains k where "1 \<le> k" "k \<le> 31" "ring_size sz = 2 ^ k" "spsc_inv k s" "unat (ring_size sz) = 2 ^ k"
proof -
  obtain k where "1 \<le> k" "k \<le> 31" "ring_size sz = 2 ^ k" using ring_size_exp [of sz] assms by auto
  then show ?thesis using spsc_reach_inv [OF assms(1)] unat_exp [of k] by (intro that) simp_all
qed

text \<open>Two elements in and one out, with the producer about to count the second one.\<close>

definition sample_run :: "nat action list" where
  "sample_run = Call_enqueue 0 7 # replicate 6 (Run 0 False) @ Call_enqueue 0 8 # Call_dequeue 1 0 #
     [Run 0 False, Run 1 False, Run 1 False, Run 0 True] @ replicate 3 (Run 1 False) @ replicate 3 (Run 0 False)"

definition sample_state :: "nat system" where
  "sample_state = the (acts sample_run (start 0 3 2))"

lemma sample_state: "acts sample_run (start 0 3 2) = Some sample_state"
  unfolding sample_state_def by code_simp

lemma sample_reach: "spsc_reach 0 3 sample_state"
proof (rule reach_acts [OF sample_state])
  show "list_all spsc_action sample_run" by (simp add: sample_run_def list_all_iff)
qed (rule spsc_reach.start)

section \<open>Properties\<close>

text \<open>
  C17: used by one call at a time, the queue is a bounded first-in-first-out list. For every size
  from 1 to \<open>2 ^ 31\<close> and every sequence of calls that do not overlap and meet no spurious failure of
  a compare-and-swap, each call returns, with the answer that a list of one element less than the
  ring has slots gives; the counters may wrap around.
\<close>

theorem queue_refines_list:
  assumes "1 \<le> unat sz" "unat sz \<le> 2147483648"
  shows "calls_with enqueue_call dequeue_call cs (start d sz 2) =
    Some (list_calls (unat (ring_size sz) - 1) cs [])"
proof -
  obtain k where k: "1 \<le> k" "k \<le> 31" "ring_size sz = 2 ^ k" using ring_size_exp [of sz] assms by auto
  then have "quiet_inv k (start d sz 2)"
    using spsc_inv_start [of sz k d] by (simp add: quiet_inv_def start_def numeral_2_eq_2)
  from cas.calls_refine [OF this, of cs] show ?thesis
    using k unat_exp [of k] by (simp add: start_def cas_queue_init_def contents_def items_def pending_def)
qed

theorem queue_refines_list_witness:
  "calls_with enqueue_call dequeue_call [Enq 1, Enq 2, Deq 0, Deq 0] (start (0 :: nat) 1 2) =
     Some [Enqueued True 1, Enqueued False 2, Dequeued True 1, Dequeued False 0]"
  using queue_refines_list [of 1 "[Enq 1, Enq 2, Deq 0, Deq 0]" "0 :: nat"] by (simp add: ring_size_def)

text \<open>
  C15: with one producer and one consumer, in every interleaving of their steps and with every
  choice of spurious failures, the elements published so far are the elements taken so far
  followed by the contents of the ring: nothing is lost, doubled or reordered, and at least one
  slot stays free.
\<close>

theorem spsc_fifo:
  assumes "spsc_reach d sz s" "1 \<le> unat sz" "unat sz \<le> 2147483648"
  shows "published s = taken s @ contents (s_queue s) \<and>
    length (contents (s_queue s)) < unat (ring_size sz)"
proof -
  obtain k where k: "spsc_inv k s" "unat (ring_size sz) = 2 ^ k" using reach_size [OF assms] by metis
  then have "length (contents (s_queue s)) < 2 ^ k"
    by (auto simp: spsc_inv_def spsc_ok_def contents_def items_def)
  then show ?thesis using k by (simp add: spsc_inv_def)
qed

theorem spsc_fifo_witness:
  "published sample_state = taken sample_state @ contents (s_queue sample_state) \<and>
   published sample_state = [7, 8] \<and> taken sample_state = [7]"
proof -
  have "published sample_state = [7, 8] \<and> taken sample_state = [7]" unfolding sample_state_def by code_simp
  moreover have "published sample_state = taken sample_state @ contents (s_queue sample_state)"
    using spsc_fifo [OF sample_reach] by simp
  ultimately show ?thesis by blast
qed

text \<open>
  C16: with one producer and one consumer no access leaves the ring, and a call returns after at
  most six steps of its own thread, whatever the other thread does in between, if no
  compare-and-swap fails spuriously.
\<close>

theorem spsc_wait_free:
  assumes "spsc_reach d sz s" "1 \<le> unat sz" "unat sz \<le> 2147483648"
    and "t < 2" "s_threads s ! t \<noteq> Idle"
  shows "\<exists>s'. act (Run t weak) s = Some s' \<and> s_threads s' ! (1 - t) = s_threads s ! (1 - t) \<and>
    (weak \<or> steps_left (s_threads s' ! t) < steps_left (s_threads s ! t)) \<and> steps_left (s_threads s ! t) \<le> 6"
proof -
  obtain k where "spsc_inv k s" using reach_size [OF assms(1-3)] by metis
  then obtain p c where s: "s_threads s = [p, c]" "spsc_ok k (s_queue s) p c" by (auto simp: spsc_inv_def)
  then have ok: "producer_ok k (s_queue s) p" "consumer_ok (s_queue s) c" by (simp_all add: spsc_ok_def)
  have six: "steps_left x \<le> 6" for x :: "'a pc" by (cases x) simp_all
  consider "t = 0" | "t = 1" using assms(4) by linarith
  then show ?thesis
  proof cases
    case 1
    then have "p \<noteq> Idle" using assms(5) s(1) by simp
    then obtain q' p' r where "thread_step weak (s_queue s) p = Some (q', p', r)"
      using producer_step [OF s(2)] by blast
    moreover have "weak \<or> steps_left p' < steps_left p"
      using producer_progress [OF ok(1) producer_enqueuing [OF ok(1) \<open>p \<noteq> Idle\<close>]] calculation by (cases weak) auto
    ultimately show ?thesis using 1 s(1) six by simp
  next
    case 2
    then have "c \<noteq> Idle" using assms(5) s(1) by simp
    then obtain q' c' r where "thread_step weak (s_queue s) c = Some (q', c', r)"
      using consumer_step [OF s(2)] by blast
    moreover have "weak \<or> steps_left c' < steps_left c"
      using consumer_progress [OF ok(2) consumer_not_enqueuing [OF ok(2)]] calculation by (cases weak) auto
    ultimately show ?thesis using 2 s(1) six by simp
  qed
qed

theorem spsc_wait_free_witness:
  "\<exists>s'. act (Run 0 False) sample_state = Some s' \<and> steps_left (s_threads s' ! 0) < 1"
proof -
  have "s_threads sample_state ! 0 = E_count 8" "s_threads sample_state ! 1 = Idle"
    unfolding sample_state_def by code_simp+
  then show ?thesis using spsc_wait_free [OF sample_reach, of 0 False] by auto
qed

text \<open>
  C18: \<open>size\<close> and \<open>empty\<close> are right whenever neither the producer nor the consumer is in the
  middle of counting an element.
\<close>

theorem spsc_size_exact:
  assumes "spsc_reach d sz s" "1 \<le> unat sz" "unat sz \<le> 2147483648"
    and "counting (s_threads s ! 0) = []" "counting (s_threads s ! 1) = []"
  shows "unat (cas_size (s_queue s)) = length (contents (s_queue s)) \<and>
    cas_empty (s_queue s) = (contents (s_queue s) = [])"
proof -
  obtain k where "spsc_inv k s" using reach_size [OF assms(1-3)] by metis
  then have "q_length (s_queue s) = q_last (s_queue s) - q_read (s_queue s)"
    using assms(4,5) by (auto simp: spsc_inv_def spsc_ok_def length_ok_def)
  then show ?thesis
    by (auto simp: cas_size_def cas_empty_def contents_def items_def pending_def unat_eq_zero simp flip: length_0_conv)
qed

theorem spsc_size_exact_witness:
  "unat (cas_size (s_queue (start (0 :: nat) 3 2))) = 0 \<and> cas_empty (s_queue (start (0 :: nat) 3 2))"
proof -
  have "s_threads (start (0 :: nat) 3 2) = [Idle, Idle]" "contents (s_queue (start (0 :: nat) 3 2)) = []"
    by (simp_all add: start_def contents_def items_def pending_def cas_queue_init_def numeral_2_eq_2)
  then show ?thesis
    using spsc_size_exact [OF spsc_reach.start [of "0 :: nat" 3]] by (simp add: start_def cas_queue_init_def)
qed

lemma start_4:
  "start d 4 n = \<lparr>s_queue = \<lparr>q_size = 4, q_length = 0, q_read = 0, q_write = 0, q_last = 0, q_slots = [d, d, d, d]\<rparr>,
     s_threads = replicate n Idle, s_results = []\<rparr>"
proof -
  have "replicate 4 d = [d, d, d, d]" by (simp add: eval_nat_numeral)
  then show ?thesis by (simp add: start_def cas_queue_init_def ring_size_def power_of_two_def)
qed

text \<open>
  The producer stops between publishing and counting; the consumer takes the element and counts
  it first.
\<close>

definition underflow_run :: "'a \<Rightarrow> 'a \<Rightarrow> 'a action list" where
  "underflow_run d x = [Call_enqueue 0 x, Run 0 False, Run 0 False, Run 0 False, Run 0 False, Run 0 False,
     Call_dequeue 1 d, Run 1 False, Run 1 False, Run 1 False, Run 1 False, Run 1 False]"

text \<open>
  C20: in the middle of an enqueue the length can wrap below zero: with one producer and one
  consumer the queue is empty, yet \<open>size\<close> answers 4294967295 and \<open>empty\<close> answers false.
\<close>

theorem length_underflow:
  "\<exists>s. acts (underflow_run d x) (start d 4 2) = Some s \<and> spsc_reach d 4 s \<and>
     contents (s_queue s) = [] \<and> cas_size (s_queue s) = 4294967295 \<and> \<not> cas_empty (s_queue s)"
proof -
  obtain s where s: "acts (underflow_run d x) (start d 4 2) = Some s"
     "contents (s_queue s) = []" "cas_size (s_queue s) = 4294967295" "\<not> cas_empty (s_queue s)"
    by (simp add: underflow_run_def start_4 replicate_2_3 thread_step_def Let_def index_of_queue_def
        contents_def items_def pending_def cas_size_def cas_empty_def)
  have "spsc_reach d 4 s" by (rule reach_acts [OF s(1)]) (simp_all add: underflow_run_def spsc_reach.start)
  with s show ?thesis by (intro exI [of _ s]) simp
qed

text \<open>
  Two producers. The first reserves slot 0 and stops before it stores. The second reserves and
  stores slot 1; its compare-and-swap of \<open>_last_write_idx\<close> fails because the first has not
  published, and replaces the expected value by the current one, so the next attempt succeeds
  and publishes slot 0. Then a consumer dequeues.
\<close>

definition race :: "'a \<Rightarrow> 'a \<Rightarrow> 'a \<Rightarrow> 'a action list" where
  "race d x y =
     [Call_enqueue 0 x, Run 0 False, Run 0 False, Run 0 False,
      Call_enqueue 1 y, Run 1 False, Run 1 False, Run 1 False, Run 1 False, Run 1 False, Run 1 False, Run 1 False,
      Call_dequeue 2 d, Run 2 False, Run 2 False, Run 2 False, Run 2 False, Run 2 False,
      Run 0 False, Run 0 False, Run 0 False, Run 0 False,
      Call_dequeue 2 d, Run 2 False, Run 2 False, Run 2 False, Run 2 False, Run 2 False,
      Call_dequeue 2 d, Run 2 False, Run 2 False]"

text \<open>Three idle threads and an empty ring of \<open>2 ^ k\<close> slots, whatever the counters and the slots hold.\<close>

definition race_ready :: "nat \<Rightarrow> 'a system \<Rightarrow> bool" where
  "race_ready k s \<longleftrightarrow> s_threads s = [Idle, Idle, Idle] \<and> ring_ok (s_queue s) k \<and>
     q_write (s_queue s) = q_last (s_queue s) \<and> q_read (s_queue s) = q_last (s_queue s)"

lemma race_ready_start:
  assumes "3 \<le> unat sz" "unat sz \<le> 2147483648"
  shows "\<exists>k \<ge> 2. race_ready k (start d sz 3)"
proof -
  obtain k where k: "1 \<le> k" "k \<le> 31" "ring_size sz = 2 ^ k" "unat sz \<le> 2 ^ k"
    using ring_size_exp [of sz] assms by auto
  then have "2 \<le> k" using assms(1) by (cases "k = 1") simp_all
  then show ?thesis
    using k unat_exp [of k] by (auto simp: race_ready_def start_def cas_queue_init_def ring_ok_def replicate_2_3)
qed

text \<open>The three neighbouring slots that the race uses are different.\<close>

lemma race_slots:
  assumes "ring_ok q k" "2 \<le> k"
  shows "index_of_queue q (w + 1) \<noteq> index_of_queue q w" "index_of_queue q (w + 2) \<noteq> index_of_queue q w"
    "index_of_queue q (w + 2) \<noteq> index_of_queue q (w + 1)"
    "index_of_queue q w < length (q_slots q)" "index_of_queue q (w + 1) < length (q_slots q)"
proof -
  have k: "q_size q = 2 ^ k" "k < 32" "length (q_slots q) = 2 ^ k" using assms(1) by (simp_all add: ring_ok_def)
  have "(2 :: nat) ^ 2 \<le> 2 ^ k" using assms(2) by (intro power_increasing) simp_all
  then have less: "unat (1 :: u32) < 2 ^ k" "unat (2 :: u32) < 2 ^ k" by simp_all
  have near: "index_of_queue q (a + n) \<noteq> index_of_queue q a" if "unat n < 2 ^ k" "n \<noteq> 0" for a n
    using index_eq_iff [OF k(1,2), of "a + n" a] that by (metis add_diff_cancel_left' add_cancel_left_right)
  show "index_of_queue q (w + 1) \<noteq> index_of_queue q w" "index_of_queue q (w + 2) \<noteq> index_of_queue q w"
    using near less by simp_all
  show "index_of_queue q (w + 2) \<noteq> index_of_queue q (w + 1)"
    using near [of 1 "w + 1"] less by (simp add: add.assoc)
  show "index_of_queue q w < length (q_slots q)" "index_of_queue q (w + 1) < length (q_slots q)"
    using index_bound [OF k(1,2)] k(3) by simp_all
qed

text \<open>
  C19: with two producers the queue is not safe, at any time in its life. From every state with an
  empty ring of at least four slots and three idle threads, whatever the counters and the slots
  hold, a schedule without any spurious failure is possible on which both enqueues report success,
  but the consumer is handed the stale content of a slot where neither element is, then \<open>y\<close>, then
  nothing: \<open>x\<close> is never delivered. The state left is again such a state, so elements can be lost
  without end.
\<close>

theorem two_producers_lose_element:
  fixes s :: "'a system"
  assumes "race_ready k s" "2 \<le> k"
  defines "stale \<equiv> q_slots (s_queue s) ! index_of_queue (s_queue s) (q_last (s_queue s))"
  shows "\<exists>s'. acts (race d x y) s = Some s' \<and> race_ready k s' \<and>
     s_results s' = s_results s @ [(1, Enqueued True y), (2, Dequeued True stale), (0, Enqueued True x),
       (2, Dequeued True y), (2, Dequeued False d)]"
proof -
  obtain q rs where s: "s = \<lparr>s_queue = q, s_threads = [Idle, Idle, Idle], s_results = rs\<rparr>"
    using assms(1) by (cases s) (auto simp: race_ready_def)
  obtain n l w slots where q: "q = \<lparr>q_size = n, q_length = l, q_read = w, q_write = w, q_last = w, q_slots = slots\<rparr>"
    using assms(1) s by (cases q) (auto simp: race_ready_def)
  have ring: "ring_ok q k" using assms(1) s by (simp add: race_ready_def)
  define f where "f = (\<lambda>i :: u32. unat (i AND (n - 1)))"
  have f: "index_of_queue \<lparr>q_size = n, q_length = l, q_read = r, q_write = u, q_last = v, q_slots = t\<rparr> = f"
    for l r u v and t :: "'a list" by (simp add: fun_eq_iff index_of_queue_def f_def)
  have slots: "f (w + 1) \<noteq> f w" "f (w + 2) \<noteq> f w" "f (w + 2) \<noteq> f (w + 1)" "f w < length slots" "f (w + 1) < length slots"
    using race_slots [OF ring assms(2), of w] by (simp_all add: q f)
  let ?q = "\<lparr>q_size = n, q_length = l, q_read = w + 2, q_write = w + 2, q_last = w + 2,
    q_slots = slots[f (w + 1) := y, f w := x]\<rparr>"
  have "acts (race d x y) s = Some \<lparr>s_queue = ?q, s_threads = [Idle, Idle, Idle],
      s_results = rs @ [(1, Enqueued True y), (2, Dequeued True stale), (0, Enqueued True x),
        (2, Dequeued True y), (2, Dequeued False d)]\<rparr>"
    using slots slots(1-3) [symmetric]
    by (simp add: race_def stale_def s q f thread_step_def Let_def add.assoc)
  moreover have "ring_ok ?q k" using ring by (simp add: ring_ok_def q)
  ultimately show ?thesis by (simp add: race_ready_def s)
qed

theorem two_producers_lose_element_witness:
  "\<exists>s. acts (race 0 7 8) (start (0 :: nat) 4 3) = Some s \<and> s_threads s = [Idle, Idle, Idle] \<and>
     s_results s = [(1, Enqueued True 8), (2, Dequeued True 0), (0, Enqueued True 7),
       (2, Dequeued True 8), (2, Dequeued False 0)]"
proof -
  have "race_ready 2 (start (0 :: nat) 4 3)" by (simp add: race_ready_def ring_ok_def start_4 replicate_2_3)
  from two_producers_lose_element [OF this, of 0 7 8] show ?thesis
    by (auto simp: race_ready_def start_4 index_of_queue_def)
qed

text \<open>
  C21: the size of the ring, for every request from 1 to \<open>2 ^ 31\<close>: the least power of two that is
  at least the request and at least two, since one slot always stays free. A request of one so
  gets two slots.
\<close>

theorem ring_size_least:
  assumes "1 \<le> unat sz" "unat sz \<le> 2147483648"
  shows "power_of_two (ring_size sz) \<and> max 2 (unat sz) \<le> unat (ring_size sz) \<and>
    (\<forall>n. power_of_two n \<longrightarrow> max 2 (unat sz) \<le> unat n \<longrightarrow> unat (ring_size sz) \<le> unat n)"
proof -
  obtain k where k: "1 \<le> k" "k \<le> 31" "ring_size sz = 2 ^ k" "unat sz \<le> 2 ^ k"
    "2 ^ k < 2 * unat sz \<or> unat sz = 1 \<and> k = 1"
    using ring_size_exp [of sz] assms by auto
  then have u: "unat (ring_size sz) = 2 ^ k" using unat_exp [of k] by simp
  have two: "(2 :: nat) \<le> 2 ^ k" using k(1) by (metis one_le_numeral power_increasing power_one_right)
  have "2 ^ k \<le> unat n" if n: "power_of_two n" "max 2 (unat sz) \<le> unat n" for n
  proof -
    obtain h where h: "h < 32" "n = 2 ^ h" using power_of_two_exp [OF n(1)] by blast
    then have un: "unat n = 2 ^ h" by (simp add: unat_exp)
    then have "(2 :: nat) ^ k < 2 ^ Suc h" using k(5) n(2) by auto
    then have "k \<le> h" using power_less_imp_less_exp [of "2 :: nat" k "Suc h"] by simp
    then show ?thesis using un by simp
  qed
  then show ?thesis using u k two exp_power_of_two [of k] by simp
qed

theorem ring_size_least_witness:
  "2 \<le> unat (ring_size 1) \<and> unat (5 :: u32) \<le> unat (ring_size 5) \<and> ring_size 1 = 2 \<and> ring_size 5 = 8"
  using ring_size_least [of 5] ring_size_least [of 1]
  by (simp add: ring_size_def power_of_two_def roundup_power_of_two_def ceil_power_of_two_def)

text \<open>
  Outside that range: for a size of 0 the constructor allocates \<open>2 ^ 31\<close> slots, above
  \<open>2 ^ 31\<close> the size wraps to a smaller ring or to none.
\<close>

lemma ring_size_extremes: "ring_size 0 = 2147483648 \<and> ring_size 2147483649 = 0"
  by code_simp

end
