(* ===== verification/Thread_Pool.thy ===== *)
theory Thread_Pool
  imports C_Base
begin

text \<open>
  The thread pool of \<open>common/thread_pool/thread_pool.c\<close>: a fixed number of contexts, data handed
  to them in turn, a thread started for a context when the first data for it arrives.

  What the pool calls and does not contain (\<open>calloc\<close>, \<open>pthread_create\<close>, the client's \<open>push_cb\<close>)
  is an environment: its answer may depend on everything that has happened so far, so it is a
  function of the log of events. The log also records what the pool does to the outside:
  allocations, threads started and cancelled, data pushed, blocks freed. A \<open>void *\<close> or a function
  pointer is a \<open>ptr\<close>, with \<open>None\<close> for \<open>NULL\<close>; the pool itself never looks behind it.
\<close>

section \<open>Data\<close>

type_synonym ptr = "nat option"

datatype event =
    Alloc nat                  \<comment> \<open>\<open>calloc\<close> returned this block\<close>
  | No_memory                  \<comment> \<open>\<open>calloc\<close> returned null\<close>
  | Free nat
  | Create ptr ptr nat int     \<comment> \<open>\<open>pthread_create\<close>: start routine, argument, identifier, returned code\<close>
  | Push ptr ptr ptr u32 int   \<comment> \<open>\<open>push_cb\<close>: function, parameters, data, length, returned code\<close>
  | Cancel nat                 \<comment> \<open>\<open>pthread_cancel\<close>\<close>

type_synonym log = "event list" \<comment> \<open>oldest first\<close>

record pool_env =
  env_calloc :: "log \<Rightarrow> ptr"
  env_create :: "log \<Rightarrow> ptr \<Rightarrow> ptr \<Rightarrow> nat \<times> int"
  env_push :: "log \<Rightarrow> ptr \<Rightarrow> ptr \<Rightarrow> ptr \<Rightarrow> u32 \<Rightarrow> int"

text \<open>\<open>thread_context_t\<close>, \<open>struct thread_pool\<close> and \<open>pool_params_t\<close>.\<close>

record thread_context =
  ctx_id :: nat
  ctx_params :: ptr
  is_running :: bool

record thread_pool =
  pool_block :: nat                   \<comment> \<open>the address of the structure\<close>
  curr_thread_index :: u8
  thread_cb :: ptr
  push_cb :: ptr
  contexts_block :: nat               \<comment> \<open>\<open>p_contexts\<close>, and the array there\<close>
  contexts :: "thread_context list"
  thread_count :: u8

record pool_params =
  pp_thread_cb :: ptr
  pp_thread_params :: "ptr list option" \<comment> \<open>the array behind \<open>pp_thread_params\<close>\<close>
  pp_push_cb :: ptr
  pp_thread_count :: u8

section \<open>Calls to the environment\<close>

definition call_calloc :: "pool_env \<Rightarrow> log \<Rightarrow> ptr \<times> log" where
  "call_calloc env l = (let r = env_calloc env l in
     (r, case r of None \<Rightarrow> l @ [No_memory] | Some b \<Rightarrow> l @ [Alloc b]))"

text \<open>A call through a null function pointer is undefined.\<close>

definition call_create :: "pool_env \<Rightarrow> log \<Rightarrow> ptr \<Rightarrow> ptr \<Rightarrow> (nat \<times> int \<times> log) option" where
  "call_create env l cb arg = (if cb = None then None else
     (let (t, r) = env_create env l cb arg in Some (t, r, l @ [Create cb arg t r])))"

definition call_push :: "pool_env \<Rightarrow> log \<Rightarrow> ptr \<Rightarrow> ptr \<Rightarrow> ptr \<Rightarrow> u32 \<Rightarrow> (int \<times> log) option" where
  "call_push env l cb arg p_data data_len = (if cb = None then None else
     (let r = env_push env l cb arg p_data data_len in Some (r, l @ [Push cb arg p_data data_len r])))"

section \<open>Creating a pool\<close>

function init_thread_contexts ::
    "thread_context list \<Rightarrow> ptr list option \<Rightarrow> u8 \<Rightarrow> u8 \<Rightarrow> thread_context list option" where
  "init_thread_contexts p_contexts pp_params n i =
     (if i < n then do {
        ps \<leftarrow> pp_params;
        p \<leftarrow> rd ps (unat i);
        c \<leftarrow> rd p_contexts (unat i);
        p_contexts \<leftarrow> wr p_contexts (unat i) (c\<lparr>ctx_params := p, is_running := False\<rparr>);
        init_thread_contexts p_contexts pp_params n (i + 1) }
      else Some p_contexts)"
  by pat_completeness auto
termination
  by (relation "measure (\<lambda>(_, _, n, i). unat n - unat i)") (auto simp: unat_inc unat_less)

declare init_thread_contexts.simps [simp del]

definition check_params :: "pool_params option \<Rightarrow> bool" where
  "check_params p_params = (case p_params of None \<Rightarrow> False
     | Some p \<Rightarrow> pp_thread_cb p \<noteq> None \<and> pp_push_cb p \<noteq> None \<and> pp_push_cb p \<noteq> None \<and> 0 < pp_thread_count p)"

definition zeroed_context :: thread_context where
  "zeroed_context = \<lparr>ctx_id = 0, ctx_params = None, is_running = False\<rparr>"

definition create_thread_pool ::
    "pool_env \<Rightarrow> log \<Rightarrow> pool_params option \<Rightarrow> (thread_pool option \<times> log) option" where
  "create_thread_pool env l p_params =
     (if \<not> check_params p_params then Some (None, l)
      else do {
        p \<leftarrow> p_params;
        let (p_pool, l) = call_calloc env l;
        let (p_contexts, l) = call_calloc env l;
        case (p_contexts, p_pool) of
          (Some cb, Some pb) \<Rightarrow> do {
            cs \<leftarrow> init_thread_contexts (replicate (unat (pp_thread_count p)) zeroed_context)
                   (pp_thread_params p) (pp_thread_count p) 0;
            Some (Some \<lparr>pool_block = pb, curr_thread_index = 0, thread_cb = pp_thread_cb p,
                        push_cb = pp_push_cb p, contexts_block = cb, contexts = cs,
                        thread_count = pp_thread_count p\<rparr>, l) }
        | _ \<Rightarrow> Some (None, l) })"

section \<open>Pushing data\<close>

text \<open>The thread of context number \<open>i\<close>; the returned code, the pool and the log.\<close>

definition push_to_new_thread ::
    "pool_env \<Rightarrow> log \<Rightarrow> thread_pool \<Rightarrow> nat \<Rightarrow> ptr \<Rightarrow> u32 \<Rightarrow> (int \<times> thread_pool \<times> log) option" where
  "push_to_new_thread env l p_pool i p_data data_len = do {
     c \<leftarrow> rd (contexts p_pool) i;
     (t, result, l) \<leftarrow> call_create env l (thread_cb p_pool) (ctx_params c);
     let c = c\<lparr>ctx_id := t\<rparr>;
     let p_pool = p_pool\<lparr>contexts := (contexts p_pool)[i := c]\<rparr>;
     if result = 0 then do {
       (result, l) \<leftarrow> call_push env l (push_cb p_pool) (ctx_params c) p_data data_len;
       Some (result, p_pool\<lparr>contexts := (contexts p_pool)[i := c\<lparr>is_running := True\<rparr>]\<rparr>, l) }
     else Some (result, p_pool, l) }"

text \<open>\<open>(uint8_t)(result + 1) % thread_count\<close>; a division by zero is undefined.\<close>

definition get_thread_index :: "thread_pool \<Rightarrow> (u8 \<times> thread_pool) option" where
  "get_thread_index p_pool =
     (if thread_count p_pool = 0 then None
      else let result = curr_thread_index p_pool in
        Some (result, p_pool\<lparr>curr_thread_index := (result + 1) mod thread_count p_pool\<rparr>))"

definition thread_pool_push_data ::
    "pool_env \<Rightarrow> log \<Rightarrow> thread_pool option \<Rightarrow> ptr \<Rightarrow> u32 \<Rightarrow> (int \<times> thread_pool option \<times> log) option" where
  "thread_pool_push_data env l pool p_data data_len = (case pool of
     None \<Rightarrow> Some (-1, None, l)
   | Some p_pool \<Rightarrow> do {
       (i, p_pool) \<leftarrow> get_thread_index p_pool;
       if thread_count p_pool \<le> i then Some (-1, Some p_pool, l)
       else do {
         c \<leftarrow> rd (contexts p_pool) (unat i);
         if is_running c then do {
           (r, l) \<leftarrow> call_push env l (push_cb p_pool) (ctx_params c) p_data data_len;
           Some (r, Some p_pool, l) }
         else do {
           (r, p_pool, l) \<leftarrow> push_to_new_thread env l p_pool (unat i) p_data data_len;
           Some (r, Some p_pool, l) } } })"

section \<open>Destroying a pool\<close>

function cancel_loop :: "log \<Rightarrow> thread_context list \<Rightarrow> u8 \<Rightarrow> u8 \<Rightarrow> (thread_context list \<times> log) option" where
  "cancel_loop l p_contexts n i =
     (if i < n then do {
        c \<leftarrow> rd p_contexts (unat i);
        if is_running c then
          cancel_loop (l @ [Cancel (ctx_id c)]) (p_contexts[unat i := c\<lparr>is_running := False\<rparr>]) n (i + 1)
        else cancel_loop l p_contexts n (i + 1) }
      else Some (p_contexts, l))"
  by pat_completeness auto
termination
  by (relation "measure (\<lambda>(_, _, n, i). unat n - unat i)") (auto simp: unat_inc unat_less)

declare cancel_loop.simps [simp del]

definition cancel_all_thread :: "log \<Rightarrow> thread_pool \<Rightarrow> (thread_pool \<times> log) option" where
  "cancel_all_thread l p_pool = do {
     (cs, l) \<leftarrow> cancel_loop l (contexts p_pool) (thread_count p_pool) 0;
     Some (p_pool\<lparr>contexts := cs\<rparr>, l) }"

text \<open>\<open>p_contexts\<close> of a pool is never null, since \<open>create_thread_pool\<close> returns none without it.\<close>

definition destroy_thread_pool :: "log \<Rightarrow> thread_pool option \<Rightarrow> log option" where
  "destroy_thread_pool l pool = (case pool of None \<Rightarrow> Some l
   | Some p_pool \<Rightarrow> do {
       (p_pool, l) \<leftarrow> cancel_all_thread l p_pool;
       Some (l @ [Free (contexts_block p_pool), Free (pool_block p_pool)]) })"

section \<open>The contract of a pool\<close>

text \<open>
  What a client of a pool relies on: from a good pool every push returns and gives a good pool,
  the threads started and not yet stopped are the running ones, never more than there are slots,
  and destroying the pool stops exactly these.
\<close>

fun run_ops :: "('l \<Rightarrow> 'p \<Rightarrow> 'd \<Rightarrow> ('r \<times> 'p \<times> 'l) option) \<Rightarrow> 'l \<Rightarrow> 'p \<Rightarrow> 'd list \<Rightarrow> ('r list \<times> 'p \<times> 'l) option" where
  "run_ops step l p [] = Some ([], p, l)"
| "run_ops step l p (d # ds) = do {
     (r, p, l) \<leftarrow> step l p d;
     (rs, p, l) \<leftarrow> run_ops step l p ds;
     Some (r # rs, p, l) }"

locale worker_pool =
  fixes ok :: "'p \<Rightarrow> bool"
    and running :: "'p \<Rightarrow> 'w multiset"
    and slots :: "'p \<Rightarrow> nat"
    and push :: "'l \<Rightarrow> 'p \<Rightarrow> 'd \<Rightarrow> ('r \<times> 'p \<times> 'l) option"
    and destroy :: "'l \<Rightarrow> 'p \<Rightarrow> 'l option"
    and started stopped :: "'l \<Rightarrow> 'w multiset"
  assumes push_law: "ok p \<Longrightarrow> \<exists>r p' l'. push l p d = Some (r, p', l') \<and> ok p' \<and> slots p' = slots p \<and>
      stopped l' = stopped l \<and> started l' + running p = started l + running p'"
    and running_slots: "ok p \<Longrightarrow> size (running p) \<le> slots p"
    and destroy_law: "ok p \<Longrightarrow> \<exists>l'. destroy l p = Some l' \<and> started l' = started l \<and> stopped l' = stopped l + running p"
begin

lemma run_law:
  "ok p \<Longrightarrow> \<exists>rs p' l'. run_ops push l p ds = Some (rs, p', l') \<and> ok p' \<and> slots p' = slots p \<and>
     stopped l' = stopped l \<and> started l' + running p = started l + running p'"
proof (induction ds arbitrary: l p)
  case (Cons d ds)
  obtain r p1 l1 where 1: "push l p d = Some (r, p1, l1)" "ok p1" "slots p1 = slots p"
    "stopped l1 = stopped l" "started l1 + running p = started l + running p1"
    using push_law [OF Cons.prems, of l d] by blast
  obtain rs p2 l2 where 2: "run_ops push l1 p1 ds = Some (rs, p2, l2)" "ok p2" "slots p2 = slots p1"
    "stopped l2 = stopped l1" "started l2 + running p1 = started l1 + running p2"
    using Cons.IH [OF 1(2), of l1] by blast
  have "(started l2 + running p) + running p1 = (started l2 + running p1) + running p" by (simp only: ac_simps)
  also have "\<dots> = (started l1 + running p) + running p2" unfolding 2(5) by (simp only: ac_simps)
  also have "\<dots> = (started l + running p2) + running p1" unfolding 1(5) by (simp only: ac_simps)
  finally have "started l2 + running p = started l + running p2" by simp
  with 1 2 show ?case by simp
qed simp

text \<open>A whole life: pushes to a pool without running threads, then its destruction.\<close>

lemma life_law:
  assumes "ok p" "running p = {#}"
  shows "\<exists>rs p' l1 l2. run_ops push l p ds = Some (rs, p', l1) \<and> destroy l1 p' = Some l2 \<and>
    stopped l2 + started l = stopped l + started l2 \<and> size (started l2) \<le> size (started l) + slots p"
proof -
  obtain rs p' l1 where 1: "run_ops push l p ds = Some (rs, p', l1)" "ok p'" "slots p' = slots p"
    "stopped l1 = stopped l" "started l1 = started l + running p'"
    using run_law [OF assms(1), of l ds] assms(2) by auto
  obtain l2 where 2: "destroy l1 p' = Some l2" "started l2 = started l1" "stopped l2 = stopped l1 + running p'"
    using destroy_law [OF 1(2)] by blast
  show ?thesis
    using 1 2 running_slots [OF 1(2)] by (simp add: ac_simps)
qed

end

section \<open>What the log says\<close>

fun started_by :: "event \<Rightarrow> nat multiset" where
  "started_by (Create cb arg t r) = (if r = 0 then {#t#} else {#})"
| "started_by _ = {#}"

fun stopped_by :: "event \<Rightarrow> nat multiset" where
  "stopped_by (Cancel t) = {#t#}"
| "stopped_by _ = {#}"

fun taken_by :: "event \<Rightarrow> nat multiset" where
  "taken_by (Alloc b) = {#b#}"
| "taken_by _ = {#}"

fun given_by :: "event \<Rightarrow> nat multiset" where
  "given_by (Free b) = {#b#}"
| "given_by _ = {#}"

definition total :: "(event \<Rightarrow> nat multiset) \<Rightarrow> log \<Rightarrow> nat multiset" where
  "total f l = sum_list (map f l)"

abbreviation "started_threads \<equiv> total started_by"
abbreviation "stopped_threads \<equiv> total stopped_by"
abbreviation "allocated_blocks \<equiv> total taken_by"
abbreviation "freed_blocks \<equiv> total given_by"

lemma total_simps [simp]:
  "total f [] = {#}" "total f (l @ l') = total f l + total f l'" "total f (e # l) = f e + total f l"
  by (simp_all add: total_def)

fun pushed_by :: "event \<Rightarrow> (ptr \<times> ptr \<times> u32) list" where
  "pushed_by (Push cb arg d n r) = [(arg, d, n)]"
| "pushed_by _ = []"

definition pushed :: "log \<Rightarrow> (ptr \<times> ptr \<times> u32) list" where
  "pushed l = concat (map pushed_by l)"

lemma pushed_simps [simp]: "pushed [] = []" "pushed (l @ l') = pushed l @ pushed l'" "pushed (e # l) = pushed_by e @ pushed l"
  by (simp_all add: pushed_def)

section \<open>The invariant of a pool\<close>

definition pool_ok :: "thread_pool \<Rightarrow> bool" where
  "pool_ok p \<longleftrightarrow> 0 < thread_count p \<and> length (contexts p) = unat (thread_count p) \<and>
     curr_thread_index p < thread_count p \<and> thread_cb p \<noteq> None \<and> push_cb p \<noteq> None"

definition running_ids :: "thread_context list \<Rightarrow> nat multiset" where
  "running_ids cs = mset (map ctx_id (filter is_running cs))"

lemma running_ids_simps [simp]:
  "running_ids [] = {#}" "running_ids (c # cs) = (if is_running c then {#ctx_id c#} else {#}) + running_ids cs"
  "running_ids (cs @ cs') = running_ids cs + running_ids cs'"
  by (simp_all add: running_ids_def)

lemma running_ids_replace:
  assumes "i < length cs"
  shows "running_ids (cs[i := c]) + running_ids [cs ! i] = running_ids cs + running_ids [c]"
proof -
  have cs: "cs = take i cs @ cs ! i # drop (Suc i) cs" using assms by (rule id_take_nth_drop)
  have "cs[i := c] = take i cs @ c # drop (Suc i) cs" using assms by (rule upd_conv_take_nth_drop)
  then show ?thesis by (subst (3) cs) (simp add: ac_simps)
qed

section \<open>Pushing, branch by branch\<close>

definition turn :: "thread_pool \<Rightarrow> nat" where
  "turn p = unat (curr_thread_index p)"

definition advance :: "thread_pool \<Rightarrow> thread_pool" where
  "advance p = p\<lparr>curr_thread_index := (curr_thread_index p + 1) mod thread_count p\<rparr>"

lemma turn_less: "pool_ok p \<Longrightarrow> turn p < length (contexts p)"
  by (simp add: pool_ok_def turn_def unat_less)

lemma turn_advance: "pool_ok p \<Longrightarrow> turn (advance p) = Suc (turn p) mod length (contexts p)"
  by (simp add: pool_ok_def turn_def advance_def unat_mod_distrib unat_inc [of _ "thread_count p"])

lemma pool_ok_advance:
  assumes "pool_ok p"
  shows "pool_ok (advance p)"
proof -
  have "(curr_thread_index p + 1) mod thread_count p < thread_count p"
    using assms by (simp add: pool_ok_def unat_less unat_mod_distrib)
  with assms show ?thesis by (simp add: pool_ok_def advance_def)
qed

lemma pool_ok_contexts [simp]:
  "length cs = length (contexts p) \<Longrightarrow> pool_ok (p\<lparr>contexts := cs\<rparr>) \<longleftrightarrow> pool_ok p"
  by (simp add: pool_ok_def)

lemma advance_select [simp]: "contexts (advance p) = contexts p" "thread_cb (advance p) = thread_cb p"
  "push_cb (advance p) = push_cb p" "thread_count (advance p) = thread_count p"
  "pool_block (advance p) = pool_block p" "contexts_block (advance p) = contexts_block p"
  by (simp_all add: advance_def)

lemma get_thread_index_ok: "pool_ok p \<Longrightarrow> get_thread_index p = Some (curr_thread_index p, advance p)"
  by (auto simp: get_thread_index_def advance_def pool_ok_def Let_def)

lemma push_selected:
  assumes "pool_ok p"
  shows "thread_pool_push_data env l (Some p) d n =
    (let c = contexts p ! turn p in
     if is_running c then map_option (\<lambda>(r, l). (r, Some (advance p), l)) (call_push env l (push_cb p) (ctx_params c) d n)
     else map_option (\<lambda>(r, p, l). (r, Some p, l)) (push_to_new_thread env l (advance p) (turn p) d n))"
proof -
  have "\<not> thread_count p \<le> curr_thread_index p" using assms by (simp add: pool_ok_def not_le)
  then show ?thesis
    using turn_less [OF assms] assms
    by (auto simp: thread_pool_push_data_def get_thread_index_ok Let_def turn_def map_option_case split: option.splits)
qed

lemma push_to_running:
  assumes "pool_ok p" "is_running (contexts p ! turn p)"
  shows "thread_pool_push_data env l (Some p) d n =
    (let c = contexts p ! turn p; r = env_push env l (push_cb p) (ctx_params c) d n
     in Some (r, Some (advance p), l @ [Push (push_cb p) (ctx_params c) d n r]))"
proof -
  have "push_cb p \<noteq> None" using assms(1) by (simp add: pool_ok_def)
  with assms show ?thesis by (auto simp: push_selected call_push_def Let_def)
qed

lemma push_create_fails:
  assumes "pool_ok p" "\<not> is_running (contexts p ! turn p)"
    and "env_create env l (thread_cb p) (ctx_params (contexts p ! turn p)) = (t, r)" "r \<noteq> 0"
  shows "thread_pool_push_data env l (Some p) d n =
    (let c = contexts p ! turn p
     in Some (r, Some ((advance p)\<lparr>contexts := (contexts p)[turn p := c\<lparr>ctx_id := t\<rparr>]\<rparr>),
              l @ [Create (thread_cb p) (ctx_params c) t r]))"
proof -
  have "thread_cb p \<noteq> None" using assms(1) by (simp add: pool_ok_def)
  with assms turn_less [OF assms(1)] show ?thesis
    by (auto simp: push_selected push_to_new_thread_def call_create_def Let_def)
qed

lemma push_creates:
  assumes "pool_ok p" "\<not> is_running (contexts p ! turn p)"
    and "env_create env l (thread_cb p) (ctx_params (contexts p ! turn p)) = (t, 0)"
  shows "thread_pool_push_data env l (Some p) d n =
    (let c = contexts p ! turn p; l1 = l @ [Create (thread_cb p) (ctx_params c) t 0];
         r = env_push env l1 (push_cb p) (ctx_params c) d n
     in Some (r, Some ((advance p)\<lparr>contexts := (contexts p)[turn p := c\<lparr>ctx_id := t, is_running := True\<rparr>]\<rparr>),
              l1 @ [Push (push_cb p) (ctx_params c) d n r]))"
proof -
  have "thread_cb p \<noteq> None" "push_cb p \<noteq> None" using assms(1) by (simp_all add: pool_ok_def)
  with assms turn_less [OF assms(1)] show ?thesis
    by (auto simp: push_selected push_to_new_thread_def call_create_def call_push_def Let_def)
qed

section \<open>Every push keeps the contract\<close>

definition opt_ok :: "thread_pool option \<Rightarrow> bool" where
  "opt_ok pool = (case pool of None \<Rightarrow> True | Some p \<Rightarrow> pool_ok p)"

definition opt_running :: "thread_pool option \<Rightarrow> nat multiset" where
  "opt_running pool = (case pool of None \<Rightarrow> {#} | Some p \<Rightarrow> running_ids (contexts p))"

definition opt_slots :: "thread_pool option \<Rightarrow> nat" where
  "opt_slots pool = (case pool of None \<Rightarrow> 0 | Some p \<Rightarrow> unat (thread_count p))"

definition pool_push :: "pool_env \<Rightarrow> log \<Rightarrow> thread_pool option \<Rightarrow> ptr \<times> u32 \<Rightarrow> (int \<times> thread_pool option \<times> log) option" where
  "pool_push env l pool d = thread_pool_push_data env l pool (fst d) (snd d)"

lemma running_ids_upd:
  assumes "i < length cs" "\<not> is_running (cs ! i)"
  shows "running_ids (cs[i := c]) = running_ids cs + running_ids [c]"
  using running_ids_replace [OF assms(1), of c] assms(2) by simp

lemma push_keeps:
  assumes "pool_ok p"
  shows "\<exists>r p' l'. thread_pool_push_data env l (Some p) d n = Some (r, Some p', l') \<and> pool_ok p' \<and>
    thread_count p' = thread_count p \<and> map ctx_params (contexts p') = map ctx_params (contexts p) \<and>
    turn p' = Suc (turn p) mod length (contexts p) \<and> pool_block p' = pool_block p \<and> contexts_block p' = contexts_block p \<and>
    stopped_threads l' = stopped_threads l \<and> allocated_blocks l' = allocated_blocks l \<and> freed_blocks l' = freed_blocks l \<and>
    started_threads l' + running_ids (contexts p) = started_threads l + running_ids (contexts p')"
proof -
  let ?c = "contexts p ! turn p"
  have turn': "turn ((advance p)\<lparr>contexts := cs\<rparr>) = turn (advance p)" for cs by (simp add: turn_def)
  have params: "map ctx_params ((contexts p)[turn p := c]) = map ctx_params (contexts p)"
    if "ctx_params c = ctx_params ?c" for c
    using that by (simp add: map_update) (metis list_update_id map_update)
  note t = turn_less [OF assms] turn_advance [OF assms] pool_ok_advance [OF assms]
  obtain t r where cr: "env_create env l (thread_cb p) (ctx_params ?c) = (t, r)" by fastforce
  consider "is_running ?c" | "\<not> is_running ?c" "r \<noteq> 0" | "\<not> is_running ?c" "r = 0" by blast
  then show ?thesis
  proof cases
    case 1
    then show ?thesis using t by (simp add: push_to_running [OF assms 1] Let_def)
  next
    case 2
    then show ?thesis
      using t by (simp add: push_create_fails [OF assms 2(1) cr 2(2)] Let_def turn' params running_ids_upd)
  next
    case 3
    note cr = cr [unfolded 3(2)]
    show ?thesis
      using t 3 by (simp add: push_creates [OF assms 3(1) cr] Let_def turn' params running_ids_upd)
  qed
qed

section \<open>Destroying\<close>

definition stop_context :: "thread_context \<Rightarrow> thread_context" where
  "stop_context c = c\<lparr>is_running := False\<rparr>"

lemma stop_context_idle: "\<not> is_running c \<Longrightarrow> stop_context c = c"
  by (simp add: stop_context_def)

lemma cancel_loop_ok:
  assumes "length cs = unat n"
  shows "cancel_loop l cs n i = Some (take (unat i) cs @ map stop_context (drop (unat i) cs),
    l @ map (\<lambda>c. Cancel (ctx_id c)) (filter is_running (drop (unat i) cs)))"
  using assms
proof (induction l cs n i rule: cancel_loop.induct)
  case (1 l cs n i)
  show ?case
  proof (cases "i < n")
    case False
    with 1 show ?thesis by (simp add: cancel_loop.simps unat_less)
  next
    case True
    let ?c = "cs ! unat i"
    have i: "unat i < length cs" using True "1.prems" by (simp add: unat_less)
    have drop: "drop (unat i) cs = ?c # drop (Suc (unat i)) cs" using i by (simp add: Cons_nth_drop_Suc)
    have take: "take (Suc (unat i)) cs = take (unat i) cs @ [?c]" using i by (simp add: take_Suc_conv_app_nth)
    note inc = unat_inc [OF True]
    show ?thesis
    proof (cases "is_running ?c")
      case run: True
      have "take (Suc (unat i)) (cs[unat i := stop_context ?c]) = take (unat i) cs @ [stop_context ?c]"
        using i by (simp add: take_Suc_conv_app_nth)
      then show ?thesis
        using "1.IH"(1) [OF True, of ?c] "1.prems" i drop inc run
        by (simp add: cancel_loop.simps [of l cs n i] True stop_context_def [symmetric])
    next
      case run: False
      then show ?thesis
        using "1.IH"(2) [OF True, of ?c] "1.prems" i drop inc take True
        by (simp add: cancel_loop.simps [of l cs n i] stop_context_idle)
    qed
  qed
qed

lemma total_cancels:
  "stopped_threads (map (\<lambda>c. Cancel (ctx_id c)) (filter is_running cs)) = running_ids cs"
  "started_threads (map (\<lambda>c. Cancel (ctx_id c)) (filter is_running cs)) = {#}"
  "allocated_blocks (map (\<lambda>c. Cancel (ctx_id c)) (filter is_running cs)) = {#}"
  "freed_blocks (map (\<lambda>c. Cancel (ctx_id c)) (filter is_running cs)) = {#}"
  by (induction cs) simp_all

lemma destroy_pool_log:
  assumes "pool_ok p"
  shows "destroy_thread_pool l (Some p) = Some (l @ map (\<lambda>c. Cancel (ctx_id c)) (filter is_running (contexts p)) @
    [Free (contexts_block p), Free (pool_block p)])"
  using assms by (simp add: destroy_thread_pool_def cancel_all_thread_def cancel_loop_ok pool_ok_def)

lemma size_running_ids: "size (running_ids cs) \<le> length cs"
  by (induction cs) auto

interpretation pool: worker_pool opt_ok opt_running opt_slots "pool_push env" destroy_thread_pool
  started_threads stopped_threads for env
proof unfold_locales
  fix pool l and d :: "ptr \<times> u32"
  assume ok: "opt_ok pool"
  show "\<exists>r p' l'. pool_push env l pool d = Some (r, p', l') \<and> opt_ok p' \<and> opt_slots p' = opt_slots pool \<and>
      stopped_threads l' = stopped_threads l \<and>
      started_threads l' + opt_running pool = started_threads l + opt_running p'"
  proof (cases pool)
    case None
    then show ?thesis by (simp add: pool_push_def thread_pool_push_data_def opt_ok_def)
  next
    case (Some p)
    with ok push_keeps [of p env l "fst d" "snd d"] show ?thesis
      by (fastforce simp: pool_push_def opt_ok_def opt_slots_def opt_running_def)
  qed
next
  fix pool assume "opt_ok pool"
  then show "size (opt_running pool) \<le> opt_slots pool"
    using size_running_ids [of "contexts (the pool)"]
    by (cases pool) (simp_all add: opt_ok_def opt_running_def opt_slots_def pool_ok_def)
next
  fix pool l assume "opt_ok pool"
  then show "\<exists>l'. destroy_thread_pool l pool = Some l' \<and> started_threads l' = started_threads l \<and>
      stopped_threads l' = stopped_threads l + opt_running pool"
    using destroy_pool_log [of "the pool" l] destroy_thread_pool_def [of l None]
    by (cases pool) (simp_all add: total_cancels opt_ok_def opt_running_def)
qed

section \<open>Creating\<close>

lemma init_thread_contexts_ok:
  assumes "length cs = unat n" "unat n \<le> length ps"
  shows "init_thread_contexts cs (Some ps) n i = Some (take (unat i) cs @
    map (\<lambda>j. (cs ! j)\<lparr>ctx_params := ps ! j, is_running := False\<rparr>) [unat i..<unat n])"
  using assms
proof (induction cs "Some ps" n i rule: init_thread_contexts.induct)
  case (1 cs n i)
  show ?case
  proof (cases "i < n")
    case False
    with 1 show ?thesis by (simp add: init_thread_contexts.simps unat_less)
  next
    case True
    then have i: "unat i < unat n" by (simp add: unat_less)
    let ?c = "(cs ! unat i)\<lparr>ctx_params := ps ! unat i, is_running := False\<rparr>"
    have "take (Suc (unat i)) (cs[unat i := ?c]) = take (unat i) cs @ [?c]"
      using i "1.prems" by (simp add: take_Suc_conv_app_nth)
    moreover have "[unat i..<unat n] = unat i # [Suc (unat i)..<unat n]" using i by (rule upt_conv_Cons)
    ultimately show ?thesis
      using 1 True i unat_inc [OF True] by (simp add: init_thread_contexts.simps [of cs _ n i])
  qed
qed

lemma init_thread_contexts_short:
  assumes "unat i \<le> length ps" "length ps < unat n" "length cs = unat n"
  shows "init_thread_contexts cs (Some ps) n i = None"
  using assms
proof (induction cs "Some ps" n i rule: init_thread_contexts.induct)
  case (1 cs n i)
  then have less: "i < n" by (simp add: unat_less)
  show ?case
  proof (cases "unat i < length ps")
    case True
    with 1 less unat_inc [OF less] show ?thesis
      by (simp add: init_thread_contexts.simps [of cs _ n i] unat_less [symmetric])
  next
    case False
    with less show ?thesis by (simp add: init_thread_contexts.simps [of cs _ n i])
  qed
qed

definition fresh_context :: "ptr \<Rightarrow> thread_context" where
  "fresh_context x = \<lparr>ctx_id = 0, ctx_params = x, is_running = False\<rparr>"

lemma init_zeroed:
  assumes "0 < n"
  shows "init_thread_contexts (replicate (unat n) zeroed_context) params n 0 =
    (case params of None \<Rightarrow> None
     | Some ps \<Rightarrow> if unat n \<le> length ps then Some (map fresh_context (take (unat n) ps)) else None)"
proof (cases params)
  case None
  with assms show ?thesis by (simp add: init_thread_contexts.simps)
next
  case (Some ps)
  show ?thesis
  proof (cases "unat n \<le> length ps")
    case True
    then have "map (\<lambda>j. (replicate (unat n) zeroed_context ! j)\<lparr>ctx_params := ps ! j, is_running := False\<rparr>) [0..<unat n] =
        map fresh_context (take (unat n) ps)"
      by (intro nth_equalityI) (simp_all add: zeroed_context_def fresh_context_def)
    with True Some show ?thesis by (simp add: init_thread_contexts_ok)
  next
    case False
    with Some show ?thesis by (simp add: init_thread_contexts_short)
  qed
qed

lemma running_ids_fresh: "running_ids (map fresh_context xs) = {#}"
  by (induction xs) (simp_all add: fresh_context_def)

text \<open>What a returned pool looks like.\<close>

lemma create_thread_pool_Some:
  assumes "create_thread_pool env l (Some ps) = Some (Some p, l')"
  shows "pool_ok p" "running_ids (contexts p) = {#}" "thread_count p = pp_thread_count ps"
    "l' = l @ [Alloc (pool_block p), Alloc (contexts_block p)]"
proof -
  have chk: "check_params (Some ps)" using assms by (auto simp: create_thread_pool_def split: if_splits)
  then have n: "0 < pp_thread_count ps" "pp_thread_cb ps \<noteq> None" "pp_push_cb ps \<noteq> None"
    by (simp_all add: check_params_def)
  obtain pb cb xs where x: "p = \<lparr>pool_block = pb, curr_thread_index = 0, thread_cb = pp_thread_cb ps,
      push_cb = pp_push_cb ps, contexts_block = cb, contexts = map fresh_context (take (unat (pp_thread_count ps)) xs),
      thread_count = pp_thread_count ps\<rparr>" "unat (pp_thread_count ps) \<le> length xs"
      "l' = l @ [Alloc pb, Alloc cb]"
    using assms chk
    by (auto simp: create_thread_pool_def init_zeroed [OF n(1)] call_calloc_def Let_def
        split: option.splits prod.splits if_splits)
  then show "pool_ok p" "running_ids (contexts p) = {#}" "thread_count p = pp_thread_count ps"
    "l' = l @ [Alloc (pool_block p), Alloc (contexts_block p)]"
    using n by (simp_all add: pool_ok_def running_ids_fresh)
qed

lemma run_pushes_memory:
  assumes "pool_ok p"
  shows "\<exists>rs p' l'. run_ops (pool_push env) l (Some p) ds = Some (rs, Some p', l') \<and> pool_ok p' \<and>
    pool_block p' = pool_block p \<and> contexts_block p' = contexts_block p \<and>
    allocated_blocks l' = allocated_blocks l \<and> freed_blocks l' = freed_blocks l"
  using assms
proof (induction ds arbitrary: l p)
  case (Cons d ds)
  obtain r p1 l1 where 1: "thread_pool_push_data env l (Some p) (fst d) (snd d) = Some (r, Some p1, l1)" "pool_ok p1"
    "pool_block p1 = pool_block p" "contexts_block p1 = contexts_block p"
    "allocated_blocks l1 = allocated_blocks l" "freed_blocks l1 = freed_blocks l"
    using push_keeps [OF Cons.prems, of env l "fst d" "snd d"] by blast
  with Cons.IH [OF 1(2), of l1] show ?case by (fastforce simp: pool_push_def)
qed simp

section \<open>Data goes to the contexts in turn\<close>

definition creates_succeed :: "pool_env \<Rightarrow> bool" where
  "creates_succeed env \<longleftrightarrow> (\<forall>l cb arg. snd (env_create env l cb arg) = 0)"

definition deliveries :: "thread_pool \<Rightarrow> (ptr \<times> u32) list \<Rightarrow> (ptr \<times> ptr \<times> u32) list" where
  "deliveries p ds = map (\<lambda>(k, d). (map ctx_params (contexts p) ! ((turn p + k) mod length (contexts p)), d)) (enumerate 0 ds)"

lemma deliveries_Cons:
  assumes "pool_ok p" "turn p' = Suc (turn p) mod length (contexts p)"
    and "map ctx_params (contexts p') = map ctx_params (contexts p)"
  shows "deliveries p (d # ds) = (ctx_params (contexts p ! turn p), d) # deliveries p' ds"
proof -
  have len: "length (contexts p') = length (contexts p)" using assms(3) by (metis length_map)
  have "(Suc (turn p) mod length (contexts p) + k) mod length (contexts p) = (turn p + Suc k) mod length (contexts p)" for k
    by (simp add: mod_add_left_eq)
  then show ?thesis
    using turn_less [OF assms(1)] by (simp add: deliveries_def enumerate_Suc_eq assms(2,3) len comp_def
      apfst_def map_prod_def del: map_eq_conv) (simp add: split_def)
qed

lemma push_delivers:
  assumes "pool_ok p" "creates_succeed env" "thread_pool_push_data env l (Some p) d n = Some (r, p', l')"
  shows "pushed l' = pushed l @ [(ctx_params (contexts p ! turn p), d, n)]"
proof (cases "is_running (contexts p ! turn p)")
  case True
  with assms push_to_running [OF assms(1) True, of env l d n] show ?thesis by (auto simp: Let_def)
next
  case False
  obtain t where "env_create env l (thread_cb p) (ctx_params (contexts p ! turn p)) = (t, 0)"
    using assms(2) by (metis creates_succeed_def prod.collapse)
  with assms push_creates [OF assms(1) False this, of d n] show ?thesis by (auto simp: Let_def)
qed

lemma run_pushes_deliver:
  assumes "pool_ok p" "creates_succeed env"
  shows "\<exists>rs p' l'. run_ops (pool_push env) l (Some p) ds = Some (rs, p', l') \<and> length rs = length ds \<and>
    pushed l' = pushed l @ deliveries p ds"
  using assms(1)
proof (induction ds arbitrary: l p)
  case Nil
  show ?case by (simp add: deliveries_def)
next
  case (Cons d ds)
  obtain r p1 l1 where 1: "thread_pool_push_data env l (Some p) (fst d) (snd d) = Some (r, Some p1, l1)" "pool_ok p1"
    "turn p1 = Suc (turn p) mod length (contexts p)" "map ctx_params (contexts p1) = map ctx_params (contexts p)"
    using push_keeps [OF Cons.prems, of env l "fst d" "snd d"] by blast
  obtain rs p' l' where 2: "run_ops (pool_push env) l1 (Some p1) ds = Some (rs, p', l')" "length rs = length ds"
    "pushed l' = pushed l1 @ deliveries p1 ds"
    using Cons.IH [OF 1(2), of l1] by blast
  have "pool_push env l (Some p) d = Some (r, Some p1, l1)" using 1(1) by (simp add: pool_push_def)
  then show ?case
    using 2 push_delivers [OF Cons.prems assms(2) 1(1)] deliveries_Cons [OF Cons.prems 1(3,4), of d ds] by simp
qed

section \<open>The pool as rotating workers\<close>

text \<open>
  The specification of a push: workers in a circle, each with its parameters and, when its
  thread has been started, the thread.
\<close>

type_synonym workers = "nat \<times> (ptr \<times> ptr) list"

definition spec_push :: "pool_env \<Rightarrow> ptr \<Rightarrow> ptr \<Rightarrow> log \<Rightarrow> workers \<Rightarrow> ptr \<Rightarrow> u32 \<Rightarrow> int \<times> workers \<times> log" where
  "spec_push env start push l ws d n = (case ws of (k, ws) \<Rightarrow>
     (let next = Suc k mod length ws; (arg, worker) = ws ! k;
          hand = (\<lambda>ws l. let r = env_push env l push arg d n in (r, (next, ws), l @ [Push push arg d n r])) in
      case worker of
        Some t \<Rightarrow> hand ws l
      | None \<Rightarrow> (let (t, r) = env_create env l start arg; l = l @ [Create start arg t r] in
          if r = 0 then hand (ws[k := (arg, Some t)]) l else (r, (next, ws), l))))"

definition worker_of :: "thread_context \<Rightarrow> ptr \<times> ptr" where
  "worker_of c = (ctx_params c, if is_running c then Some (ctx_id c) else None)"

definition workers_of :: "thread_pool \<Rightarrow> workers" where
  "workers_of p = (turn p, map worker_of (contexts p))"

lemma push_refines_spec:
  assumes "pool_ok p"
  shows "\<exists>r p' l'. thread_pool_push_data env l (Some p) d n = Some (r, Some p', l') \<and> pool_ok p' \<and>
    spec_push env (thread_cb p) (push_cb p) l (workers_of p) d n = (r, workers_of p', l')"
proof -
  let ?c = "contexts p ! turn p"
  have turn': "turn ((advance p)\<lparr>contexts := cs\<rparr>) = turn (advance p)" for cs by (simp add: turn_def)
  note t = turn_less [OF assms] turn_advance [OF assms] pool_ok_advance [OF assms]
  obtain t r where cr: "env_create env l (thread_cb p) (ctx_params ?c) = (t, r)" by fastforce
  consider "is_running ?c" | "\<not> is_running ?c" "r \<noteq> 0" | "\<not> is_running ?c" "r = 0" by blast
  then show ?thesis
  proof cases
    case 1
    then show ?thesis
      using t by (simp add: push_to_running [OF assms 1] Let_def spec_push_def workers_of_def worker_of_def)
  next
    case 2
    have "(map worker_of (contexts p))[turn p := (ctx_params ?c, None)] = map worker_of (contexts p)"
      using t(1) 2(1) by (intro list_update_same_conv [THEN iffD2]) (simp_all add: worker_of_def)
    then show ?thesis
      using t 2(1) by (simp add: push_create_fails [OF assms 2(1) cr 2(2)] cr 2(2) Let_def turn' spec_push_def
        workers_of_def map_update worker_of_def)
  next
    case 3
    note cr = cr [unfolded 3(2)]
    show ?thesis
      using t 3 by (simp add: push_creates [OF assms 3(1) cr] cr Let_def turn' spec_push_def
        workers_of_def map_update worker_of_def)
  qed
qed

section \<open>Properties\<close>

text \<open>An environment and parameters to run: every call succeeds, blocks and threads are numbered by the log.\<close>

definition sample_env :: pool_env where
  "sample_env = \<lparr>env_calloc = (\<lambda>l. Some (length l)), env_create = (\<lambda>l cb arg. (length l, 0)),
     env_push = (\<lambda>l cb arg d n. 0)\<rparr>"

definition sample_params :: pool_params where
  "sample_params = \<lparr>pp_thread_cb = Some 1, pp_thread_params = Some [Some 10, Some 11], pp_push_cb = Some 2,
     pp_thread_count = 2\<rparr>"

definition sample_pool :: thread_pool where
  "sample_pool = \<lparr>pool_block = 0, curr_thread_index = 0, thread_cb = Some 1, push_cb = Some 2, contexts_block = 1,
     contexts = [fresh_context (Some 10), fresh_context (Some 11)], thread_count = 2\<rparr>"

lemma sample_pool_ok: "pool_ok sample_pool"
  by (simp add: pool_ok_def sample_pool_def)

lemma create_sample:
  "create_thread_pool sample_env [] (Some sample_params) = Some (Some sample_pool, [Alloc 0, Alloc 1])"
  using init_zeroed [of 2 "Some [Some 10, Some 11]"]
  by (simp add: create_thread_pool_def check_params_def sample_params_def sample_env_def call_calloc_def
      sample_pool_def)

text \<open>
  C22: the whole life of a pool. From any created pool, with any sequence of pushes (whatever
  \<open>pthread_create\<close> and \<open>push_cb\<close> answer), every call returns; destroying the pool cancels every
  thread that was started exactly once and nothing else, at most \<open>thread_count\<close> threads were
  started, and both blocks are freed exactly once.
\<close>

theorem pool_life:
  assumes "create_thread_pool env [] (Some params) = Some (Some p, l0)"
  shows "\<exists>rs pool l1 l2. run_ops (pool_push env) l0 (Some p) ds = Some (rs, pool, l1) \<and>
    destroy_thread_pool l1 pool = Some l2 \<and> stopped_threads l2 = started_threads l2 \<and>
    size (started_threads l2) \<le> unat (pp_thread_count params) \<and> freed_blocks l2 = allocated_blocks l2"
proof -
  note c = create_thread_pool_Some [OF assms]
  obtain rs p' l1 where run: "run_ops (pool_push env) l0 (Some p) ds = Some (rs, Some p', l1)" "pool_ok p'"
    "pool_block p' = pool_block p" "contexts_block p' = contexts_block p"
    "allocated_blocks l1 = allocated_blocks l0" "freed_blocks l1 = freed_blocks l0"
    using run_pushes_memory [OF c(1)] by blast
  obtain l2 where life: "destroy_thread_pool l1 (Some p') = Some l2"
    "stopped_threads l2 + started_threads l0 = stopped_threads l0 + started_threads l2"
    "size (started_threads l2) \<le> size (started_threads l0) + unat (thread_count p)"
    using pool.life_law [of "Some p" env l0 ds] c(1,2) run(1)
    by (auto simp: opt_ok_def opt_running_def opt_slots_def)
  have "freed_blocks l2 = allocated_blocks l2"
    using life(1) run(2-6) c(4) by (auto simp: destroy_pool_log total_cancels)
  with run life c(3,4) show ?thesis by auto
qed

theorem pool_life_witness:
  "\<exists>rs pool l1 l2. run_ops (pool_push sample_env) [Alloc 0, Alloc 1] (Some sample_pool) [(Some 5, 1), (Some 6, 2), (Some 7, 3)] =
      Some (rs, pool, l1) \<and> destroy_thread_pool l1 pool = Some l2 \<and> stopped_threads l2 = started_threads l2"
  using pool_life [OF create_sample, of "[(Some 5, 1), (Some 6, 2), (Some 7, 3)]"] by blast

text \<open>
  C23: a push implements one step of the specification with rotating workers: the data goes to
  the worker whose turn it is, its thread is started first when it has none, a failed start is
  reported without pushing and leaves the worker without thread, and the turn passes on in every
  case; the invariant of the pool is kept.
\<close>

theorem push_implements_workers:
  assumes "pool_ok p"
  shows "\<exists>r p' l'. thread_pool_push_data env l (Some p) d n = Some (r, Some p', l') \<and> pool_ok p' \<and>
    spec_push env (thread_cb p) (push_cb p) l (workers_of p) d n = (r, workers_of p', l')"
  using assms by (rule push_refines_spec)

theorem push_implements_workers_witness:
  "\<exists>r p' l'. thread_pool_push_data sample_env [] (Some sample_pool) (Some 5) 1 = Some (r, Some p', l') \<and> pool_ok p' \<and>
    spec_push sample_env (thread_cb sample_pool) (push_cb sample_pool) [] (workers_of sample_pool) (Some 5) 1 =
      (r, workers_of p', l')"
  by (rule push_implements_workers [OF sample_pool_ok])

text \<open>
  Round robin. When threads can be started, a sequence of pushes hands its data, in order and
  once each, to the contexts in turn, from the current index on and modulo \<open>thread_count\<close>.
\<close>

theorem pushes_go_round:
  assumes "pool_ok p" "creates_succeed env"
  shows "\<exists>rs pool l'. run_ops (pool_push env) l (Some p) ds = Some (rs, pool, l') \<and> length rs = length ds \<and>
    pushed l' = pushed l @ deliveries p ds"
  using assms by (rule run_pushes_deliver)

theorem pushes_go_round_witness:
  "\<exists>rs pool l'. run_ops (pool_push sample_env) [] (Some sample_pool) [(Some 5, 1), (Some 6, 2), (Some 7, 3)] = Some (rs, pool, l') \<and>
    pushed l' = [(Some 10, Some 5, 1), (Some 11, Some 6, 2), (Some 10, Some 7, 3)]"
proof -
  have "creates_succeed sample_env" by (simp add: creates_succeed_def sample_env_def)
  from pushes_go_round [OF sample_pool_ok this, of "[]" "[(Some 5, 1), (Some 6, 2), (Some 7, 3)]"]
  show ?thesis by (auto simp: deliveries_def turn_def sample_pool_def fresh_context_def)
qed

text \<open>
  C24: what \<open>create_thread_pool\<close> returns, in every case. For null or bad parameters it returns null
  and allocates nothing. Otherwise both blocks are asked for, each of which may be refused; unless
  both are obtained, null is returned (and a block that was obtained stays allocated). With both it
  returns an idle pool whose contexts hold the parameters in order, unless \<open>pp_thread_params\<close> is
  null or shorter than \<open>thread_count\<close>: then it is read all the same, which is undefined.
\<close>

theorem create_thread_pool_cases:
  "create_thread_pool env l p_params = (case p_params of
     None \<Rightarrow> Some (None, l)
   | Some ps \<Rightarrow>
       if pp_thread_cb ps = None \<or> pp_push_cb ps = None \<or> pp_thread_count ps = 0 then Some (None, l)
       else let (pool, l1) = call_calloc env l; (ctxs, l2) = call_calloc env l1 in
         if pool = None \<or> ctxs = None then Some (None, l2)
         else case pp_thread_params ps of
           None \<Rightarrow> None
         | Some xs \<Rightarrow> if length xs < unat (pp_thread_count ps) then None
             else Some (Some \<lparr>pool_block = the pool, curr_thread_index = 0, thread_cb = pp_thread_cb ps,
               push_cb = pp_push_cb ps, contexts_block = the ctxs,
               contexts = map fresh_context (take (unat (pp_thread_count ps)) xs),
               thread_count = pp_thread_count ps\<rparr>, l2))"
  by (auto simp: create_thread_pool_def check_params_def init_zeroed call_calloc_def Let_def word_gt_0
      split: option.splits prod.splits)

text \<open>
  When exactly one of the two allocations of \<open>create_thread_pool\<close> succeeds, whichever it is, null is
  returned and the block that was obtained is never freed.
\<close>

theorem create_thread_pool_leaks:
  assumes "check_params (Some ps)"
    and "env_calloc env l = Some b \<and> env_calloc env (l @ [Alloc b]) = None \<or>
      env_calloc env l = None \<and> env_calloc env (l @ [No_memory]) = Some b"
  shows "\<exists>l'. create_thread_pool env l (Some ps) = Some (None, l') \<and>
    allocated_blocks l' = allocated_blocks l + {#b#} \<and> freed_blocks l' = freed_blocks l"
  using assms by (auto simp: create_thread_pool_def call_calloc_def Let_def)

definition poor_env :: pool_env where
  "poor_env = sample_env\<lparr>env_calloc := (\<lambda>l. if l = [] then Some 7 else None)\<rparr>"

theorem create_thread_pool_leaks_witness:
  "\<exists>l'. create_thread_pool poor_env [] (Some sample_params) = Some (None, l') \<and>
    allocated_blocks l' = {#7#} \<and> freed_blocks l' = {#}"
  using create_thread_pool_leaks [of sample_params poor_env "[]" 7]
  by (simp add: poor_env_def check_params_def sample_params_def)

text \<open>
  The error code of a push. When the thread cannot be started the caller gets the positive
  error number of \<open>pthread_create\<close>, not -1, nothing is pushed, and the next push goes to the next
  context.
\<close>

theorem push_reports_errno:
  assumes "pool_ok p" "\<not> is_running (contexts p ! turn p)"
    and "env_create env l (thread_cb p) (ctx_params (contexts p ! turn p)) = (t, errno)" "0 < errno"
  shows "\<exists>p' l'. thread_pool_push_data env l (Some p) d n = Some (errno, Some p', l') \<and> errno \<noteq> -1 \<and>
    pushed l' = pushed l \<and> turn p' = Suc (turn p) mod length (contexts p)"
proof -
  have "turn ((advance p)\<lparr>contexts := cs\<rparr>) = turn (advance p)" for cs by (simp add: turn_def)
  then show ?thesis
    using push_create_fails [OF assms(1-3), of d n] assms(4) turn_advance [OF assms(1)] by (simp add: Let_def)
qed

definition busy_env :: pool_env where
  "busy_env = sample_env\<lparr>env_create := (\<lambda>l cb arg. (0, 11))\<rparr>"

theorem push_reports_errno_witness:
  "\<exists>p' l'. thread_pool_push_data busy_env [] (Some sample_pool) (Some 5) 1 = Some (11, Some p', l') \<and> pushed l' = []"
  using push_reports_errno [OF sample_pool_ok, of busy_env "[]" 0 11 "Some 5" 1]
  by (auto simp: busy_env_def sample_pool_def turn_def fresh_context_def)

end
