(* ===== verification/Pool_Demo.thy ===== *)
theory Pool_Demo
  imports Thread_Pool
begin

text \<open>
  The program \<open>common/thread_pool/main.c\<close>: a client that creates a pool of three threads and
  destroys it. A result is the exit code with what was printed and the log of the pool.
\<close>

definition thread_func :: "ptr \<Rightarrow> ptr \<times> string" where
  "thread_func p_thread_params = (None, ''thread_func start'' @ [CHR 0x0A])"

definition demo_push_cb :: "ptr \<Rightarrow> ptr \<Rightarrow> u32 \<Rightarrow> int \<times> string" where
  "demo_push_cb p_thread_params p_data data_len = (0, ''push_cb start'' @ [CHR 0x0A])"

text \<open>
  \<open>func\<close> and \<open>push\<close> are the addresses of the two callbacks. \<open>calloc\<close> yields an array of three
  null pointers, or null, which is not tested.
\<close>

definition demo_main :: "nat \<Rightarrow> nat \<Rightarrow> pool_env \<Rightarrow> log \<Rightarrow> (int \<times> string \<times> log) option" where
  "demo_main func push env l = do {
     let thread_count = (3 :: u8);
     let (pp_thread_params, l) = call_calloc env l;
     let parmas = \<lparr>pp_thread_cb = Some func,
       pp_thread_params = map_option (\<lambda>b. replicate (unat thread_count) None) pp_thread_params,
       pp_push_cb = Some push, pp_thread_count = thread_count\<rparr>;
     (p_pool, l) \<leftarrow> create_thread_pool env l (Some parmas);
     (out, l) \<leftarrow> (case p_pool of
        None \<Rightarrow> Some (''create_thread_pool fail'' @ [CHR 0x0A], l)
      | Some p \<Rightarrow> do {
          l \<leftarrow> destroy_thread_pool l (Some p);
          Some ([], l) });
     let l = (case pp_thread_params of None \<Rightarrow> l | Some b \<Rightarrow> l @ [Free b]);
     Some (0, out @ ''...'' @ [CHR 0x0A], l) }"

text \<open>
  With memory for all three blocks the program starts no thread and frees what it allocated. Without
  memory for the pool it says so and frees its own block.
\<close>

lemma demo_contexts: "init_thread_contexts (replicate 3 zeroed_context) (Some (replicate 3 None)) 3 0 = Some (replicate 3 zeroed_context)"
  using init_zeroed [of 3 "Some (replicate 3 None)"] by (simp add: replicate_2_3 fresh_context_def zeroed_context_def)

lemma demo_cancel: "cancel_loop l (replicate 3 zeroed_context) 3 0 = Some (replicate 3 zeroed_context, l)"
  by (simp add: cancel_loop.simps replicate_2_3 zeroed_context_def)

lemma demo_main_frees:
  assumes "env_calloc env [] = Some a" "env_calloc env [Alloc a] = Some b" "env_calloc env [Alloc a, Alloc b] = Some c"
  shows "demo_main func push env [] = Some (0, ''...'' @ [CHR 0x0A], [Alloc a, Alloc b, Alloc c, Free c, Free b, Free a])"
  using assms demo_contexts demo_cancel
  by (simp add: demo_main_def call_calloc_def create_thread_pool_def check_params_def Let_def
      destroy_thread_pool_def cancel_all_thread_def)

lemma demo_main_no_memory:
  assumes "env_calloc env l = Some a" "env_calloc env (l @ [Alloc a]) = None" "env_calloc env (l @ [Alloc a, No_memory]) = None"
  shows "demo_main func push env l =
    Some (0, ''create_thread_pool fail'' @ [CHR 0x0A] @ ''...'' @ [CHR 0x0A], l @ [Alloc a, No_memory, No_memory, Free a])"
  using assms
  by (simp add: demo_main_def call_calloc_def create_thread_pool_def check_params_def Let_def)

text \<open>When only its own \<open>calloc\<close> fails, which is not tested, the pool reads through the null array.\<close>

lemma demo_main_null_params:
  assumes "env_calloc env l = None" "env_calloc env (l @ [No_memory]) = Some b" "env_calloc env (l @ [No_memory, Alloc b]) = Some c"
  shows "demo_main func push env l = None"
  using assms init_zeroed [of 3 None]
  by (simp add: demo_main_def call_calloc_def create_thread_pool_def check_params_def Let_def)

end
