(* ===== verification/Easy_Log.thy ===== *)
theory Easy_Log
  imports C_Base
begin

text \<open>
  The logger of \<open>common/easy_log\<close>: one global log, opened by \<open>init_easy_log\<close>, written by
  \<open>log_append\<close> and moved aside when the file has grown to 100 MB.

  A \<open>world\<close> is the global \<open>g_log\<close> with the files it works on. The file of an open \<open>FILE *\<close> is
  known by its path: nothing else renames it, and the code closes it before it does. Output to
  \<open>stderr\<close> is left out. \<open>fwrite\<close> and the \<open>fflush\<close> behind it are one step: what \<open>fwrite\<close> takes is in
  the file afterwards, and a failing \<open>fflush\<close>, whose result the code ignores, is not modelled. What
  the C library decides (whether \<open>calloc\<close>, \<open>fopen\<close>, \<open>rename\<close> succeed, how many bytes \<open>fwrite\<close>
  takes, the time, where \<open>"ab+"\<close> starts to tell) is an environment, which may answer differently at
  each call: \<open>ticks\<close> counts the calls. Texts are strings without NUL; the buffers are arrays of
  characters with one.
\<close>

section \<open>Levels\<close>

datatype log_level =
    LOG_LEVEL_FATAL | LOG_LEVEL_ERROR | LOG_LEVEL_WARN | LOG_LEVEL_INFO | LOG_LEVEL_DEBUG | LOG_LEVEL_TRACE

fun level_code :: "log_level \<Rightarrow> u32" where
  "level_code LOG_LEVEL_FATAL = 1"
| "level_code LOG_LEVEL_ERROR = 2"
| "level_code LOG_LEVEL_WARN = 3"
| "level_code LOG_LEVEL_INFO = 4"
| "level_code LOG_LEVEL_DEBUG = 5"
| "level_code LOG_LEVEL_TRACE = 6"

lemma level_code_inject: "level_code a = level_code b \<longleftrightarrow> a = b"
  by (cases a; cases b) simp_all

text \<open>The levels are ordered as their codes: the more a level lets through, the greater it is.\<close>

instantiation log_level :: linorder
begin

definition less_eq_log_level :: "log_level \<Rightarrow> log_level \<Rightarrow> bool" where
  "a \<le> b \<longleftrightarrow> level_code a \<le> level_code b"

definition less_log_level :: "log_level \<Rightarrow> log_level \<Rightarrow> bool" where
  "a < b \<longleftrightarrow> level_code a < level_code b"

instance
  by standard (auto simp: less_eq_log_level_def less_log_level_def level_code_inject order.strict_iff_order)

end

section \<open>State\<close>

record c_file =
  f_path :: string
  f_append :: bool
  f_pos :: nat

text \<open>\<open>easy_log_t\<close>; \<open>log_path\<close> has room for \<open>PATH_MAX\<close> = 1024 characters, the NUL included.\<close>

record easy_log =
  fp :: "c_file option"
  log_path :: string
  level :: u32
  enable_lock :: bool
  lock_held :: bool
  log_buf :: string

record world =
  g_log :: "easy_log option"
  files :: "string \<Rightarrow> string option"
  ticks :: nat

record tm =
  tm_year :: int
  tm_mon :: int
  tm_mday :: int
  tm_hour :: int
  tm_min :: int
  tm_sec :: int

record log_env =
  env_calloc :: "world \<Rightarrow> bool"
  env_fopen :: "world \<Rightarrow> string \<Rightarrow> bool"
  env_start :: "world \<Rightarrow> string \<Rightarrow> nat"
  env_rename :: "world \<Rightarrow> bool"
  env_fwrite :: "world \<Rightarrow> string \<Rightarrow> nat"
  env_time :: "world \<Rightarrow> tm"

definition tick :: "world \<Rightarrow> world" where
  "tick w = w\<lparr>ticks := ticks w + 1\<rparr>"

section \<open>Library calls\<close>

definition fopen_append :: "log_env \<Rightarrow> string \<Rightarrow> world \<Rightarrow> c_file option \<times> world" where
  "fopen_append env path w =
     (if env_fopen env w path then
        (Some \<lparr>f_path = path, f_append = True, f_pos = env_start env w path\<rparr>,
         tick (w\<lparr>files := (files w)(path := Some (case files w path of None \<Rightarrow> [] | Some c \<Rightarrow> c))\<rparr>))
      else (None, tick w))"

definition fopen_write :: "log_env \<Rightarrow> string \<Rightarrow> world \<Rightarrow> c_file option \<times> world" where
  "fopen_write env path w =
     (if env_fopen env w path then
        (Some \<lparr>f_path = path, f_append = False, f_pos = 0\<rparr>, tick (w\<lparr>files := (files w)(path := Some [])\<rparr>))
      else (None, tick w))"

text \<open>\<open>rename\<close>: a file of the new name is replaced; without the old one nothing happens.\<close>

definition rename :: "log_env \<Rightarrow> string \<Rightarrow> string \<Rightarrow> world \<Rightarrow> world" where
  "rename env old new w =
     (if env_rename env w \<and> files w old \<noteq> None \<and> old \<noteq> new
      then tick (w\<lparr>files := (files w)(new := files w old, old := None)\<rparr>) else tick w)"

definition ftell :: "c_file option \<Rightarrow> nat option" where
  "ftell f = map_option f_pos f"

text \<open>\<open>fwrite(buf, 1, n, fp)\<close>: the number of bytes taken, the file and the world.\<close>

definition fwrite :: "log_env \<Rightarrow> string \<Rightarrow> c_file \<Rightarrow> world \<Rightarrow> nat \<times> c_file \<times> world" where
  "fwrite env s f w = (let
     n = min (env_fwrite env w s) (length s);
     c = (case files w (f_path f) of None \<Rightarrow> [] | Some c \<Rightarrow> c);
     c' = (if f_append f then c @ take n s
           else take (f_pos f) c @ take n s @ drop (f_pos f + n) c);
     f' = f\<lparr>f_pos := (if f_append f then length c' else f_pos f + n)\<rparr>
     in (n, f', tick (w\<lparr>files := (files w)(f_path f := Some c')\<rparr>)))"

text \<open>
  \<open>snprintf(buf + off, size, \<dots>)\<close> for the text \<open>s\<close>: the returned length, negative when it is
  not an \<open>int\<close>, and the array \<open>buf\<close>; writing outside the array is undefined.
\<close>

definition snprintf :: "string \<Rightarrow> nat \<Rightarrow> nat \<Rightarrow> string \<Rightarrow> (int \<times> string) option" where
  "snprintf buf off sz s =
     (if 2147483647 < length s then Some (-1, buf)
      else if sz = 0 then (if off \<le> length buf then Some (int (length s), buf) else None)
      else let t = take (sz - 1) s @ [CHR 0x00] in
        if off + length t \<le> length buf
        then Some (int (length s), take off buf @ t @ drop (off + length t) buf) else None)"

text \<open>A \<open>%s\<close> of an array that holds a text: undefined when the text fills it to the end.\<close>

definition c_str :: "nat \<Rightarrow> string \<Rightarrow> string option" where
  "c_str sz s = (if length s < sz then Some s else None)"

definition PATH_MAX :: nat where "PATH_MAX = 1024"
definition UTC_FORMAT_LEN :: nat where "UTC_FORMAT_LEN = 24"
definition LOG_USE_LIMIT :: nat where "LOG_USE_LIMIT = 104857600"
definition LOG_LEN_LIMIT :: nat where "LOG_LEN_LIMIT = 4096"

section \<open>Opening and closing\<close>

definition destroy_easy_log :: "world \<Rightarrow> world option" where
  "destroy_easy_log w = (case g_log w of None \<Rightarrow> Some w
   | Some g \<Rightarrow> if enable_lock g \<and> lock_held g then None else Some (w\<lparr>g_log := None\<rparr>))"

definition zeroed_log :: easy_log where
  "zeroed_log = \<lparr>fp = None, log_path = [], level = 0, enable_lock = False, lock_held = False,
     log_buf = replicate LOG_LEN_LIMIT (CHR 0x00)\<rparr>"

definition init_easy_log :: "log_env \<Rightarrow> string \<Rightarrow> log_level \<Rightarrow> bool \<Rightarrow> world \<Rightarrow> (bool \<times> world) option" where
  "init_easy_log env path lv lock w = do {
     w \<leftarrow> destroy_easy_log w;
     let ok = env_calloc env w;
     let w = tick w;
     if \<not> ok then Some (False, w)
     else do {
       let g = zeroed_log\<lparr>enable_lock := lock, log_path := take PATH_MAX path\<rparr>;
       let (f, w) = fopen_append env path w;
       let g = g\<lparr>fp := f\<rparr>;
       if f = None then do {
         w \<leftarrow> destroy_easy_log (w\<lparr>g_log := Some g\<rparr>);
         Some (False, w) }
       else Some (True, w\<lparr>g_log := Some (g\<lparr>level := level_code lv\<rparr>)\<rparr>) } }"

definition log_get_level :: "world \<Rightarrow> u32" where
  "log_get_level w = (case g_log w of None \<Rightarrow> level_code LOG_LEVEL_FATAL | Some g \<Rightarrow> level g)"

section \<open>The time stamp\<close>

text \<open>\<open>snprintf\<close> into a buffer of \<open>buf_len\<close> characters keeps all but the last.\<close>

definition utc_format :: "tm \<Rightarrow> nat \<Rightarrow> bool \<Rightarrow> string" where
  "utc_format t buf_len path_suffix = take (buf_len - 1)
     (if path_suffix then
        fmt_d (tm_year t + 1900) @ ''-'' @ fmt_02d (tm_mon t + 1) @ ''-'' @ fmt_02d (tm_mday t) @ ''_'' @
        fmt_02d (tm_hour t) @ '':'' @ fmt_02d (tm_min t) @ '':'' @ fmt_02d (tm_sec t)
      else
        fmt_d (tm_year t + 1900) @ ''/'' @ fmt_02d (tm_mon t + 1) @ ''/'' @ fmt_02d (tm_mday t) @ '' '' @
        fmt_02d (tm_hour t) @ '':'' @ fmt_02d (tm_min t) @ '':'' @ fmt_02d (tm_sec t))"

section \<open>Appending\<close>

text \<open>\<open>LOG_INTERNAL_LOCK\<close> and \<open>LOG_INTERNAL_UNLOCK\<close>: \<open>None\<close> for a null \<open>g_log\<close>, and for a mutex that
  is held already, on which the caller would wait for itself.\<close>

definition LOG_INTERNAL_LOCK :: "world \<Rightarrow> world option" where
  "LOG_INTERNAL_LOCK w = do {
     g \<leftarrow> g_log w;
     if \<not> enable_lock g then Some w
     else if lock_held g then None
     else Some (w\<lparr>g_log := Some (g\<lparr>lock_held := True\<rparr>)\<rparr>) }"

definition LOG_INTERNAL_UNLOCK :: "world \<Rightarrow> world option" where
  "LOG_INTERNAL_UNLOCK w = do {
     g \<leftarrow> g_log w;
     if \<not> enable_lock g then Some w else Some (w\<lparr>g_log := Some (g\<lparr>lock_held := False\<rparr>)\<rparr>) }"

text \<open>The rotation, at the limit.\<close>

definition log_rotate :: "log_env \<Rightarrow> easy_log \<Rightarrow> world \<Rightarrow> world option" where
  "log_rotate env g w = do {
     let utc_buf = utc_format (env_time env w) UTC_FORMAT_LEN True;
     let w = tick w;
     path \<leftarrow> c_str PATH_MAX (log_path g);
     let old_path = take (PATH_MAX + UTC_FORMAT_LEN - 1) path;
     let new_path = take (PATH_MAX + UTC_FORMAT_LEN - 1) (path @ ''_'' @ utc_buf);
     let w = rename env old_path new_path w;
     let (f, w) = fopen_write env old_path w;
     Some (w\<lparr>g_log := Some (g\<lparr>fp := f\<rparr>)\<rparr>) }"

definition log_append_check :: "log_env \<Rightarrow> world \<Rightarrow> (bool \<times> world) option" where
  "log_append_check env w = (case g_log w of None \<Rightarrow> Some (False, w)
   | Some g \<Rightarrow> do {
       pos \<leftarrow> ftell (fp g);
       w \<leftarrow> (if LOG_USE_LIMIT \<le> pos then log_rotate env g w else Some w);
       g \<leftarrow> g_log w;
       Some (fp g \<noteq> None, w) })"

text \<open>
  The line: \<open>msg\<close> is the text that \<open>format\<close> and its arguments stand for, \<open>None\<close> when
  \<open>vsnprintf\<close> fails. The buffer is read up to \<open>write_len\<close>, which is the length that was wanted and
  not the length that was stored.
\<close>

definition line_prefix :: "string \<Rightarrow> string \<Rightarrow> string option \<Rightarrow> string" where
  "line_prefix utc lv module = (case module of
     None \<Rightarrow> utc @ '' '' @ lv @ '' ''
   | Some m \<Rightarrow> utc @ '' '' @ lv @ '' ['' @ m @ ''] '')"

definition write_line ::
    "log_env \<Rightarrow> string \<Rightarrow> string option \<Rightarrow> world \<Rightarrow> (bool \<times> world) option" where
  "write_line env prefix msg w = do {
     g \<leftarrow> g_log w;
     (prev_len, buf) \<leftarrow> snprintf (log_buf g) 0 LOG_LEN_LIMIT prefix;
     let w = w\<lparr>g_log := Some (g\<lparr>log_buf := buf\<rparr>)\<rparr>;
     if prev_len < 0 then Some (False, w)
     else do {
       (content_len, buf) \<leftarrow> (case msg of None \<Rightarrow> Some (-1, buf)
         | Some m \<Rightarrow> snprintf buf (nat prev_len) (unat (word_of_int (int LOG_LEN_LIMIT - prev_len) :: u32)) m);
       let w = w\<lparr>g_log := Some (g\<lparr>log_buf := buf\<rparr>)\<rparr>;
       if content_len < 0 then Some (False, w)
       else do {
         len \<leftarrow> ck (prev_len + content_len);
         if length buf < nat len then None
         else do {
           f \<leftarrow> fp g;
           let (n, f, w) = fwrite env (take (nat len) buf) f w;
           Some (n = nat len, w\<lparr>g_log := Some (g\<lparr>log_buf := buf, fp := Some f\<rparr>)\<rparr>) } } } }"

definition log_append_locked ::
    "log_env \<Rightarrow> string \<Rightarrow> string \<Rightarrow> string option \<Rightarrow> string option \<Rightarrow> world \<Rightarrow> (bool \<times> world) option" where
  "log_append_locked env utc lv module msg w = do {
     (ok, w) \<leftarrow> log_append_check env w;
     if \<not> ok then Some (False, w)
     else write_line env (line_prefix utc lv module) msg w }"

definition log_append ::
    "log_env \<Rightarrow> string \<Rightarrow> string option \<Rightarrow> string option \<Rightarrow> world \<Rightarrow> (bool \<times> world) option" where
  "log_append env lv module msg w = do {
     let utc = utc_format (env_time env w) UTC_FORMAT_LEN False;
     let w = tick w;
     w \<leftarrow> LOG_INTERNAL_LOCK w;
     (result, w) \<leftarrow> log_append_locked env utc lv module msg w;
     w \<leftarrow> LOG_INTERNAL_UNLOCK w;
     Some (result, w) }"

section \<open>The macros\<close>

fun level_tag :: "log_level \<Rightarrow> string" where
  "level_tag LOG_LEVEL_FATAL = ''[FATAL]''"
| "level_tag LOG_LEVEL_ERROR = ''[ERROR]''"
| "level_tag LOG_LEVEL_WARN = ''[WARN]''"
| "level_tag LOG_LEVEL_INFO = ''[INFO]''"
| "level_tag LOG_LEVEL_DEBUG = ''[DEBUG]''"
| "level_tag LOG_LEVEL_TRACE = ''[TRACE]''"

text \<open>\<open>MODLOG_TRACE\<close> and its brothers: \<open>fmt "\n"\<close> appends a line feed to the text.\<close>

definition modlog :: "log_env \<Rightarrow> log_level \<Rightarrow> string option \<Rightarrow> string \<Rightarrow> world \<Rightarrow> world option" where
  "modlog env lv module msg w = (let text = Some (msg @ [CHR 0x0A]) in case lv of
     LOG_LEVEL_FATAL \<Rightarrow> map_option snd (log_append env (level_tag lv) module text w)
   | LOG_LEVEL_ERROR \<Rightarrow>
       if level_code lv \<le> log_get_level w then map_option snd (log_append env (level_tag lv) None text w)
       else Some w
   | _ \<Rightarrow>
       if level_code lv \<le> log_get_level w then map_option snd (log_append env (level_tag lv) module text w)
       else Some w)"

section \<open>The line that is written\<close>

lemma snprintf_fits:
  assumes "off + sz = length buf" "0 < sz" "length s \<le> 2147483647"
  shows "snprintf buf off sz s = Some (int (length s),
    take off buf @ take (sz - 1) s @ [CHR 0x00] @ drop (off + min (sz - 1) (length s) + 1) buf)"
  using assms by (auto simp: snprintf_def Let_def min.commute)

lemma room_left: "n \<le> 4096 \<Longrightarrow> unat (word_of_int (4096 - int n) :: u32) = 4096 - n"
proof -
  assume "n \<le> 4096"
  then have "4096 - int n = int (4096 - n)" by simp
  then show ?thesis by (simp only:) (simp add: unat_of_nat take_bit_nat_eq_self del: of_nat_diff)
qed

text \<open>What \<open>fwrite\<close> is given: the line, or at the limit the line with a NUL for its last character.\<close>

definition line_bytes :: "string \<Rightarrow> string" where
  "line_bytes s = (if length s < LOG_LEN_LIMIT then s else take (LOG_LEN_LIMIT - 1) s @ [CHR 0x00])"

definition line_buf :: "string \<Rightarrow> string \<Rightarrow> string \<Rightarrow> string" where
  "line_buf buf prefix m = line_bytes (prefix @ m) @
     (if length (prefix @ m) < LOG_LEN_LIMIT
      then [CHR 0x00] @ drop (length (prefix @ m) + 1) (prefix @ [CHR 0x00] @ drop (length prefix + 1) buf) else [])"

lemma write_line_eq:
  assumes "g_log w = Some g" "length (log_buf g) = LOG_LEN_LIMIT" "fp g = Some f"
    and "length prefix < LOG_LEN_LIMIT" "length m \<le> 2147479551"
  shows "write_line env prefix (Some m) w =
    (if LOG_LEN_LIMIT < length (prefix @ m) then None
     else let (n, f', w') = fwrite env (line_bytes (prefix @ m)) f (w\<lparr>g_log := Some (g\<lparr>log_buf := line_buf (log_buf g) prefix m\<rparr>)\<rparr>) in
       Some (n = length (prefix @ m), w'\<lparr>g_log := Some (g\<lparr>log_buf := line_buf (log_buf g) prefix m, fp := Some f'\<rparr>)\<rparr>))"
proof -
  note lim = LOG_LEN_LIMIT_def
  let ?b1 = "prefix @ [CHR 0x00] @ drop (length prefix + 1) (log_buf g)"
  let ?room = "4096 - length prefix"
  let ?b2 = "prefix @ take (?room - 1) m @ [CHR 0x00] @ drop (length prefix + min (?room - 1) (length m) + 1) ?b1"
  have b1: "snprintf (log_buf g) 0 LOG_LEN_LIMIT prefix = Some (int (length prefix), ?b1)"
    using assms(2,4) by (subst snprintf_fits) (simp_all add: lim)
  have len1: "length ?b1 = 4096" using assms(2,4) by (simp add: lim)
  have size: "unat (word_of_int (int LOG_LEN_LIMIT - int (length prefix)) :: u32) = ?room"
    using room_left [of "length prefix"] assms(4) by (simp add: lim)
  have b2: "snprintf ?b1 (length prefix) ?room m = Some (int (length m), ?b2)"
    using assms(4,5) len1 by (subst snprintf_fits) (simp_all add: lim)
  have len2: "length ?b2 = 4096" using assms(4) len1 by (auto simp: lim)
  have ck: "ck (int (length prefix) + int (length m)) = Some (int (length (prefix @ m)))"
    using assms(4,5) by (simp add: lim)
  have eq: "write_line env prefix (Some m) w =
    (if 4096 < length (prefix @ m) then None
     else let (n, f', w') = fwrite env (take (length (prefix @ m)) ?b2) f (w\<lparr>g_log := Some (g\<lparr>log_buf := ?b2\<rparr>)\<rparr>) in
       Some (n = length (prefix @ m), w'\<lparr>g_log := Some (g\<lparr>log_buf := ?b2, fp := Some f'\<rparr>)\<rparr>))"
    using len2 unfolding write_line_def assms(1) bind.simps b1 prod.case Let_def
    by (simp only: option.case size nat_int b2 bind.simps prod.case ck assms(3))
       (simp add: case_prod_beta)
  have "?b2 = line_buf (log_buf g) prefix m \<and> take (length (prefix @ m)) ?b2 = line_bytes (prefix @ m)"
    if "length (prefix @ m) \<le> 4096"
  proof (cases "length (prefix @ m) = 4096")
    case False
    with that show ?thesis by (simp add: line_buf_def line_bytes_def lim)
  next
    case True
    then have "take (4096 - Suc 0) prefix = prefix" "drop (Suc (length prefix + (4096 - length prefix - 1))) ?b1 = []"
      using assms(4) len1 by (simp_all add: lim)
    with True assms(4) show ?thesis by (simp add: line_buf_def line_bytes_def lim)
  qed
  then have "?b2 = line_buf (log_buf g) prefix m" "take (length (prefix @ m)) ?b2 = line_bytes (prefix @ m)"
    if "\<not> 4096 < length (prefix @ m)" using that unfolding not_less by blast+
  then show ?thesis
    by (cases "4096 < length (prefix @ m)") (simp_all only: eq lim if_True if_False not_False_eq_True)
qed

section \<open>The lock around an append\<close>

text \<open>
  A section that is entered and left: when the body keeps what holds inside, the state is one
  from which the section can be entered again, on every path through the body.
\<close>

definition guarded ::
    "('s \<Rightarrow> 's option) \<Rightarrow> ('s \<Rightarrow> 's option) \<Rightarrow> ('s \<Rightarrow> ('r \<times> 's) option) \<Rightarrow> 's \<Rightarrow> ('r \<times> 's) option" where
  "guarded enter leave body s = enter s \<bind> (\<lambda>s. body s \<bind> (\<lambda>(r, s). leave s \<bind> (\<lambda>s. Some (r, s))))"

locale guarded_section =
  fixes enter leave :: "'s \<Rightarrow> 's option"
    and outside inside :: "'s \<Rightarrow> bool"
  assumes enter_law: "outside s \<Longrightarrow> \<exists>s'. enter s = Some s' \<and> inside s'"
    and leave_law: "inside s \<Longrightarrow> \<exists>s'. leave s = Some s' \<and> outside s'"
begin

lemma guard_outside:
  assumes "outside s" "\<And>s r s'. inside s \<Longrightarrow> body s = Some (r, s') \<Longrightarrow> inside s'"
    and "guarded enter leave body s = Some (r, s')"
  shows "outside s'"
proof -
  obtain t where t: "enter s = Some t" "inside t" using enter_law [OF assms(1)] by blast
  then obtain u where u: "body t = Some (r, u)" "leave u = Some s'"
    using assms(3) by (auto simp: guarded_def bind_eq_Some_conv)
  then show ?thesis using assms(2) [OF t(2) u(1)] leave_law by fastforce
qed

lemma guard_None_iff:
  assumes "outside s" "\<And>s r s'. inside s \<Longrightarrow> body s = Some (r, s') \<Longrightarrow> inside s'"
  shows "guarded enter leave body s = None \<longleftrightarrow> body (the (enter s)) = None"
proof -
  obtain t where t: "enter s = Some t" "inside t" using enter_law [OF assms(1)] by blast
  show ?thesis
  proof (cases "body t")
    case (Some x)
    then show ?thesis using assms(2) [OF t(2), of "fst x" "snd x"] leave_law t(1)
      by (cases x) (fastforce simp: guarded_def)
  qed (simp add: guarded_def t(1))
qed

end

definition log_unlocked :: "world \<Rightarrow> bool" where
  "log_unlocked w \<longleftrightarrow> (\<exists>g. g_log w = Some g \<and> \<not> lock_held g)"

definition log_locked :: "world \<Rightarrow> bool" where
  "log_locked w \<longleftrightarrow> (\<exists>g. g_log w = Some g \<and> lock_held g = enable_lock g)"

interpretation logsec: guarded_section LOG_INTERNAL_LOCK LOG_INTERNAL_UNLOCK log_unlocked log_locked
  by unfold_locales
    (auto simp: LOG_INTERNAL_LOCK_def LOG_INTERNAL_UNLOCK_def log_unlocked_def log_locked_def)

lemma log_append_section:
  "log_append env lv module msg w =
     guarded LOG_INTERNAL_LOCK LOG_INTERNAL_UNLOCK (log_append_locked env (utc_format (env_time env w) UTC_FORMAT_LEN False) lv module msg) (tick w)"
  by (simp add: log_append_def guarded_def Let_def)

lemma g_log_tick [simp]: "g_log (tick w) = g_log w" "files (tick w) = files w"
  by (simp_all add: tick_def)

lemma files_g_log [simp]: "g_log (w\<lparr>files := x\<rparr>) = g_log w"
  by simp

lemma fopen_write_g_log [simp]: "g_log (snd (fopen_write env path w)) = g_log w"
  by (simp add: fopen_write_def)

lemma log_rotate_g_log: "log_rotate env g w = Some w' \<Longrightarrow> \<exists>f. g_log w' = Some (g\<lparr>fp := f\<rparr>)"
  by (auto simp: log_rotate_def Let_def case_prod_beta bind_eq_Some_conv)

lemma log_append_check_g_log:
  assumes "g_log w = Some g" "log_append_check env w = Some (r, w')"
  shows "\<exists>f. g_log w' = Some (g\<lparr>fp := f\<rparr>) \<and> (r \<longleftrightarrow> f \<noteq> None)"
proof -
  obtain pos v where v: "(if LOG_USE_LIMIT \<le> pos then log_rotate env g w else Some w) = Some v"
    "w' = v" "r \<longleftrightarrow> fp (the (g_log v)) \<noteq> None" "g_log v \<noteq> None"
    using assms by (auto simp: log_append_check_def bind_eq_Some_conv)
  have "\<exists>f. g_log v = Some (g\<lparr>fp := f\<rparr>)"
  proof (cases "LOG_USE_LIMIT \<le> pos")
    case True
    with v(1) show ?thesis by (intro log_rotate_g_log) simp
  next
    case False
    with v(1) assms(1) show ?thesis by (intro exI [of _ "fp g"]) simp
  qed
  then obtain f where "g_log v = Some (g\<lparr>fp := f\<rparr>)" by blast
  with v show ?thesis by (intro exI [of _ f]) simp
qed

lemma write_line_g_log:
  assumes "g_log w = Some g" "write_line env prefix msg w = Some (r, w')"
  shows "\<exists>buf f. g_log w' = Some (g\<lparr>log_buf := buf, fp := f\<rparr>)"
proof -
  have keep: "g\<lparr>log_buf := buf\<rparr> = g\<lparr>log_buf := buf, fp := fp g\<rparr>" for buf by simp
  obtain prev buf where 1: "snprintf (log_buf g) 0 LOG_LEN_LIMIT prefix = Some (prev, buf)"
    using assms by (auto simp: write_line_def bind_eq_Some_conv)
  show ?thesis
  proof (cases "prev < 0")
    case True
    with assms 1 show ?thesis by (auto simp: write_line_def Let_def intro!: exI [of _ buf] exI [of _ "fp g"])
  next
    case False
    then obtain n buf' where 2: "(case msg of None \<Rightarrow> Some (- 1, buf)
        | Some m \<Rightarrow> snprintf buf (nat prev) (unat (word_of_int (int LOG_LEN_LIMIT - prev) :: u32)) m) = Some (n, buf')"
      using assms 1 by (auto simp: write_line_def Let_def bind_eq_Some_conv)
    show ?thesis
    proof (cases "n < 0")
      case True
      with assms 1 2 False show ?thesis
        by (auto simp: write_line_def Let_def intro!: exI [of _ buf'] exI [of _ "fp g"])
    next
      case n: False
      obtain len f where "ck (prev + n) = Some len" "fp g = Some f" "\<not> length buf' < nat len"
        using assms 1 2 False n by (auto simp: write_line_def Let_def bind_eq_Some_conv split: if_splits)
      moreover obtain k f' v where "fwrite env (take (nat len) buf') f (w\<lparr>g_log := Some (g\<lparr>log_buf := buf'\<rparr>)\<rparr>) = (k, f', v)"
        by (rule prod_cases3)
      ultimately show ?thesis
        using assms 1 2 False n by (auto simp: write_line_def Let_def intro!: exI [of _ buf'])
    qed
  qed
qed

lemma log_append_locked_keeps:
  assumes "log_locked w" "log_append_locked env utc lv module msg w = Some (r, w')"
  shows "log_locked w'"
proof -
  obtain g where g: "g_log w = Some g" "lock_held g = enable_lock g" using assms(1) by (auto simp: log_locked_def)
  obtain ok v where v: "log_append_check env w = Some (ok, v)"
    "(if \<not> ok then Some (False, v) else write_line env (line_prefix utc lv module) msg v) = Some (r, w')"
    using assms(2) by (auto simp: log_append_locked_def bind_eq_Some_conv)
  obtain f where f: "g_log v = Some (g\<lparr>fp := f\<rparr>)" using log_append_check_g_log [OF g(1) v(1)] by blast
  show ?thesis
  proof (cases ok)
    case True
    with v(2) show ?thesis using write_line_g_log [OF f] g(2) by (fastforce simp: log_locked_def)
  next
    case False
    with v(2) f g(2) show ?thesis by (auto simp: log_locked_def)
  qed
qed

lemma log_append_unlocked:
  assumes "log_unlocked w" "log_append env lv module msg w = Some (r, w')"
  shows "log_unlocked w'"
proof (rule logsec.guard_outside)
  show "log_unlocked (tick w)" using assms(1) by (simp add: log_unlocked_def)
qed (use assms(2) log_append_locked_keeps in \<open>simp_all only: log_append_section\<close>)

section \<open>An append without rotation\<close>

lemma lock_eq:
  "g_log w = Some g \<Longrightarrow> \<not> lock_held g \<Longrightarrow>
     LOG_INTERNAL_LOCK w = Some (w\<lparr>g_log := Some (g\<lparr>lock_held := enable_lock g\<rparr>)\<rparr>)"
  by (cases w; cases g) (simp add: LOG_INTERNAL_LOCK_def)

lemma unlock_eq:
  "g_log w = Some g \<Longrightarrow> lock_held g = enable_lock g \<Longrightarrow>
     LOG_INTERNAL_UNLOCK w = Some (w\<lparr>g_log := Some (g\<lparr>lock_held := False\<rparr>)\<rparr>)"
  by (cases w; cases g) (simp add: LOG_INTERNAL_UNLOCK_def)

text \<open>
  A log that is open: nobody in the section, and the file is written at its end. \<open>c\<close> is the
  content of the file.
\<close>

definition log_ready :: "world \<Rightarrow> easy_log \<Rightarrow> c_file \<Rightarrow> string \<Rightarrow> bool" where
  "log_ready w g f c \<longleftrightarrow> g_log w = Some g \<and> \<not> lock_held g \<and> length (log_buf g) = LOG_LEN_LIMIT \<and>
     fp g = Some f \<and> files w (f_path f) = Some c \<and> (f_append f \<or> f_pos f = length c)"

definition disk_takes_all :: "log_env \<Rightarrow> bool" where
  "disk_takes_all env \<longleftrightarrow> (\<forall>w s. length s \<le> env_fwrite env w s)"

text \<open>The line that an append at \<open>w\<close> wants to write.\<close>

definition log_line :: "log_env \<Rightarrow> string \<Rightarrow> string option \<Rightarrow> world \<Rightarrow> string" where
  "log_line env lv module w = line_prefix (utc_format (env_time env w) UTC_FORMAT_LEN False) lv module"

lemma fwrite_at_end:
  assumes "disk_takes_all env" "files w (f_path f) = Some c" "f_append f \<or> f_pos f = length c"
  shows "fwrite env s f w = (length s, f\<lparr>f_pos := length (c @ s)\<rparr>, tick (w\<lparr>files := (files w)(f_path f := Some (c @ s))\<rparr>))"
  using assms by (auto simp: fwrite_def Let_def disk_takes_all_def min_absorb2)

lemma length_line_bytes: "length s \<le> LOG_LEN_LIMIT \<Longrightarrow> length (line_bytes s) = length s"
  by (simp add: line_bytes_def LOG_LEN_LIMIT_def)

lemma length_line_buf:
  assumes "length buf = LOG_LEN_LIMIT" "length (prefix @ m) \<le> LOG_LEN_LIMIT" "length prefix < LOG_LEN_LIMIT"
  shows "length (line_buf buf prefix m) = LOG_LEN_LIMIT"
  using assms length_line_bytes [OF assms(2)] by (auto simp: line_buf_def LOG_LEN_LIMIT_def)

text \<open>Inside the section, and then the whole append.\<close>

lemma write_line_ready:
  assumes "disk_takes_all env" "g_log w = Some g" "length (log_buf g) = LOG_LEN_LIMIT" "fp g = Some f"
    and "files w (f_path f) = Some c" "f_append f \<or> f_pos f = length c"
    and "length prefix < LOG_LEN_LIMIT" "length m \<le> 2147479551"
  defines "line \<equiv> prefix @ m"
  shows "write_line env prefix (Some m) w = (if LOG_LEN_LIMIT < length line then None else
    Some (True, tick (w\<lparr>files := (files w)(f_path f := Some (c @ line_bytes line)),
      g_log := Some (g\<lparr>log_buf := line_buf (log_buf g) prefix m, fp := Some (f\<lparr>f_pos := length (c @ line_bytes line)\<rparr>)\<rparr>)\<rparr>)))"
  using fwrite_at_end [OF assms(1), of "w\<lparr>g_log := Some (g\<lparr>log_buf := line_buf (log_buf g) prefix m\<rparr>)\<rparr>" f c "line_bytes line"]
    assms(5,6) length_line_bytes [of line]
  unfolding write_line_eq [OF assms(2-4,7,8)] line_def
  by (cases w) (simp add: tick_def del: length_append)

lemma append_plain:
  assumes ready: "log_ready w g f c" and disk: "disk_takes_all env" and below: "f_pos f < LOG_USE_LIMIT"
    and len: "length (log_line env lv module w) < LOG_LEN_LIMIT" "length m \<le> 2147479551"
  defines "line \<equiv> log_line env lv module w @ m"
  shows "log_append env lv module (Some m) w = (if LOG_LEN_LIMIT < length line then None else
    Some (True, w\<lparr>files := (files w)(f_path f := Some (c @ line_bytes line)),
      g_log := Some (g\<lparr>log_buf := line_buf (log_buf g) (log_line env lv module w) m,
        fp := Some (f\<lparr>f_pos := length (c @ line_bytes line)\<rparr>)\<rparr>), ticks := ticks w + 2\<rparr>))"
proof -
  let ?g = "g\<lparr>lock_held := enable_lock g\<rparr>"
  let ?w = "(tick w)\<lparr>g_log := Some ?g\<rparr>"
  have g: "g_log w = Some g" "\<not> lock_held g" "length (log_buf g) = LOG_LEN_LIMIT" "fp g = Some f"
    "files w (f_path f) = Some c" "f_append f \<or> f_pos f = length c"
    using ready by (simp_all add: log_ready_def)
  have lock: "LOG_INTERNAL_LOCK (tick w) = Some ?w" using g by (intro lock_eq) simp_all
  have check: "log_append_check env ?w = Some (True, ?w)"
    using g below by (simp add: log_append_check_def ftell_def)
  have wl: "write_line env (log_line env lv module w) (Some m) ?w = (if LOG_LEN_LIMIT < length line then None else
    Some (True, tick (?w\<lparr>files := (files ?w)(f_path f := Some (c @ line_bytes line)),
      g_log := Some (?g\<lparr>log_buf := line_buf (log_buf g) (log_line env lv module w) m,
        fp := Some (f\<lparr>f_pos := length (c @ line_bytes line)\<rparr>)\<rparr>)\<rparr>)))"
    using write_line_ready [OF disk, of ?w ?g f c "log_line env lv module w" m] g len unfolding line_def by simp
  have "log_append env lv module (Some m) w = write_line env (log_line env lv module w) (Some m) ?w \<bind>
      (\<lambda>(r, w). LOG_INTERNAL_UNLOCK w \<bind> (\<lambda>w. Some (r, w)))"
    by (simp add: log_append_def Let_def lock log_append_locked_def check log_line_def del: bind_assoc)
  also have "\<dots> = (if LOG_LEN_LIMIT < length line then None else
    Some (True, w\<lparr>files := (files w)(f_path f := Some (c @ line_bytes line)),
      g_log := Some (g\<lparr>log_buf := line_buf (log_buf g) (log_line env lv module w) m,
        fp := Some (f\<lparr>f_pos := length (c @ line_bytes line)\<rparr>)\<rparr>), ticks := ticks w + 2\<rparr>))"
    unfolding wl using g(2) by (cases w; cases g) (simp add: unlock_eq tick_def)
  finally show ?thesis .
qed

section \<open>An append with rotation\<close>

definition rotated_path :: "string \<Rightarrow> tm \<Rightarrow> string" where
  "rotated_path path t = path @ ''_'' @ utc_format t UTC_FORMAT_LEN True"

lemma rotated_path_fits:
  "length path < PATH_MAX \<Longrightarrow> take (PATH_MAX + UTC_FORMAT_LEN - 1) (rotated_path path t) = rotated_path path t"
  by (simp add: rotated_path_def PATH_MAX_def UTC_FORMAT_LEN_def utc_format_def)

lemma rotated_path_new [simp]: "rotated_path path t \<noteq> path" "path \<noteq> rotated_path path t"
  by (simp_all add: rotated_path_def)

definition opens_succeed :: "log_env \<Rightarrow> bool" where
  "opens_succeed env \<longleftrightarrow> (\<forall>w path. env_fopen env w path)"

definition opens_fail :: "log_env \<Rightarrow> bool" where
  "opens_fail env \<longleftrightarrow> (\<forall>w path. \<not> env_fopen env w path)"

definition renames :: "log_env \<Rightarrow> bool \<Rightarrow> bool" where
  "renames env ok \<longleftrightarrow> (\<forall>w. env_rename env w = ok)"

text \<open>The files after the \<open>rename\<close>, done or not.\<close>

definition moved :: "bool \<Rightarrow> string \<Rightarrow> string \<Rightarrow> (string \<Rightarrow> string option) \<Rightarrow> string \<Rightarrow> string option" where
  "moved ok old new fs = (if ok then fs(new := fs old, old := None) else fs)"

lemma log_rotate_eq:
  assumes "length (log_path g) < PATH_MAX" "files w (log_path g) = Some c" "renames env ok"
  defines "new \<equiv> rotated_path (log_path g) (env_time env w)"
  shows "opens_succeed env \<Longrightarrow> log_rotate env g w =
      Some (w\<lparr>files := (moved ok (log_path g) new (files w))(log_path g := Some []),
        g_log := Some (g\<lparr>fp := Some \<lparr>f_path = log_path g, f_append = False, f_pos = 0\<rparr>\<rparr>), ticks := ticks w + 3\<rparr>)"
    and "opens_fail env \<Longrightarrow> log_rotate env g w =
      Some (w\<lparr>files := moved ok (log_path g) new (files w), g_log := Some (g\<lparr>fp := None\<rparr>), ticks := ticks w + 3\<rparr>)"
proof -
  have old: "take (PATH_MAX + UTC_FORMAT_LEN - 1) (log_path g) = log_path g" using assms(1) by simp
  have new: "take (PATH_MAX + UTC_FORMAT_LEN - 1) (log_path g @ ''_'' @ utc_format (env_time env w) UTC_FORMAT_LEN True) = new"
    using rotated_path_fits [OF assms(1)] by (simp add: new_def rotated_path_def)
  have ren: "rename env (log_path g) new (tick w) =
      w\<lparr>files := moved ok (log_path g) new (files w), ticks := ticks w + 2\<rparr>"
    using assms(2,3)
    by (cases w) (auto simp: rename_def renames_def moved_def tick_def new_def)
  show "opens_succeed env \<Longrightarrow> log_rotate env g w =
      Some (w\<lparr>files := (moved ok (log_path g) new (files w))(log_path g := Some []),
        g_log := Some (g\<lparr>fp := Some \<lparr>f_path = log_path g, f_append = False, f_pos = 0\<rparr>\<rparr>), ticks := ticks w + 3\<rparr>)"
    unfolding log_rotate_def Let_def c_str_def using assms(1)
    by (simp only: if_True bind.simps old new ren) (simp add: fopen_write_def opens_succeed_def tick_def)
  show "opens_fail env \<Longrightarrow> log_rotate env g w =
      Some (w\<lparr>files := moved ok (log_path g) new (files w), g_log := Some (g\<lparr>fp := None\<rparr>), ticks := ticks w + 3\<rparr>)"
    unfolding log_rotate_def Let_def c_str_def using assms(1)
    by (simp only: if_True bind.simps old new ren) (simp add: fopen_write_def opens_fail_def tick_def)
qed

text \<open>The state in which the section starts.\<close>

lemma section_start:
  assumes "log_ready w g f c" "LOG_USE_LIMIT \<le> f_pos f"
  shows "LOG_INTERNAL_LOCK (tick w) = Some ((tick w)\<lparr>g_log := Some (g\<lparr>lock_held := enable_lock g\<rparr>)\<rparr>)"
    and "log_append_check env ((tick w)\<lparr>g_log := Some (g\<lparr>lock_held := enable_lock g\<rparr>)\<rparr>) =
      do { w \<leftarrow> log_rotate env (g\<lparr>lock_held := enable_lock g\<rparr>) ((tick w)\<lparr>g_log := Some (g\<lparr>lock_held := enable_lock g\<rparr>)\<rparr>);
           g \<leftarrow> g_log w; Some (fp g \<noteq> None, w) }"
  using assms by (auto simp: log_ready_def lock_eq log_append_check_def ftell_def)

lemma append_rotating:
  assumes ready: "log_ready w g f c" and disk: "disk_takes_all env" and above: "LOG_USE_LIMIT \<le> f_pos f"
    and path: "f_path f = log_path g" "length (log_path g) < PATH_MAX"
    and env: "renames env ok" "opens_succeed env"
    and len: "length (log_line env lv module w @ m) < LOG_LEN_LIMIT"
  shows "\<exists>w' g' f' t. log_append env lv module (Some m) w = Some (True, w') \<and>
    files w' = (moved ok (log_path g) (rotated_path (log_path g) t) (files w))(log_path g := Some (log_line env lv module w @ m)) \<and>
    log_ready w' g' f' (log_line env lv module w @ m) \<and> f_path f' = log_path g \<and> log_path g' = log_path g"
proof -
  let ?g = "g\<lparr>lock_held := enable_lock g\<rparr>" and ?line = "log_line env lv module w @ m"
  let ?w = "(tick w)\<lparr>g_log := Some ?g\<rparr>" and ?f = "\<lparr>f_path = log_path g, f_append = False, f_pos = 0\<rparr>"
  let ?t = "env_time env ?w"
  let ?v = "?w\<lparr>files := (moved ok (log_path g) (rotated_path (log_path g) ?t) (files w))(log_path g := Some []),
        g_log := Some (?g\<lparr>fp := Some ?f\<rparr>), ticks := ticks ?w + 3\<rparr>"
  note start = section_start [OF ready above]
  have g: "length (log_buf g) = LOG_LEN_LIMIT" "files w (log_path g) = Some c" "\<not> lock_held g"
    using ready path(1) by (simp_all add: log_ready_def)
  have rot: "log_rotate env ?g ?w = Some ?v"
    using log_rotate_eq(1) [of ?g ?w c env ok] path(2) g(2) env by simp
  have check: "log_append_check env ?w = Some (True, ?v)" unfolding start(2) rot by simp
  have bytes: "line_bytes ?line = ?line" using len by (simp add: line_bytes_def)
  have m: "length (log_line env lv module w) < LOG_LEN_LIMIT" "length m \<le> 2147479551"
    using len by (simp_all add: LOG_LEN_LIMIT_def)
  have wl: "write_line env (log_line env lv module w) (Some m) ?v =
    Some (True, tick (?v\<lparr>files := (files ?v)(log_path g := Some ?line),
      g_log := Some (?g\<lparr>log_buf := line_buf (log_buf g) (log_line env lv module w) m, fp := Some (?f\<lparr>f_pos := length ?line\<rparr>)\<rparr>)\<rparr>))"
    using write_line_ready [OF disk, of ?v "?g\<lparr>fp := Some ?f\<rparr>" ?f "[]" "log_line env lv module w" m] g(1) m len bytes
    by simp
  have "log_append env lv module (Some m) w = write_line env (log_line env lv module w) (Some m) ?v \<bind>
      (\<lambda>(r, w). LOG_INTERNAL_UNLOCK w \<bind> (\<lambda>w. Some (r, w)))"
    by (simp add: log_append_def Let_def start(1) log_append_locked_def check log_line_def del: bind_assoc)
  then show ?thesis
    unfolding wl using g(1,3) m len length_line_buf [OF g(1), of "log_line env lv module w" m]
    by (auto simp: unlock_eq log_ready_def intro!: exI [of _ ?t])
qed

lemma append_rotation_fails:
  assumes ready: "log_ready w g f c" and above: "LOG_USE_LIMIT \<le> f_pos f"
    and path: "f_path f = log_path g" "length (log_path g) < PATH_MAX"
    and env: "renames env ok" "opens_fail env"
  shows "\<exists>w' g'. log_append env lv module msg w = Some (False, w') \<and> g_log w' = Some g' \<and> fp g' = None \<and> \<not> lock_held g'"
proof -
  let ?g = "g\<lparr>lock_held := enable_lock g\<rparr>"
  let ?w = "(tick w)\<lparr>g_log := Some ?g\<rparr>"
  let ?v = "?w\<lparr>files := moved ok (log_path g) (rotated_path (log_path g) (env_time env ?w)) (files w),
    g_log := Some (?g\<lparr>fp := None\<rparr>), ticks := ticks ?w + 3\<rparr>"
  note start = section_start [OF ready above]
  have g: "files w (log_path g) = Some c" using ready path(1) by (simp add: log_ready_def)
  have rot: "log_rotate env ?g ?w = Some ?v"
    using log_rotate_eq(2) [of ?g ?w c env ok] path(2) g env by simp
  have check: "log_append_check env ?w = Some (False, ?v)" unfolding start(2) rot by simp
  have "log_append env lv module msg w = Some (False, ?v) \<bind> (\<lambda>(r, w). LOG_INTERNAL_UNLOCK w \<bind> (\<lambda>w. Some (r, w)))"
    by (simp add: log_append_def Let_def start(1) log_append_locked_def check log_line_def del: bind_assoc)
  then show ?thesis by (simp add: unlock_eq)
qed

lemma append_without_file:
  assumes "g_log w = Some g" "fp g = None"
  shows "log_append env lv module msg w = None"
  using assms
  by (auto simp: log_append_def LOG_INTERNAL_LOCK_def log_append_locked_def log_append_check_def ftell_def Let_def
      split: if_splits)

lemma append_without_log: "g_log w = None \<Longrightarrow> log_append env lv module msg w = None"
  by (simp add: log_append_def LOG_INTERNAL_LOCK_def)

section \<open>Opening\<close>

lemma destroy_unlocked:
  assumes "g_log w = None \<or> log_unlocked w"
  shows "destroy_easy_log w = Some (w\<lparr>g_log := None\<rparr>)"
  using assms by (cases w) (auto simp: destroy_easy_log_def log_unlocked_def split: option.splits)

lemma init_cases:
  assumes "g_log w = None \<or> log_unlocked w"
  shows "(\<exists>w' g f c. init_easy_log env path lv lock w = Some (True, w') \<and> log_ready w' g f c \<and> f_path f = path \<and>
      log_path g = take PATH_MAX path \<and> log_get_level w' = level_code lv \<and> enable_lock g = lock \<and>
      files w' = (files w)(path := Some c) \<and> c = (case files w path of None \<Rightarrow> [] | Some c \<Rightarrow> c)) \<or>
    (\<exists>w'. init_easy_log env path lv lock w = Some (False, w') \<and> g_log w' = None \<and> files w' = files w)"
  using destroy_unlocked [OF assms]
  by (auto simp: init_easy_log_def Let_def fopen_append_def zeroed_log_def log_ready_def log_get_level_def tick_def
      destroy_easy_log_def)

section \<open>Properties\<close>

text \<open>An environment where everything works, an open log, and the same at the limit.\<close>

definition sample_log_env :: log_env where
  "sample_log_env = \<lparr>env_calloc = (\<lambda>w. True), env_fopen = (\<lambda>w p. True), env_start = (\<lambda>w p. 0),
     env_rename = (\<lambda>w. True), env_fwrite = (\<lambda>w s. length s),
     env_time = (\<lambda>w. \<lparr>tm_year = 124, tm_mon = 0, tm_mday = 2, tm_hour = 3, tm_min = 4, tm_sec = 5\<rparr>)\<rparr>"

definition sample_file :: "nat \<Rightarrow> c_file" where
  "sample_file pos = \<lparr>f_path = ''a'', f_append = True, f_pos = pos\<rparr>"

definition sample_log :: "nat \<Rightarrow> easy_log" where
  "sample_log pos = \<lparr>fp = Some (sample_file pos), log_path = ''a'', level = 4, enable_lock = True, lock_held = False,
     log_buf = replicate LOG_LEN_LIMIT (CHR 0x00)\<rparr>"

definition sample_world :: "nat \<Rightarrow> world" where
  "sample_world pos = \<lparr>g_log = Some (sample_log pos), files = [''a'' \<mapsto> ''x''], ticks = 0\<rparr>"

lemma sample_ready: "log_ready (sample_world pos) (sample_log pos) (sample_file pos) ''x''"
  by (simp add: log_ready_def sample_world_def sample_log_def sample_file_def)

lemma sample_env_good: "disk_takes_all sample_log_env" "opens_succeed sample_log_env" "renames sample_log_env True"
  by (simp_all add: disk_takes_all_def opens_succeed_def renames_def sample_log_env_def)

lemma sample_file_simps [simp]: "f_path (sample_file pos) = ''a''" "f_pos (sample_file pos) = pos"
  "log_path (sample_log pos) = ''a''" "g_log (sample_world pos) = Some (sample_log pos)" "lock_held (sample_log pos) = False"
  "files (sample_world pos) = [''a'' \<mapsto> ''x'']"
  by (simp_all add: sample_file_def sample_log_def sample_world_def)

lemma length_utc_format: "length (utc_format t UTC_FORMAT_LEN b) \<le> 23"
  by (simp add: utc_format_def UTC_FORMAT_LEN_def)

lemma length_log_line: "length (log_line env lv None w) \<le> 25 + length lv"
  using length_utc_format [of "env_time env w" False] by (simp add: log_line_def line_prefix_def)

text \<open>
  C25: an append below the size limit. When the whole line (time stamp, level, module, text) is
  shorter than the buffer and the disk takes it, \<open>log_append\<close> returns true and the file is the
  old content with exactly this line behind it; no other file changes and the log is ready again.
\<close>

theorem append_writes_line:
  assumes "log_ready w g f c" "disk_takes_all env" "f_pos f < LOG_USE_LIMIT"
    and "length (log_line env lv module w @ m) < LOG_LEN_LIMIT"
  shows "\<exists>w' g' f'. log_append env lv module (Some m) w = Some (True, w') \<and>
    files w' = (files w)(f_path f := Some (c @ log_line env lv module w @ m)) \<and>
    log_ready w' g' f' (c @ log_line env lv module w @ m) \<and> f_path f' = f_path f \<and> log_path g' = log_path g"
proof -
  have len: "length (log_line env lv module w) < LOG_LEN_LIMIT" "length m \<le> 2147479551"
    using assms(4) by (simp_all add: LOG_LEN_LIMIT_def)
  have "length (log_buf g) = LOG_LEN_LIMIT" using assms(1) by (simp add: log_ready_def)
  then show ?thesis
    using append_plain [OF assms(1-3) len] assms(1,4) length_line_buf [of "log_buf g" "log_line env lv module w" m] len(1)
    by (simp add: line_bytes_def log_ready_def)
qed

theorem append_writes_line_witness:
  "\<exists>w'. log_append sample_log_env ''[INFO]'' None (Some ''hi'') (sample_world 0) = Some (True, w') \<and>
    files w' ''a'' = Some (''x'' @ log_line sample_log_env ''[INFO]'' None (sample_world 0) @ ''hi'')"
  using append_writes_line [OF sample_ready sample_env_good(1), of 0 "''[INFO]''" None "''hi''"]
    length_log_line [of sample_log_env "''[INFO]''" "sample_world 0"]
  by (auto simp: LOG_USE_LIMIT_def LOG_LEN_LIMIT_def)

text \<open>
  C27: the length that is written is the one \<open>vsnprintf\<close> wanted, not the one it stored: below the
  size limit \<open>log_append\<close> reads behind its buffer, that is behind the whole allocated structure,
  exactly when the line is longer than 4096 characters.
\<close>

theorem append_overreads_iff:
  assumes "log_ready w g f c" "disk_takes_all env" "f_pos f < LOG_USE_LIMIT"
    and "length (log_line env lv module w) < LOG_LEN_LIMIT" "length m \<le> 2147479551"
  shows "log_append env lv module (Some m) w = None \<longleftrightarrow> LOG_LEN_LIMIT < length (log_line env lv module w @ m)"
  unfolding append_plain [OF assms] by simp

theorem append_overreads_witness:
  "log_append sample_log_env ''[INFO]'' None (Some (replicate 5000 (CHR ''y''))) (sample_world 0) = None"
  using append_overreads_iff [OF sample_ready sample_env_good(1), of 0 "''[INFO]''" None "replicate 5000 (CHR ''y'')"]
    length_log_line [of sample_log_env "''[INFO]''" "sample_world 0"]
  by (simp add: LOG_USE_LIMIT_def LOG_LEN_LIMIT_def)

text \<open>
  A line of exactly 4096 characters is reported as written, but its last character, the line
  feed the macros append, is a NUL in the file.
\<close>

theorem append_full_buffer:
  assumes "log_ready w g f c" "disk_takes_all env" "f_pos f < LOG_USE_LIMIT"
    and "length (log_line env lv module w) < LOG_LEN_LIMIT"
    and "length (log_line env lv module w @ m @ [x]) = LOG_LEN_LIMIT"
  shows "\<exists>w'. log_append env lv module (Some (m @ [x])) w = Some (True, w') \<and>
    files w' (f_path f) = Some (c @ log_line env lv module w @ m @ [CHR 0x00])"
proof -
  have "length (m @ [x]) \<le> 2147479551" using assms(5) by (simp add: LOG_LEN_LIMIT_def)
  moreover have "line_bytes (log_line env lv module w @ m @ [x]) = log_line env lv module w @ m @ [CHR 0x00]"
    using assms(5) by (simp add: line_bytes_def LOG_LEN_LIMIT_def)
  ultimately show ?thesis
    using append_plain [OF assms(1-4), of "m @ [x]"] assms(5) by simp
qed

theorem append_full_buffer_witness:
  "\<exists>w'. log_append sample_log_env [] None (Some (replicate (4095 - length (log_line sample_log_env [] None (sample_world 0))) (CHR ''y'') @ [CHR 0x0A]))
      (sample_world 0) = Some (True, w')"
  using append_full_buffer [OF sample_ready sample_env_good(1), of 0 "[]" None
      "replicate (4095 - length (log_line sample_log_env [] None (sample_world 0))) (CHR ''y'')" "CHR 0x0A"]
    length_log_line [of sample_log_env "[]" "sample_world 0"]
  by (fastforce simp: LOG_USE_LIMIT_def LOG_LEN_LIMIT_def)

text \<open>
  C26: rotation. When the file has reached 100 MB and \<open>rename\<close> and \<open>fopen\<close> succeed, the old content
  is kept, whole, in a file named after the log path and a time stamp, never a truncated name,
  and the log holds the new line alone; no other file changes.
\<close>

theorem rotation_keeps_content:
  assumes "log_ready w g f c" "disk_takes_all env" "LOG_USE_LIMIT \<le> f_pos f"
    and "f_path f = log_path g" "length (log_path g) < PATH_MAX" "renames env True" "opens_succeed env"
    and "length (log_line env lv module w @ m) < LOG_LEN_LIMIT"
  shows "\<exists>w' t. log_append env lv module (Some m) w = Some (True, w') \<and>
    files w' = (files w)(log_path g @ ''_'' @ utc_format t UTC_FORMAT_LEN True \<mapsto> c,
                         log_path g \<mapsto> log_line env lv module w @ m)"
proof -
  have "files w (log_path g) = Some c" using assms(1,4) by (simp add: log_ready_def)
  then show ?thesis
    using append_rotating [OF assms] by (auto simp: moved_def rotated_path_def fun_upd_twist)
qed

theorem rotation_keeps_content_witness:
  "\<exists>w' t. log_append sample_log_env ''[INFO]'' None (Some ''hi'') (sample_world 104857600) = Some (True, w') \<and>
    files w' (''a'' @ ''_'' @ utc_format t UTC_FORMAT_LEN True) = Some ''x''"
  using rotation_keeps_content [OF sample_ready sample_env_good(1) _ _ _ sample_env_good(3,2), of 104857600 "''[INFO]''" None "''hi''"]
    length_log_line [of sample_log_env "''[INFO]''" "sample_world 104857600"]
  by (fastforce simp: LOG_USE_LIMIT_def LOG_LEN_LIMIT_def PATH_MAX_def)

text \<open>
  C30: the result of \<open>rename\<close> is ignored. When it fails at the size limit, the log is opened for
  writing all the same: the 100 MB are gone, no file keeps them, and \<open>log_append\<close> returns true.
\<close>

theorem rotation_without_rename_loses_log:
  assumes "log_ready w g f c" "disk_takes_all env" "LOG_USE_LIMIT \<le> f_pos f"
    and "f_path f = log_path g" "length (log_path g) < PATH_MAX" "renames env False" "opens_succeed env"
    and "length (log_line env lv module w @ m) < LOG_LEN_LIMIT"
  shows "\<exists>w'. log_append env lv module (Some m) w = Some (True, w') \<and>
    files w' = (files w)(log_path g \<mapsto> log_line env lv module w @ m)"
  using append_rotating [OF assms] by (auto simp: moved_def)

theorem rotation_without_rename_witness:
  "\<exists>w'. log_append (sample_log_env\<lparr>env_rename := \<lambda>w. False\<rparr>) ''[INFO]'' None (Some ''hi'') (sample_world 104857600) = Some (True, w') \<and>
    dom (files w') = {''a''}"
proof -
  let ?env = "sample_log_env\<lparr>env_rename := \<lambda>w. False\<rparr>"
  have "disk_takes_all ?env" "renames ?env False" "opens_succeed ?env"
    by (simp_all add: disk_takes_all_def opens_succeed_def renames_def sample_log_env_def)
  from rotation_without_rename_loses_log [OF sample_ready this(1) _ _ _ this(2,3), of 104857600 "''[INFO]''" None "''hi''"]
  show ?thesis
    using length_log_line [of ?env "''[INFO]''" "sample_world 104857600"]
    by (fastforce simp: LOG_USE_LIMIT_def LOG_LEN_LIMIT_def PATH_MAX_def)
qed

text \<open>
  When the new file cannot be opened at the size limit, that append returns false, and every
  later append passes a null \<open>FILE *\<close> to \<open>ftell\<close>.
\<close>

theorem rotation_open_failure:
  assumes "log_ready w g f c" "LOG_USE_LIMIT \<le> f_pos f" "f_path f = log_path g" "length (log_path g) < PATH_MAX"
    and "renames env ok" "opens_fail env"
  shows "\<exists>w'. log_append env lv module msg w = Some (False, w') \<and> log_append env' lv' module' msg' w' = None"
  using append_rotation_fails [OF assms] append_without_file by blast

theorem rotation_open_failure_witness:
  "\<exists>w'. log_append (sample_log_env\<lparr>env_fopen := \<lambda>w p. False\<rparr>) ''[INFO]'' None (Some ''hi'') (sample_world 104857600) = Some (False, w') \<and>
    log_append sample_log_env ''[INFO]'' None (Some ''hi'') w' = None"
  by (rule rotation_open_failure [OF sample_ready, where ok = True])
    (simp_all add: renames_def opens_fail_def sample_log_env_def LOG_USE_LIMIT_def PATH_MAX_def)

text \<open>
  C28: the lock is released on every path: whatever fails inside, after an append that returns the
  log exists and its mutex is free, so the next append does not wait for itself.
\<close>

theorem append_releases_lock:
  assumes "g_log w = Some g" "\<not> lock_held g" "log_append env lv module msg w = Some (r, w')"
  shows "\<exists>g'. g_log w' = Some g' \<and> \<not> lock_held g'"
  using log_append_unlocked [OF _ assms(3)] assms(1,2) by (simp add: log_unlocked_def)

theorem append_releases_lock_witness:
  "\<exists>r w' g'. log_append (sample_log_env\<lparr>env_fopen := \<lambda>w p. False\<rparr>) ''[INFO]'' None None (sample_world 104857600) = Some (r, w') \<and>
    g_log w' = Some g' \<and> \<not> lock_held g'"
proof -
  let ?env = "sample_log_env\<lparr>env_fopen := \<lambda>w p. False\<rparr>"
  have "renames ?env True" "opens_fail ?env" by (simp_all add: renames_def opens_fail_def sample_log_env_def)
  then obtain w' where "log_append ?env ''[INFO]'' None None (sample_world 104857600) = Some (False, w')"
    using append_rotation_fails [OF sample_ready, where env = ?env]
    by (fastforce simp: LOG_USE_LIMIT_def PATH_MAX_def)
  then show ?thesis using append_releases_lock [of "sample_world 104857600"] by fastforce
qed

text \<open>
  C29: \<open>init_easy_log\<close>, called with no log or with one that nobody is appending to, returns, and
  either it is true and a log of the given level and path is open at the end of the file, whose
  content is kept, or it is false, there is no log, and no file has changed.
\<close>

theorem init_outcomes:
  assumes "g_log w = None \<or> (\<exists>g. g_log w = Some g \<and> \<not> lock_held g)"
  shows "(\<exists>w' g f c. init_easy_log env path lv lock w = Some (True, w') \<and> log_ready w' g f c \<and> f_path f = path \<and>
      log_path g = take PATH_MAX path \<and> log_get_level w' = level_code lv \<and> enable_lock g = lock \<and>
      files w' = (files w)(path := Some c) \<and> c = (case files w path of None \<Rightarrow> [] | Some c \<Rightarrow> c)) \<or>
    (\<exists>w'. init_easy_log env path lv lock w = Some (False, w') \<and> g_log w' = None \<and> files w' = files w)"
  using init_cases [of w env path lv lock] assms by (simp add: log_unlocked_def)

theorem init_outcomes_witness:
  "\<exists>ok w'. init_easy_log sample_log_env ''a'' LOG_LEVEL_INFO True (sample_world 0) = Some (ok, w')"
  using init_outcomes [of "sample_world 0" sample_log_env "''a''" LOG_LEVEL_INFO True] by auto













text \<open>
  Without a log every macro below fatal does nothing, but a fatal message dereferences the
  null \<open>g_log\<close> before \<open>log_append_check\<close> can test it.
\<close>

theorem macros_without_log:
  assumes "g_log w = None"
  shows "modlog env lv module msg w = (if lv = LOG_LEVEL_FATAL then None else Some w)"
  using assms append_without_log [OF assms] by (cases lv) (simp_all add: modlog_def log_get_level_def unat_le)

theorem macros_without_log_witness:
  "modlog sample_log_env LOG_LEVEL_FATAL None ''hi'' ((sample_world 0)\<lparr>g_log := None\<rparr>) = None"
  using macros_without_log [of "(sample_world 0)\<lparr>g_log := None\<rparr>" sample_log_env LOG_LEVEL_FATAL None "''hi''"] by simp

end
