(* ===== verification/Text_Lines.thy ===== *)
theory Text_Lines
  imports C_Base
begin

text \<open>
  The line functions of \<open>formatted_text/src/formatted_text.cpp\<close>: \<open>add_line_space\<close> puts a space
  around every word of printable ASCII characters, \<open>eat_trailing_space\<close> removes the blanks at
  the end. Each runs in two modes: with \<open>is_check\<close> it changes nothing and reports whether it
  would. Both are shown equal to a function on lists in one pass.

  A line is a \<open>std::string\<close>, here a list of bytes. Reading the position behind the last byte
  yields NUL, as the library promises; reading further is undefined.
\<close>

section \<open>The code\<close>

text \<open>Bytes from 128 on are negative as \<open>char\<close>, and not between \<open>!\<close> and \<open>~\<close> either way.\<close>

definition IS_CH :: "char \<Rightarrow> bool" where
  "IS_CH c \<longleftrightarrow> 33 \<le> (of_char c :: nat) \<and> (of_char c :: nat) \<le> 126 \<and> c \<noteq> CHR ''('' \<and> c \<noteq> CHR '')''"

definition str_at :: "string \<Rightarrow> nat \<Rightarrow> char option" where
  "str_at line i = (if i = length line then Some (CHR 0x00) else rd line i)"

definition str_insert :: "string \<Rightarrow> nat \<Rightarrow> char \<Rightarrow> string" where
  "str_insert line i c = take i line @ c # drop i line"

function skip_word :: "string \<Rightarrow> nat \<Rightarrow> nat option" where
  "skip_word line i = do {
     c \<leftarrow> str_at line i;
     if IS_CH c \<and> CHR '' '' \<noteq> c \<and> i < length line then skip_word line (i + 1) else Some i }"
  by pat_completeness auto
termination by (relation "measure (\<lambda>(line, i). length line - i)") auto

declare skip_word.simps [simp del]

lemma skip_word_mono: "skip_word line i = Some j \<Longrightarrow> i \<le> j"
proof (induction line i rule: skip_word.induct)
  case (1 line i)
  from "1.prems" show ?case
    by (subst (asm) skip_word.simps) (auto simp: bind_eq_Some_conv split: if_splits dest!: "1.IH")
qed

lemma skip_word_moves:
  assumes "rd line i = Some c" "IS_CH c" "skip_word line i = Some j"
  shows "i < j"
proof -
  have "i < length line" "line ! i = c" using assms(1) by (auto simp: rd_Some_iff)
  moreover have "c \<noteq> CHR '' ''" using assms(2) by (auto simp: IS_CH_def)
  ultimately have "skip_word line (i + 1) = Some j"
    using assms(2,3) by (subst (asm) skip_word.simps) (auto simp: str_at_def rd_def)
  then show ?thesis using skip_word_mono by fastforce
qed

lemma skip_word_inserted [simp]: "i \<le> length line \<Longrightarrow> skip_word (str_insert line i (CHR '' '')) i = Some i"
  by (subst skip_word.simps) (auto simp: str_at_def str_insert_def rd_def nth_append IS_CH_def)

lemma str_at_inserted [simp]: "i \<le> length line \<Longrightarrow> str_at (str_insert line i c) i = Some c"
  by (auto simp: str_at_def str_insert_def rd_def nth_append)

lemma length_str_insert [simp]: "length (str_insert line i c) = Suc (length line)"
  by (simp add: str_insert_def)

text \<open>
  The loop of \<open>add_line_space\<close> inserts while it runs towards the end; what decreases is the rest
  of the line, and, at an insertion before a word, whether the space is still missing there.
\<close>

definition space_work :: "string \<Rightarrow> nat \<Rightarrow> nat" where
  "space_work line i = 2 * (length line - i) + (if i = 1 \<or> rd line (i - 1) = Some (CHR '' '') then 0 else 1)"

lemma space_work_bounds: "2 * (length line - i) \<le> space_work line i" "space_work line i \<le> 2 * (length line - i) + 1"
  by (simp_all add: space_work_def)

lemma space_work_less:
  assumes "i < j" "i < length line"
  shows "space_work line j < space_work line i"
proof -
  have "length line - j < length line - i" using assms by linarith
  then show ?thesis using space_work_bounds [of line i] space_work_bounds [of line j] by linarith
qed

lemma str_at_bound: "str_at line i = Some c \<Longrightarrow> i \<le> length line"
  by (auto simp: str_at_def rd_Some_iff split: if_splits)

lemma space_work_after:
  assumes "i < length line" "rd line i = Some c" "IS_CH c" "rd line (i - 1) = Some p"
    and line': "line' = (if CHR '' '' \<noteq> p \<and> 1 \<noteq> i then str_insert line i (CHR '' '') else line)"
    and "skip_word line' i = Some j" "str_at line' j = Some d" "CHR '' '' \<noteq> d"
  shows "space_work (str_insert line' j (CHR '' '')) (j + 1) < space_work line i"
proof (cases "CHR '' '' \<noteq> p \<and> 1 \<noteq> i")
  case True
  then show ?thesis using assms by simp
next
  case False
  then have l: "line' = line" using line' by (simp only: if_False)
  then have "i < j" "j \<le> length line"
    using assms skip_word_moves [OF assms(2,3)] str_at_bound by blast+
  moreover have "rd (str_insert line j (CHR '' '')) j = Some (CHR '' '')"
    using \<open>j \<le> length line\<close> by (simp add: str_insert_def rd_def nth_append)
  ultimately show ?thesis using l by (simp add: space_work_def)
qed

lemma space_work_before:
  assumes "i < length line" "rd line i = Some c" "IS_CH c" "rd line (i - 1) = Some p"
    and line': "line' = (if CHR '' '' \<noteq> p \<and> 1 \<noteq> i then str_insert line i (CHR '' '') else line)"
    and "skip_word line' i = Some j" "str_at line' j = Some d" "\<not> CHR '' '' \<noteq> d"
  shows "space_work line' (j + 1) < space_work line i"
proof (cases "CHR '' '' \<noteq> p \<and> 1 \<noteq> i")
  case True
  then have "line' = str_insert line i (CHR '' '')" "j = i" using assms by auto
  moreover have "rd (str_insert line i (CHR '' '')) i = Some (CHR '' '')"
    using assms(1) by (simp add: str_insert_def rd_def nth_append)
  ultimately show ?thesis using True assms(1,4) by (auto simp: space_work_def)
next
  case False
  then have l: "line' = line" using line' by (simp only: if_False)
  then have "i < j" using assms(6) skip_word_moves [OF assms(2,3)] by blast
  then show ?thesis using l assms(1) space_work_less [of i "j + 1" line] by simp
qed

text \<open>The loop itself; the result is \<open>need_format\<close> with the line.\<close>

function add_space_loop :: "bool \<Rightarrow> string \<Rightarrow> nat \<Rightarrow> (bool \<times> string) option" where
  "add_space_loop is_check line i =
     (if i < length line then do {
        c \<leftarrow> rd line i;
        if \<not> IS_CH c then add_space_loop is_check line (i + 1)
        else do {
          p \<leftarrow> rd line (i - 1);
          if CHR '' '' \<noteq> p \<and> 1 \<noteq> i \<and> is_check then Some (True, line)
          else do {
            let line = (if CHR '' '' \<noteq> p \<and> 1 \<noteq> i then str_insert line i (CHR '' '') else line);
            j \<leftarrow> skip_word line i;
            d \<leftarrow> str_at line j;
            if CHR '' '' \<noteq> d then
              if is_check then Some (True, line)
              else add_space_loop is_check (str_insert line j (CHR '' '')) (j + 1)
            else add_space_loop is_check line (j + 1) } } }
      else Some (False, line))"
  by pat_completeness auto
termination
proof (relation "measure (\<lambda>(is_check, line, i). space_work line i)")
  fix is_check :: bool and line i c p line' j d
  assume i: "i < length line" "rd line i = Some c" "\<not> \<not> IS_CH c" "rd line (i - 1) = Some p"
    and line': "line' = (if CHR '' '' \<noteq> p \<and> 1 \<noteq> i then str_insert line i (CHR '' '') else line)"
    and j: "skip_word line' i = Some j" "str_at line' j = Some d"
  show "CHR '' '' \<noteq> d \<Longrightarrow> ((is_check, str_insert line' j (CHR '' ''), j + 1), is_check, line, i)
      \<in> measure (\<lambda>(is_check, line, i). space_work line i)"
    using space_work_after [OF i(1,2) _ i(4) line' j] i(3) by simp
  show "\<not> CHR '' '' \<noteq> d \<Longrightarrow> ((is_check, line', j + 1), is_check, line, i)
      \<in> measure (\<lambda>(is_check, line, i). space_work line i)"
    using space_work_before [OF i(1,2) _ i(4) line' j] i(3) by simp
qed (simp_all add: space_work_less)

declare add_space_loop.simps [simp del]

definition add_line_space :: "string \<Rightarrow> bool \<Rightarrow> (bool \<times> string) option" where
  "add_line_space line is_check = add_space_loop is_check line 1"

text \<open>
  \<open>eat_trailing_space\<close>; the index is an \<open>int\<close>, so the length of the line is first converted.
\<close>

function eat_loop :: "bool \<Rightarrow> string \<Rightarrow> int \<Rightarrow> (bool \<times> string) option" where
  "eat_loop is_check line i =
     (if i \<ge> 0 then do {
        c \<leftarrow> str_at line (nat i);
        if CHR '' '' = c \<or> CHR 0x09 = c then
          if is_check then Some (True, line) else eat_loop is_check (butlast line) (i - 1)
        else Some (False, line) }
      else Some (False, line))"
  by pat_completeness auto
termination by (relation "measure (\<lambda>(is_check, line, i). nat (i + 1))") auto

declare eat_loop.simps [simp del]

definition eat_trailing_space :: "string \<Rightarrow> bool \<Rightarrow> (bool \<times> string) option" where
  "eat_trailing_space line is_check = do {
     i \<leftarrow> ck (sint (word_of_nat (length line) :: i32) - 1);
     eat_loop is_check line i }"

section \<open>Words of a line\<close>

text \<open>
  What \<open>add_line_space\<close> computes: every maximal run of word characters gets a space on either
  side unless there is one. \<open>ok\<close> says that no space is needed before the next character. The
  first byte of the line is never the start of a word, and a word that starts at the second byte
  gets no space before it.
\<close>

function spaced :: "bool \<Rightarrow> string \<Rightarrow> string" where
  "spaced ok [] = []"
| "spaced ok (c # cs) = (if IS_CH c then
     (let rest = dropWhile IS_CH cs in
      (if ok then [] else '' '') @ c # takeWhile IS_CH cs @
      (if rest \<noteq> [] \<and> hd rest = CHR '' '' then [] else '' '') @ spaced True rest)
     else c # spaced (c = CHR '' '') cs)"
  by pat_completeness auto
termination by (relation "measure (\<lambda>(ok, cs). length cs)") (auto simp: length_dropWhile_le less_Suc_eq_le)

definition add_spaces :: "string \<Rightarrow> string" where
  "add_spaces line = (case line of [] \<Rightarrow> [] | c # cs \<Rightarrow> c # spaced True cs)"

definition is_blank_char :: "char \<Rightarrow> bool" where
  "is_blank_char c \<longleftrightarrow> c = CHR '' '' \<or> c = CHR 0x09"

definition eat_blanks :: "string \<Rightarrow> string" where
  "eat_blanks line = rev (dropWhile is_blank_char (rev line))"

lemma skip_word_run: "skip_word (pre @ suf) (length pre) = Some (length pre + length (takeWhile IS_CH suf))"
proof (induction suf arbitrary: pre)
  case Nil
  then show ?case by (subst skip_word.simps) (simp add: str_at_def IS_CH_def)
next
  case (Cons c cs)
  have "str_at (pre @ c # cs) (length pre) = Some c" by (simp add: str_at_def rd_middle)
  moreover have "c \<noteq> CHR '' ''" if "IS_CH c" using that by (auto simp: IS_CH_def)
  moreover have "skip_word (pre @ c # cs) (Suc (length pre)) = Some (Suc (length pre) + length (takeWhile IS_CH cs))"
    using Cons.IH [of "pre @ [c]"] by simp
  ultimately show ?case by (subst skip_word.simps) auto
qed

lemma str_at_append: "str_at (pre @ suf) (length pre) = Some (case suf of [] \<Rightarrow> CHR 0x00 | c # cs \<Rightarrow> c)"
  by (cases suf) (simp_all add: str_at_def rd_middle)

lemma str_insert_append: "str_insert (pre @ suf) (length pre) c = pre @ c # suf"
  by (simp add: str_insert_def)

lemma IS_CH_blank [simp]: "\<not> IS_CH (CHR '' '')" "\<not> IS_CH (CHR 0x09)"
  by (simp_all add: IS_CH_def)

lemma hd_rest: "dropWhile IS_CH cs = d # ds \<Longrightarrow> \<not> IS_CH d"
  by (metis dropWhile_eq_Cons_conv)

lemma spaced_length: "length cs \<le> length (spaced ok cs)"
proof (induction ok cs rule: spaced.induct)
  case (2 ok c cs)
  show ?case
  proof (cases "IS_CH c")
    case True
    have "length (dropWhile IS_CH cs) \<le> length (spaced True (dropWhile IS_CH cs))" using True "2.IH"(1) by simp
    moreover have "length (takeWhile IS_CH cs) + length (dropWhile IS_CH cs) = length cs"
      by (metis length_append takeWhile_dropWhile_id)
    ultimately show ?thesis using True by (auto simp: Let_def)
  qed (use 2 in simp)
qed simp

text \<open>The state of the loop: the processed part in front of the index.\<close>

definition space_ok :: "string \<Rightarrow> bool" where
  "space_ok pre \<longleftrightarrow> length pre = 1 \<or> last pre = CHR '' ''"

lemma last_char: "pre \<noteq> [] \<Longrightarrow> rd (pre @ suf) (length pre - 1) = Some (last pre)"
  by (cases pre rule: rev_cases) (simp_all add: rd_middle)

lemma loop_word:
  assumes "rd line i = Some c" "IS_CH c" "rd line (i - 1) = Some p"
    and "line' = (if CHR '' '' \<noteq> p \<and> 1 \<noteq> i then str_insert line i (CHR '' '') else line)"
    and "skip_word line' i = Some j" "str_at line' j = Some d"
  shows "add_space_loop chk line i =
    (if CHR '' '' \<noteq> p \<and> 1 \<noteq> i \<and> chk then Some (True, line)
     else if CHR '' '' = d then add_space_loop chk line' (j + 1)
     else if chk then Some (True, line') else add_space_loop chk (str_insert line' j (CHR '' '')) (j + 1))"
proof -
  have i: "i < length line" using assms(1) by (simp add: rd_Some_iff)
  have "add_space_loop chk line i = (if CHR '' '' \<noteq> p \<and> 1 \<noteq> i \<and> chk then Some (True, line)
     else do {
       j \<leftarrow> skip_word line' i;
       d \<leftarrow> str_at line' j;
       if CHR '' '' \<noteq> d then
         if chk then Some (True, line') else add_space_loop chk (str_insert line' j (CHR '' '')) (j + 1)
       else add_space_loop chk line' (j + 1) })"
    unfolding add_space_loop.simps [of chk line i] assms(1,3) Option.bind.bind_lunit Let_def assms(4) [symmetric]
    using i assms(2) by simp
  then show ?thesis unfolding assms(5,6) Option.bind.bind_lunit by simp
qed

lemma spaced_word:
  "IS_CH c \<Longrightarrow> spaced ok (c # cs) = (if ok then [] else '' '') @ spaced True (c # cs)"
  by (simp add: Let_def)

lemma spaced_space [simp]: "spaced ok (CHR '' '' # cs) = CHR '' '' # spaced True cs"
  by simp

text \<open>One word, when no space is missing before it.\<close>

lemma word_step:
  fixes cs :: string
  assumes "pre \<noteq> []" "space_ok pre" "IS_CH c"
  defines "w \<equiv> c # takeWhile IS_CH cs" and "rest \<equiv> dropWhile IS_CH cs"
  shows "add_space_loop chk (pre @ c # cs) (length pre) =
    (if rest \<noteq> [] \<and> hd rest = CHR '' '' then add_space_loop chk (pre @ c # cs) (length (pre @ w @ '' ''))
     else if chk then Some (True, pre @ c # cs)
     else add_space_loop chk ((pre @ w @ '' '') @ rest) (length (pre @ w @ '' '')))"
proof -
  have line: "pre @ c # cs = (pre @ w) @ rest" by (simp add: w_def rest_def)
  have skip: "skip_word (pre @ c # cs) (length pre) = Some (length (pre @ w))"
    using skip_word_run [of pre "c # cs"] assms(3) by (simp add: w_def)
  have at: "str_at (pre @ c # cs) (length (pre @ w)) = Some (case rest of [] \<Rightarrow> CHR 0x00 | c # cs \<Rightarrow> c)"
    unfolding line by (rule str_at_append)
  have ins: "str_insert (pre @ c # cs) (length (pre @ w)) (CHR '' '') = (pre @ w @ '' '') @ rest"
    unfolding line str_insert_append by simp
  have p: "\<not> (CHR '' '' \<noteq> last pre \<and> 1 \<noteq> length pre)" using assms(2) by (auto simp: space_ok_def)
  have line': "pre @ c # cs = (if CHR '' '' \<noteq> last pre \<and> 1 \<noteq> length pre
      then str_insert (pre @ c # cs) (length pre) (CHR '' '') else pre @ c # cs)"
    using p by (simp only: if_False)
  have len: "length (pre @ w @ '' '') = length (pre @ w) + 1" by simp
  show ?thesis
    unfolding loop_word [OF rd_middle assms(3) last_char [OF assms(1)] line' skip at] ins len
    using p by (cases rest) auto
qed

text \<open>The space before a word.\<close>

lemma gap_step:
  assumes "pre \<noteq> []" "\<not> space_ok pre" "IS_CH c"
  shows "add_space_loop chk (pre @ c # cs) (length pre) =
    (if chk then Some (True, pre @ c # cs)
     else add_space_loop chk ((pre @ '' '') @ c # cs) (length (pre @ '' '')))"
proof -
  have p: "CHR '' '' \<noteq> last pre" "1 \<noteq> length pre" using assms(2) by (auto simp: space_ok_def)
  have line': "(pre @ '' '') @ c # cs = (if CHR '' '' \<noteq> last pre \<and> 1 \<noteq> length pre
      then str_insert (pre @ c # cs) (length pre) (CHR '' '') else pre @ c # cs)"
    using p by (simp add: str_insert_append)
  have "skip_word ((pre @ '' '') @ c # cs) (length pre) = Some (length pre)"
    using skip_word_run [of pre "'' '' @ c # cs"] by simp
  moreover have "str_at ((pre @ '' '') @ c # cs) (length pre) = Some (CHR '' '')"
    using str_at_append [of pre "'' '' @ c # cs"] by simp
  ultimately show ?thesis
    using loop_word [OF rd_middle assms(3) last_char [OF assms(1)] line', of "length pre" "CHR '' ''" chk] p by simp
qed

lemma add_space_loop_spaced:
  "pre \<noteq> [] \<Longrightarrow> add_space_loop False (pre @ suf) (length pre) = Some (False, pre @ spaced (space_ok pre) suf)"
proof (induction suf arbitrary: pre rule: length_induct)
  case (1 suf)
  note IH = "1.IH" [rule_format] and pre = "1.prems"
  show ?case
  proof (cases suf)
    case Nil
    then show ?thesis by (subst add_space_loop.simps) simp
  next
    case (Cons c cs)
    show ?thesis
    proof (cases "IS_CH c")
      case False
      then have "add_space_loop False (pre @ c # cs) (length pre) = add_space_loop False ((pre @ [c]) @ cs) (length (pre @ [c]))"
        by (subst add_space_loop.simps) (simp add: rd_middle)
      moreover have "space_ok (pre @ [c]) = (c = CHR '' '')" using pre by (simp add: space_ok_def)
      ultimately show ?thesis using IH [of cs "pre @ [c]"] False Cons by simp
    next
      case True
      define w rest where "w = c # takeWhile IS_CH cs" and "rest = dropWhile IS_CH cs"
      have short: "length rest < length suf" using Cons by (simp add: rest_def length_dropWhile_le less_Suc_eq_le)
      have key: "add_space_loop False (p @ suf) (length p) = Some (False, p @ spaced True suf)"
        if p: "p \<noteq> []" "space_ok p" for p
      proof (cases "rest \<noteq> [] \<and> hd rest = CHR '' ''")
        case space: True
        then obtain ds where ds: "rest = CHR '' '' # ds" by (cases rest) simp_all
        have "p @ suf = (p @ w @ '' '') @ ds" using Cons ds by (simp add: w_def rest_def flip: ds)
        then have "add_space_loop False (p @ suf) (length (p @ w @ '' '')) =
            Some (False, (p @ w @ '' '') @ spaced True ds)"
          using IH [of ds "p @ w @ '' ''"] short ds by (simp add: space_ok_def)
        moreover have "add_space_loop False (p @ suf) (length p) = add_space_loop False (p @ suf) (length (p @ w @ '' ''))"
          unfolding Cons w_def word_step [OF p True] using space by (simp add: rest_def)
        moreover have "spaced True suf = w @ '' '' @ spaced True ds"
          using True ds by (simp add: Cons w_def rest_def)
        ultimately show ?thesis by simp
      next
        case False
        have "add_space_loop False ((p @ w @ '' '') @ rest) (length (p @ w @ '' '')) =
            Some (False, (p @ w @ '' '') @ spaced True rest)"
          using IH [OF short, of "p @ w @ '' ''"] by (simp add: space_ok_def)
        moreover have "add_space_loop False (p @ suf) (length p) =
            add_space_loop False ((p @ w @ '' '') @ rest) (length (p @ w @ '' ''))"
          unfolding Cons w_def word_step [OF p True] rest_def [symmetric] if_not_P [OF False] by simp
        moreover have "spaced True suf = w @ '' '' @ spaced True rest"
          using True False by (simp add: Cons w_def rest_def Let_def)
        ultimately show ?thesis by simp
      qed
      show ?thesis
      proof (cases "space_ok pre")
        case False
        then have "add_space_loop False (pre @ suf) (length pre) =
            add_space_loop False ((pre @ '' '') @ suf) (length (pre @ '' ''))"
          using gap_step [OF pre False True, of False cs] Cons by simp
        moreover have "\<dots> = Some (False, (pre @ '' '') @ spaced True suf)"
          by (rule key) (simp_all add: space_ok_def)
        ultimately show ?thesis using spaced_word [OF True, of False cs] False Cons by simp
      qed (use key pre in simp)
    qed
  qed
qed

lemma add_space_loop_check:
  "pre \<noteq> [] \<Longrightarrow> add_space_loop True (pre @ suf) (length pre) = Some (spaced (space_ok pre) suf \<noteq> suf, pre @ suf)"
proof (induction suf arbitrary: pre rule: length_induct)
  case (1 suf)
  note IH = "1.IH" [rule_format] and pre = "1.prems"
  show ?case
  proof (cases suf)
    case Nil
    then show ?thesis by (subst add_space_loop.simps) simp
  next
    case (Cons c cs)
    define w rest where "w = c # takeWhile IS_CH cs" and "rest = dropWhile IS_CH cs"
    consider "\<not> IS_CH c" | "IS_CH c" "\<not> space_ok pre" | "IS_CH c" "space_ok pre" "rest \<noteq> [] \<and> hd rest = CHR '' ''"
      | "IS_CH c" "space_ok pre" "\<not> (rest \<noteq> [] \<and> hd rest = CHR '' '')" by blast
    then show ?thesis
    proof cases
      case 1
      then have "add_space_loop True (pre @ c # cs) (length pre) = add_space_loop True ((pre @ [c]) @ cs) (length (pre @ [c]))"
        by (subst add_space_loop.simps) (simp add: rd_middle)
      moreover have "space_ok (pre @ [c]) = (c = CHR '' '')" using pre by (simp add: space_ok_def)
      ultimately show ?thesis using IH [of cs "pre @ [c]"] 1 Cons by simp
    next
      case 2
      then have "length suf < length (spaced (space_ok pre) suf)"
        using spaced_length [of "c # cs" True] Cons spaced_word [OF 2(1), of False cs] by simp
      then show ?thesis using gap_step [OF pre 2(2,1), of True cs] Cons by auto
    next
      case 3
      then obtain ds where ds: "rest = CHR '' '' # ds" by (cases rest) simp_all
      have split: "c # cs = w @ rest" by (simp add: w_def rest_def)
      have "length ds < length suf" using split ds Cons by simp
      then have "add_space_loop True (pre @ suf) (length (pre @ w @ '' '')) = Some (spaced True ds \<noteq> ds, pre @ suf)"
        using IH [of ds "pre @ w @ '' ''"] ds Cons split by (simp add: space_ok_def)
      moreover have "add_space_loop True (pre @ suf) (length pre) = add_space_loop True (pre @ suf) (length (pre @ w @ '' ''))"
        unfolding Cons w_def word_step [OF pre 3(2,1)] using 3(3) by (simp add: rest_def)
      moreover have "spaced True suf = w @ '' '' @ spaced True ds"
        using 3 ds by (simp add: Cons w_def rest_def)
      ultimately show ?thesis using 3(2) ds Cons split by simp
    next
      case 4
      have split: "c # cs = w @ rest" by (simp add: w_def rest_def)
      have "add_space_loop True (pre @ suf) (length pre) = Some (True, pre @ suf)"
        unfolding Cons word_step [OF pre 4(2,1)] rest_def [symmetric] if_not_P [OF 4(3)] by simp
      moreover have "spaced True suf = w @ '' '' @ spaced True rest"
        using 4 by (simp add: Cons w_def rest_def Let_def)
      moreover have "length rest \<le> length (spaced True rest)" by (rule spaced_length)
      ultimately have "length suf < length (spaced (space_ok pre) suf)" using 4(2) Cons split by simp
      then show ?thesis using \<open>add_space_loop True (pre @ suf) (length pre) = Some (True, pre @ suf)\<close> by auto
    qed
  qed
qed

lemma add_line_space_False [simp]: "add_line_space line False = Some (False, add_spaces line)"
proof (cases line)
  case (Cons c cs)
  then show ?thesis
    using add_space_loop_spaced [of "[c]" cs] by (simp add: add_line_space_def add_spaces_def space_ok_def)
qed (simp add: add_line_space_def add_spaces_def add_space_loop.simps)

lemma add_line_space_True [simp]: "add_line_space line True = Some (add_spaces line \<noteq> line, line)"
proof (cases line)
  case (Cons c cs)
  then show ?thesis
    using add_space_loop_check [of "[c]" cs] by (simp add: add_line_space_def add_spaces_def space_ok_def)
qed (simp add: add_line_space_def add_spaces_def add_space_loop.simps)

text \<open>Putting the spaces in a second time changes nothing.\<close>

lemma spaced_idem: "spaced ok (spaced ok cs) = spaced ok cs"
proof (induction ok cs rule: spaced.induct)
  case (2 ok c cs)
  show ?case
  proof (cases "IS_CH c")
    case False
    then show ?thesis using "2.IH"(2) [OF False] by simp
  next
    case True
    define rest w where "rest = dropWhile IS_CH cs" and "w = takeWhile IS_CH cs"
    define T where "T = (if rest \<noteq> [] \<and> hd rest = CHR '' '' then [] else '' '') @ spaced True rest"
    have IH: "spaced True (spaced True rest) = spaced True rest" using "2.IH"(1) [OF True] by (simp add: rest_def)
    have out: "spaced b (c # cs) = (if b then [] else '' '') @ c # w @ T" for b
      using True by (simp add: T_def rest_def w_def Let_def)
    obtain us where us: "T = CHR '' '' # us" "spaced True us = us"
    proof (cases "rest \<noteq> [] \<and> hd rest = CHR '' ''")
      case True
      then obtain ds where "rest = CHR '' '' # ds" by (cases rest) simp_all
      then show ?thesis using IH by (intro that [of "spaced True ds"]) (simp_all add: T_def)
    next
      case False
      then have "T = '' '' @ spaced True rest" unfolding T_def by (simp only: if_False)
      then show ?thesis using IH that by simp
    qed
    have w: "\<forall>x \<in> set w. IS_CH x" using set_takeWhileD unfolding w_def by fast
    then have "takeWhile IS_CH (w @ T) = w" "dropWhile IS_CH (w @ T) = T"
      using us(1) by (simp_all add: takeWhile_append2 dropWhile_append2)
    then have "spaced True (c # w @ T) = c # w @ T" using True us by simp
    then show ?thesis unfolding out by (cases ok) simp_all
  qed
qed simp

lemma add_spaces_idem: "add_spaces (add_spaces line) = add_spaces line"
  by (simp add: add_spaces_def spaced_idem split: list.splits)

section \<open>Blanks at the end\<close>

lemma eat_loop_run:
  "eat_loop chk line (int (length line) - 1) =
     (if chk then Some (eat_blanks line \<noteq> line, line) else Some (False, eat_blanks line))"
proof (induction line rule: rev_induct)
  case Nil
  then show ?case by (subst eat_loop.simps) (simp add: eat_blanks_def)
next
  case (snoc c cs)
  have at: "str_at (cs @ [c]) (length cs) = Some c" by (simp add: str_at_append)
  show ?case
  proof (cases "is_blank_char c")
    case True
    have "length (eat_blanks cs) \<le> length cs" by (simp add: eat_blanks_def length_dropWhile_le [of _ "rev cs", simplified])
    then have "eat_blanks cs \<noteq> cs @ [c]" by auto
    moreover have "eat_blanks (cs @ [c]) = eat_blanks cs" using True by (simp add: eat_blanks_def)
    ultimately show ?thesis
      using snoc.IH at True by (subst eat_loop.simps) (auto simp: is_blank_char_def)
  next
    case False
    then show ?thesis using at by (subst eat_loop.simps) (auto simp: is_blank_char_def eat_blanks_def)
  qed
qed

lemma int_length_index:
  "n < 2147483648 \<Longrightarrow> ck (sint (word_of_nat n :: i32) - 1) = Some (int n - 1)"
proof -
  assume n: "n < 2147483648"
  then have "unat (word_of_nat n :: i32) = n" by (simp add: unat_of_nat take_bit_nat_eq_self)
  then have "sint (word_of_nat n :: i32) = int n" using sint_of_small [of "word_of_nat n"] n by simp
  then show ?thesis using n by (simp add: ck_def)
qed

lemma eat_trailing_space_run [simp]:
  assumes "length line < 2147483648"
  shows "eat_trailing_space line False = Some (False, eat_blanks line)"
    "eat_trailing_space line True = Some (eat_blanks line \<noteq> line, line)"
  using eat_loop_run [of False line] eat_loop_run [of True line] int_length_index [OF assms]
  by (simp_all add: eat_trailing_space_def)

lemma eat_blanks_idem: "eat_blanks (eat_blanks line) = eat_blanks line"
  by (simp add: eat_blanks_def)

text \<open>What the removal of blanks means, without a reversal.\<close>

lemma eat_blanks_prefix:
  "\<exists>bs. line = eat_blanks line @ bs \<and> list_all is_blank_char bs"
proof (intro exI conjI)
  let ?bs = "rev (takeWhile is_blank_char (rev line))"
  show "line = eat_blanks line @ ?bs"
    by (metis eat_blanks_def rev_append rev_rev_ident takeWhile_dropWhile_id)
  show "list_all is_blank_char ?bs" by (auto simp: list_all_iff dest: set_takeWhileD)
qed

lemma eat_blanks_last: "eat_blanks line \<noteq> [] \<Longrightarrow> \<not> is_blank_char (last (eat_blanks line))"
  by (simp add: eat_blanks_def last_rev hd_dropWhile)

end
