(* ===== verification/Text_Officer.thy ===== *)
theory Text_Officer
  imports Text_Lines
begin

text \<open>
  The \<open>format_officer\<close> of \<open>formatted_text/src/formatted_text.cpp\<close>: its fields, reading and
  writing files, the check of a path, and the two entry points \<open>formatting_check\<close> and
  \<open>formatting_file\<close>.

  The world is the files by path and what was printed on standard output. Which system call
  fails, and with which \<open>errno\<close>, is asked from an environment, as a function of the world; a
  path that does not exist and a directory opened for writing fail in every environment. Errors
  while reading an open regular file are not modelled. \<open>exit\<close> ends the program: the left
  alternative of a sum, with the exit code.
\<close>

section \<open>The world\<close>

datatype node = Regular string | Directory | Special string  \<comment> \<open>a device or pipe, with what it yields when read\<close>

record text_world =
  tw_files :: "string \<rightharpoonup> node"
  tw_out :: string

record text_env =
  te_access :: "text_world \<Rightarrow> string \<Rightarrow> int option"       \<comment> \<open>\<open>errno\<close> of \<open>access\<close>, if it fails\<close>
  te_stat :: "text_world \<Rightarrow> string \<Rightarrow> int option"         \<comment> \<open>of \<open>stat\<close> on a path that exists\<close>
  te_fopen :: "text_world \<Rightarrow> string \<Rightarrow> int option"
  te_fread :: "text_world \<Rightarrow> string \<Rightarrow> int option"        \<comment> \<open>a first \<open>fread\<close> that yields nothing\<close>
  te_open_read :: "text_world \<Rightarrow> string \<Rightarrow> int option"
  te_open_write :: "text_world \<Rightarrow> string \<Rightarrow> int option"
  te_disk :: "text_world \<Rightarrow> string \<Rightarrow> nat option"         \<comment> \<open>bytes that can be written, if limited\<close>
  te_strerror :: "int \<Rightarrow> string"
  te_errno :: "text_world \<Rightarrow> int"                        \<comment> \<open>\<open>errno\<close> when no call has set it\<close>

definition node_bytes :: "node \<Rightarrow> string" where
  "node_bytes n = (case n of Regular s \<Rightarrow> s | Directory \<Rightarrow> [] | Special s \<Rightarrow> s)"

text \<open>A call on a path: \<open>ENOENT\<close> if there is nothing, otherwise the environment decides.\<close>

definition path_call :: "(text_world \<Rightarrow> string \<Rightarrow> int option) \<Rightarrow> text_world \<Rightarrow> string \<Rightarrow> int + node" where
  "path_call f w path = (case tw_files w path of None \<Rightarrow> Inl 2
     | Some n \<Rightarrow> (case f w path of Some e \<Rightarrow> Inl e | None \<Rightarrow> Inr n))"

definition open_write :: "text_env \<Rightarrow> string \<Rightarrow> text_world \<Rightarrow> int + text_world" where
  "open_write env path w = (
     if tw_files w path = Some Directory then Inl 21
     else case te_open_write env w path of
       Some e \<Rightarrow> Inl e
     | None \<Rightarrow> Inr (case tw_files w path of
         Some (Special s) \<Rightarrow> w
       | _ \<Rightarrow> w\<lparr>tw_files := (tw_files w)(path \<mapsto> Regular [])\<rparr>))"

text \<open>Writing to an open file from its beginning.\<close>

definition write_bytes :: "text_env \<Rightarrow> string \<Rightarrow> string \<Rightarrow> text_world \<Rightarrow> text_world" where
  "write_bytes env path data w = (case tw_files w path of
     Some (Regular s) \<Rightarrow> w\<lparr>tw_files := (tw_files w)(path \<mapsto> Regular
       (case te_disk env w path of None \<Rightarrow> data | Some n \<Rightarrow> take n data))\<rparr>
   | _ \<Rightarrow> w)"

section \<open>Output\<close>

datatype arg = S string | U nat

fun vformat :: "string \<Rightarrow> arg list \<Rightarrow> string option" where
  "vformat [] as = Some []"
| "vformat (c # f) as = (
     if c \<noteq> CHR ''%'' then map_option ((#) c) (vformat f as)
     else case (f, as) of
       (CHR ''s'' # f, S s # as) \<Rightarrow> map_option ((@) s) (vformat f as)
     | (CHR ''u'' # f, U n # as) \<Rightarrow> map_option ((@) (digits n)) (vformat f as)
     | _ \<Rightarrow> None)"

type_synonym deal_with_line = "string \<Rightarrow> bool \<Rightarrow> (bool \<times> string) option"

record format_officer =
  func_vec :: "deal_with_line list"
  line_vec :: "string list"
  backup :: bool
  dispaly :: bool
  fmt_buf :: string

definition newline :: string where
  "newline = [CHR 0x0A]"

definition tab :: string where
  "tab = [CHR 0x09]"

definition red_frame :: string where
  "red_frame = CHR 0x1B # ''[1;31;1m%s'' @ CHR 0x1B # ''[m''"

definition green_frame :: string where
  "green_frame = CHR 0x1B # ''[1;32;1m%s'' @ CHR 0x1B # ''[m''"

definition show_plain :: "string \<Rightarrow> arg list \<Rightarrow> format_officer \<times> text_world \<Rightarrow> (format_officer \<times> text_world) option" where
  "show_plain f as s = (case s of (fo, w) \<Rightarrow>
     if \<not> dispaly fo then Some (fo, w)
     else do {
       out \<leftarrow> vformat f as;
       Some (fo, w\<lparr>tw_out := tw_out w @ out\<rparr>) })"

definition show_frame :: "string \<Rightarrow> string \<Rightarrow> arg list \<Rightarrow> format_officer \<times> text_world \<Rightarrow> (format_officer \<times> text_world) option" where
  "show_frame frame f as s = (case s of (fo, w) \<Rightarrow>
     if \<not> dispaly fo then Some (fo, w)
     else do {
       line \<leftarrow> vformat frame [S f];
       let buf = take 1023 line;
       out \<leftarrow> vformat buf as;
       Some (fo\<lparr>fmt_buf := buf\<rparr>, w\<lparr>tw_out := tw_out w @ out\<rparr>) })"

definition show_red :: "string \<Rightarrow> arg list \<Rightarrow> format_officer \<times> text_world \<Rightarrow> (format_officer \<times> text_world) option" where
  "show_red = show_frame red_frame"

definition show_green :: "string \<Rightarrow> arg list \<Rightarrow> format_officer \<times> text_world \<Rightarrow> (format_officer \<times> text_world) option" where
  "show_green = show_frame green_frame"

section \<open>Reading and writing a file\<close>

text \<open>Successive \<open>getline\<close> calls until one fails: a last line without a newline counts, an empty rest does not.\<close>

function getlines :: "string \<Rightarrow> string list" where
  "getlines s = (if s = [] then []
     else takeWhile (\<lambda>c. c \<noteq> CHR 0x0A) s # getlines (tl (dropWhile (\<lambda>c. c \<noteq> CHR 0x0A) s)))"
  by pat_completeness auto
termination
proof (relation "measure length")
  fix s :: string
  assume "s \<noteq> []"
  then have "0 < length s" by simp
  moreover have "length (dropWhile (\<lambda>c. c \<noteq> CHR 0x0A) s) \<le> length s" by (rule length_dropWhile_le)
  ultimately have "length (tl (dropWhile (\<lambda>c. c \<noteq> CHR 0x0A) s)) < length s" unfolding length_tl by linarith
  then show "(tl (dropWhile (\<lambda>c. c \<noteq> CHR 0x0A) s), s) \<in> measure length" unfolding in_measure .
qed (rule wf_measure)

declare getlines.simps [simp del]

definition out_lines :: "string list \<Rightarrow> string" where
  "out_lines ls = concat (map (\<lambda>l. l @ newline) ls)"

definition load_target_file :: "text_env \<Rightarrow> string \<Rightarrow> format_officer \<times> text_world \<Rightarrow>
    (int \<times> format_officer \<times> text_world) option" where
  "load_target_file env p_path s = (case s of (fo, w) \<Rightarrow>
     case path_call (te_open_read env) w p_path of
       Inl e \<Rightarrow> do {
         s \<leftarrow> show_red (''open error: %s'' @ newline) [S (te_strerror env e)] s;
         Some (- 1, s) }
     | Inr n \<Rightarrow> Some (0, fo\<lparr>line_vec := line_vec fo @ getlines (node_bytes n)\<rparr>, w))"

definition save_to_file :: "text_env \<Rightarrow> string \<Rightarrow> format_officer \<times> text_world \<Rightarrow>
    (bool \<times> format_officer \<times> text_world) option" where
  "save_to_file env p_path s = (case s of (fo, w) \<Rightarrow>
     if line_vec fo = [] then do {
       s \<leftarrow> show_red (''nothing to write'' @ newline) [] s;
       Some (False, s) }
     else case open_write env p_path w of
       Inl e \<Rightarrow> do {
         s \<leftarrow> show_red (''%s open error: %s'' @ newline) [S p_path, S (te_strerror env e)] s;
         Some (False, s) }
     | Inr w \<Rightarrow> Some (True, fo, write_bytes env p_path (out_lines (line_vec fo)) w))"

section \<open>Is the path acceptable?\<close>

definition MAXIMUM_FILE_SIZE :: nat where
  "MAXIMUM_FILE_SIZE = 10485760"

text \<open>\<open>sizeof(Elf64_Ehdr)\<close>\<close>

definition elf_head_size :: nat where
  "elf_head_size = 64"

definition elf_magic :: "string \<Rightarrow> bool option" where
  "elf_magic head = do {
     c0 \<leftarrow> rd head 0;
     if c0 \<noteq> CHR 0x7F then Some False else do {
       c1 \<leftarrow> rd head 1;
       if c1 \<noteq> CHR ''E'' then Some False else do {
         c2 \<leftarrow> rd head 2;
         if c2 \<noteq> CHR ''L'' then Some False else do {
           c3 \<leftarrow> rd head 3;
           Some (c3 = CHR ''F'') } } } }"

definition file_is_elf :: "text_env \<Rightarrow> string \<Rightarrow> text_world \<Rightarrow> (int + bool) option" where
  "file_is_elf env path w = (case path_call (te_fopen env) w path of
     Inl e \<Rightarrow> Some (Inl e)
   | Inr n \<Rightarrow> (case te_fread env w path of
       Some e \<Rightarrow> Some (Inl e)
     | None \<Rightarrow> if node_bytes n = [] then Some (Inl (te_errno env w))
         else map_option Inr (elf_magic (take elf_head_size (node_bytes n)))))"

text \<open>
  The result of \<open>stat\<close> is not looked at. When it fails after \<open>access\<close> has succeeded (the path went
  away in between, say), \<open>st\<close> is read uninitialised: \<open>None\<close>.
\<close>

definition is_invalid_path :: "text_env \<Rightarrow> string option \<Rightarrow> format_officer \<times> text_world \<Rightarrow>
    (int \<times> text_world + bool \<times> format_officer \<times> text_world) option" where
  "is_invalid_path env path s = (case path of
     None \<Rightarrow> do {
       s \<leftarrow> show_red (''the target path is empty'' @ newline) [] s;
       Some (Inr (True, s)) }
   | Some path \<Rightarrow> (case path_call (te_access env) (snd s) path of
       Inl e \<Rightarrow> do {
         s \<leftarrow> show_red (''%s: %s'' @ newline) [S path, S (te_strerror env e)] s;
         Some (Inr (True, s)) }
     | Inr n \<Rightarrow> if te_stat env (snd s) path \<noteq> None then None else (case n of
           Directory \<Rightarrow> do {
             s \<leftarrow> show_red (''the target path is a directory: %s'' @ newline) [S path] s;
             Some (Inr (True, s)) }
         | Special _ \<Rightarrow> do {
             s \<leftarrow> show_red (''the file is not a regular file'' @ newline) [] s;
             Some (Inr (True, s)) }
         | Regular content \<Rightarrow>
           if length content > MAXIMUM_FILE_SIZE then do {
             s \<leftarrow> show_red (''file size exceeds the limit: %u'' @ newline) [U MAXIMUM_FILE_SIZE] s;
             Some (Inr (True, s)) }
           else if length content > elf_head_size then do {
             elf \<leftarrow> file_is_elf env path (snd s);
             case elf of
               Inl code \<Rightarrow> Some (Inl (code, snd s))
             | Inr True \<Rightarrow> do {
                 s \<leftarrow> show_red (''this file type is not supported'' @ newline) [] s;
                 Some (Inr (True, s)) }
             | Inr False \<Rightarrow> Some (Inr (False, s)) }
           else Some (Inr (False, s)))))"

section \<open>Formatting\<close>

definition format_officer_create :: format_officer where
  "format_officer_create = \<lparr>func_vec = [], line_vec = [], backup = True, dispaly = True, fmt_buf = []\<rparr>"

definition FORMAT_UNDEFINED :: u32 where "FORMAT_UNDEFINED = 0"
definition FORMAT_ADD_SPACE :: u32 where "FORMAT_ADD_SPACE = push_bit 1 1"
definition FORMAT_EAT_SPACE :: u32 where "FORMAT_EAT_SPACE = push_bit 2 1"
definition FORMAT_FMT_CHECK :: u32 where "FORMAT_FMT_CHECK = push_bit 29 1"
definition FORMAT_UNDISPLAY :: u32 where "FORMAT_UNDISPLAY = push_bit 30 1"
definition FORMAT_TO_BACKUP :: u32 where "FORMAT_TO_BACKUP = push_bit 31 1"

definition has_flag :: "u32 \<Rightarrow> u32 \<Rightarrow> bool" where
  "has_flag flags f \<longleftrightarrow> flags AND f \<noteq> 0"

definition get_format_func_array :: "format_officer \<Rightarrow> u32 \<Rightarrow> format_officer" where
  "get_format_func_array fo flags = fo\<lparr>func_vec :=
     (if has_flag flags FORMAT_ADD_SPACE then [add_line_space] else []) @
     (if has_flag flags FORMAT_EAT_SPACE then [eat_trailing_space] else [])\<rparr>"

text \<open>The inner loop over the functions; the first component says that the outer function returns.\<close>

fun deal_line :: "deal_with_line list \<Rightarrow> bool \<Rightarrow> bool \<Rightarrow> string \<Rightarrow> (bool \<times> bool \<times> string) option" where
  "deal_line [] is_check result line = Some (False, result, line)"
| "deal_line (func # fs) is_check result line = do {
     (result, line) \<leftarrow> func line is_check;
     if result \<and> is_check then Some (True, result, line)
     else deal_line fs is_check result line }"

function deal_lines :: "deal_with_line list \<Rightarrow> bool \<Rightarrow> int \<Rightarrow> int \<Rightarrow> bool \<Rightarrow> string list \<Rightarrow> (bool \<times> string list) option" where
  "deal_lines fs is_check line_num i result ls = (if i < line_num then do {
       l \<leftarrow> rdi ls i;
       (ret, result, l) \<leftarrow> deal_line fs is_check result l;
       ls \<leftarrow> wri ls i l;
       if ret then Some (result, ls)
       else deal_lines fs is_check line_num (i + 1) result ls }
     else Some (result, ls))"
  by pat_completeness auto
termination by (relation "measure (\<lambda>(fs, is_check, line_num, i, result, ls). nat (line_num - i))") auto

declare deal_lines.simps [simp del]

definition format_check_each_line :: "format_officer \<Rightarrow> bool \<Rightarrow> (bool \<times> format_officer) option" where
  "format_check_each_line fo is_check = (let
     line_num = sint (word_of_nat (length (line_vec fo)) :: i32);
     func_num = length (func_vec fo)
     in if 0 = func_num then Some (False, fo)
     else do {
       (result, ls) \<leftarrow> deal_lines (func_vec fo) is_check line_num 0 False (line_vec fo);
       Some (result, fo\<lparr>line_vec := ls\<rparr>) })"

definition formatting_check :: "text_env \<Rightarrow> string option \<Rightarrow> u32 \<Rightarrow> format_officer \<times> text_world \<Rightarrow>
    (int \<times> text_world + bool \<times> format_officer \<times> text_world) option" where
  "formatting_check env p_path flags s = (
     if \<not> has_flag flags FORMAT_FMT_CHECK then Some (Inr (False, s))
     else do {
       r \<leftarrow> is_invalid_path env p_path s;
       case r of
         Inl e \<Rightarrow> Some (Inl e)
       | Inr (True, s) \<Rightarrow> Some (Inr (False, s))
       | Inr (False, fo, w) \<Rightarrow> do {
           let fo = fo\<lparr>dispaly := \<not> has_flag flags FORMAT_UNDISPLAY\<rparr>;
           (code, s) \<leftarrow> load_target_file env (the p_path) (fo, w);
           if code \<noteq> 0 then do {
             s \<leftarrow> show_red (''error reading file'' @ newline) [] s;
             Some (Inr (False, s)) }
           else do {
             let (fo, w) = s;
             let fo = get_format_func_array fo flags;
             if length (func_vec fo) = 0 then do {
               s \<leftarrow> show_red (''No formatting type specified'' @ newline) [] (fo, w);
               Some (Inr (False, s)) }
             else do {
               (result, fo) \<leftarrow> format_check_each_line fo True;
               s \<leftarrow> (if result
                 then show_red (CHR 0x22 # ''%s'' @ CHR 0x22 # '' needs to be formatted'' @ newline) [S (the p_path)] (fo, w)
                 else show_green (CHR 0x22 # ''%s'' @ CHR 0x22 # '' no formatting required'' @ newline) [S (the p_path)] (fo, w));
               Some (Inr (result, s)) } } } })"

definition read_and_backup :: "text_env \<Rightarrow> string \<Rightarrow> format_officer \<times> text_world \<Rightarrow>
    (bool \<times> format_officer \<times> text_world) option" where
  "read_and_backup env p_path s = do {
     let backup_path = p_path @ ''.bak'';
     (code, s) \<leftarrow> load_target_file env p_path s;
     if code \<noteq> 0 then do {
       s \<leftarrow> show_red (''error reading file'' @ newline) [] s;
       Some (False, s) }
     else if \<not> backup (fst s) then Some (True, s)
     else do {
       (saved, s) \<leftarrow> save_to_file env backup_path s;
       if saved then do {
         s \<leftarrow> show_plain ''backup to: '' [] s;
         s \<leftarrow> show_green (tab @ ''%s'' @ newline) [S backup_path] s;
         Some (True, s) }
       else Some (False, s) } }"

definition formatting_file :: "text_env \<Rightarrow> string option \<Rightarrow> string option \<Rightarrow> u32 \<Rightarrow> format_officer \<times> text_world \<Rightarrow>
    (int \<times> text_world + bool \<times> format_officer \<times> text_world) option" where
  "formatting_file env p_path p_save_path flags s = (case s of (fo, w) \<Rightarrow>
     let fo = fo\<lparr>backup := has_flag flags FORMAT_TO_BACKUP, dispaly := \<not> has_flag flags FORMAT_UNDISPLAY\<rparr> in
     if FORMAT_UNDEFINED = flags then do {
       s \<leftarrow> show_red (''No formatting type specified'' @ newline) [] (fo, w);
       Some (Inr (False, s)) }
     else do {
       r \<leftarrow> is_invalid_path env p_path (fo, w);
       case r of
         Inl e \<Rightarrow> Some (Inl e)
       | Inr (True, s) \<Rightarrow> Some (Inr (False, s))
       | Inr (False, s) \<Rightarrow> do {
           let path = the p_path;
           s \<leftarrow> show_plain ''input path: '' [] s;
           s \<leftarrow> show_green (tab @ ''%s'' @ newline) [S path] s;
           let save_path = (case p_save_path of None \<Rightarrow> path | Some p \<Rightarrow> p);
           (read, s) \<leftarrow> read_and_backup env path s;
           if \<not> read then Some (Inr (False, s))
           else do {
             let (fo, w) = s;
             let fo = get_format_func_array fo flags;
             (_, fo) \<leftarrow> format_check_each_line fo False;
             (saved, s) \<leftarrow> save_to_file env save_path (fo, w);
             if saved then do {
               s \<leftarrow> show_plain ''save to: '' [] s;
               s \<leftarrow> show_green (tab @ ''%s'' @ newline) [S save_path] s;
               Some (Inr (True, s)) }
             else Some (Inr (False, s)) } } })"

end
