(* ===== verification/Text_Props.thy ===== *)
theory Text_Props
  imports Text_Officer
begin

text \<open>
  What the two entry points of \<open>formatted_text\<close> do to files: the lines read and written, the
  effect of the formatting functions on all lines, the check of the path, and how the pieces fit
  together.
\<close>

section \<open>Output never fails and touches nothing else\<close>

text \<open>What printing may change: the buffer of the officer and standard output.\<close>

definition same_but_output :: "format_officer \<times> text_world \<Rightarrow> format_officer \<times> text_world \<Rightarrow> bool" where
  "same_but_output s s' \<longleftrightarrow> func_vec (fst s') = func_vec (fst s) \<and> line_vec (fst s') = line_vec (fst s) \<and>
     backup (fst s') = backup (fst s) \<and> dispaly (fst s') = dispaly (fst s) \<and> tw_files (snd s') = tw_files (snd s)"

lemma same_refl [simp]: "same_but_output s s"
  by (simp add: same_but_output_def)

lemma same_trans: "same_but_output s s' \<Longrightarrow> same_but_output s' s'' \<Longrightarrow> same_but_output s s''"
  by (simp add: same_but_output_def)

lemma show_plain_same:
  assumes "vformat f as \<noteq> None"
  shows "\<exists>s'. show_plain f as s = Some s' \<and> same_but_output s s'"
  using assms by (cases s) (auto simp: show_plain_def same_but_output_def)

lemma vformat_literal [simp]: "vformat (red_frame) [S f] = Some (CHR 0x1B # ''[1;31;1m'' @ f @ CHR 0x1B # ''[m'')"
  "vformat (green_frame) [S f] = Some (CHR 0x1B # ''[1;32;1m'' @ f @ CHR 0x1B # ''[m'')"
  by (simp_all add: red_frame_def green_frame_def)

lemma show_red_same:
  assumes "vformat (take 1023 (CHR 0x1B # ''[1;31;1m'' @ f @ CHR 0x1B # ''[m'')) as \<noteq> None"
  shows "\<exists>s'. show_red f as s = Some s' \<and> same_but_output s s'"
  using assms by (cases s) (auto simp: show_red_def show_frame_def same_but_output_def Let_def)

lemma show_green_same:
  assumes "vformat (take 1023 (CHR 0x1B # ''[1;32;1m'' @ f @ CHR 0x1B # ''[m'')) as \<noteq> None"
  shows "\<exists>s'. show_green f as s = Some s' \<and> same_but_output s s'"
  using assms by (cases s) (auto simp: show_green_def show_frame_def same_but_output_def Let_def)

text \<open>The messages of the program.\<close>

lemma messages:
  "\<exists>s'. show_red (''open error: %s'' @ newline) [S a] s = Some s' \<and> same_but_output s s'"
  "\<exists>s'. show_red (''nothing to write'' @ newline) [] s = Some s' \<and> same_but_output s s'"
  "\<exists>s'. show_red (''%s open error: %s'' @ newline) [S a, S b] s = Some s' \<and> same_but_output s s'"
  "\<exists>s'. show_red (''the target path is empty'' @ newline) [] s = Some s' \<and> same_but_output s s'"
  "\<exists>s'. show_red (''%s: %s'' @ newline) [S a, S b] s = Some s' \<and> same_but_output s s'"
  "\<exists>s'. show_red (''the target path is a directory: %s'' @ newline) [S a] s = Some s' \<and> same_but_output s s'"
  "\<exists>s'. show_red (''the file is not a regular file'' @ newline) [] s = Some s' \<and> same_but_output s s'"
  "\<exists>s'. show_red (''file size exceeds the limit: %u'' @ newline) [U n] s = Some s' \<and> same_but_output s s'"
  "\<exists>s'. show_red (''this file type is not supported'' @ newline) [] s = Some s' \<and> same_but_output s s'"
  "\<exists>s'. show_red (''error reading file'' @ newline) [] s = Some s' \<and> same_but_output s s'"
  "\<exists>s'. show_red (''No formatting type specified'' @ newline) [] s = Some s' \<and> same_but_output s s'"
  "\<exists>s'. show_red (CHR 0x22 # ''%s'' @ CHR 0x22 # '' needs to be formatted'' @ newline) [S a] s = Some s' \<and> same_but_output s s'"
  "\<exists>s'. show_green (CHR 0x22 # ''%s'' @ CHR 0x22 # '' no formatting required'' @ newline) [S a] s = Some s' \<and> same_but_output s s'"
  "\<exists>s'. show_green (tab @ ''%s'' @ newline) [S a] s = Some s' \<and> same_but_output s s'"
  "\<exists>s'. show_plain ''backup to: '' [] s = Some s' \<and> same_but_output s s'"
  "\<exists>s'. show_plain ''input path: '' [] s = Some s' \<and> same_but_output s s'"
  "\<exists>s'. show_plain ''save to: '' [] s = Some s' \<and> same_but_output s s'"
  by (intro show_red_same show_green_same show_plain_same; simp add: newline_def tab_def)+

section \<open>Lines and files\<close>

lemma getlines_line: "CHR 0x0A \<notin> set l \<Longrightarrow> getlines (l @ newline @ s) = l # getlines s"
proof -
  assume l: "CHR 0x0A \<notin> set l"
  have "takeWhile (\<lambda>c. c \<noteq> CHR 0x0A) (l @ CHR 0x0A # s) = l"
    "dropWhile (\<lambda>c. c \<noteq> CHR 0x0A) (l @ CHR 0x0A # s) = CHR 0x0A # s"
    using l by (auto simp: takeWhile_append dropWhile_append)
  then show ?thesis by (subst getlines.simps) (simp add: newline_def)
qed

lemma getlines_out_lines: "list_all (\<lambda>l. CHR 0x0A \<notin> set l) ls \<Longrightarrow> getlines (out_lines ls) = ls"
proof (induction ls)
  case Nil
  then show ?case by (subst getlines.simps) (simp add: out_lines_def)
next
  case (Cons l ls)
  then show ?case using getlines_line [of l "out_lines ls"] by (simp add: out_lines_def)
qed

lemma getlines_no_newline: "list_all (\<lambda>l. CHR 0x0A \<notin> set l) (getlines s)"
proof (induction s rule: getlines.induct)
  case (1 s)
  then show ?case by (subst getlines.simps) (auto dest: set_takeWhileD)
qed

lemma getlines_empty_iff: "getlines s = [] \<longleftrightarrow> s = []"
  by (subst getlines.simps) simp

lemma out_lines_Nil_iff: "out_lines ls = [] \<longleftrightarrow> ls = []"
  by (cases ls) (simp_all add: out_lines_def newline_def)

section \<open>The functions on all lines\<close>

definition format_line :: "u32 \<Rightarrow> string \<Rightarrow> string" where
  "format_line flags l = (let l = (if has_flag flags FORMAT_ADD_SPACE then add_spaces l else l)
     in if has_flag flags FORMAT_EAT_SPACE then eat_blanks l else l)"

definition line_settled :: "u32 \<Rightarrow> string \<Rightarrow> bool" where
  "line_settled flags l \<longleftrightarrow> (has_flag flags FORMAT_ADD_SPACE \<longrightarrow> add_spaces l = l) \<and>
     (has_flag flags FORMAT_EAT_SPACE \<longrightarrow> eat_blanks l = l)"

text \<open>Lines that an \<open>int\<close> can count and index, with room for the spaces.\<close>

definition lines_fit :: "string list \<Rightarrow> bool" where
  "lines_fit ls \<longleftrightarrow> length ls < 2147483648 \<and> list_all (\<lambda>l. length l < 536870912) ls"

lemma spaced_bound: "length (spaced ok cs) \<le> 3 * length cs"
proof (induction ok cs rule: spaced.induct)
  case (2 ok c cs)
  show ?case
  proof (cases "IS_CH c")
    case True
    have "length (spaced True (dropWhile IS_CH cs)) \<le> 3 * length (dropWhile IS_CH cs)" using True "2.IH"(1) by simp
    moreover have "length (takeWhile IS_CH cs) + length (dropWhile IS_CH cs) = length cs"
      by (metis length_append takeWhile_dropWhile_id)
    ultimately show ?thesis using True by (auto simp: Let_def)
  qed (use 2 in simp)
qed simp

lemma add_spaces_bound: "length (add_spaces l) \<le> 3 * length l"
proof (cases l)
  case (Cons c cs)
  then show ?thesis using spaced_bound [of True cs] by (simp add: add_spaces_def)
qed (simp add: add_spaces_def)

definition line_functions :: "u32 \<Rightarrow> deal_with_line list" where
  "line_functions flags = (if has_flag flags FORMAT_ADD_SPACE then [add_line_space] else []) @
     (if has_flag flags FORMAT_EAT_SPACE then [eat_trailing_space] else [])"

lemma get_format_func_array_line_functions: "get_format_func_array fo flags = fo\<lparr>func_vec := line_functions flags\<rparr>"
  by (simp add: get_format_func_array_def line_functions_def)

text \<open>
  The interface between the officer and a function of its table: formatting yields \<open>spec\<close>, a
  check leaves the line alone and reports a difference, and formatting settles.
\<close>

locale line_formatter =
  fixes run :: deal_with_line and spec :: "string \<Rightarrow> string" and fits :: "string \<Rightarrow> bool"
  assumes formats: "fits l \<Longrightarrow> run l False = Some (False, spec l)"
    and checks: "fits l \<Longrightarrow> run l True = Some (spec l \<noteq> l, l)"
    and settles: "spec (spec l) = spec l"

context line_formatter begin

lemma deal_format: "fits l \<Longrightarrow> deal_line (run # fs) False r l = deal_line fs False False (spec l)"
  by (simp add: formats)

lemma deal_check:
  "fits l \<Longrightarrow> deal_line (run # fs) True r l = (if spec l = l then deal_line fs True False l else Some (True, True, l))"
  by (simp add: checks)

lemma formatted_passes: "fits (spec l) \<Longrightarrow> run (spec l) True = Some (False, spec l)"
  by (simp add: checks settles)

end

interpretation add_space: line_formatter add_line_space add_spaces "\<lambda>_. True"
  by unfold_locales (simp_all add: add_spaces_idem)

interpretation eat_space: line_formatter eat_trailing_space eat_blanks "\<lambda>l. length l < 2147483648"
  by unfold_locales (simp_all add: eat_blanks_idem)

lemma deal_line_format:
  assumes "length l < 536870912"
  shows "\<exists>r. deal_line (line_functions flags) False result l = Some (False, r, format_line flags l)"
  using assms add_spaces_bound [of l]
  by (auto simp: line_functions_def format_line_def add_space.deal_format eat_space.deal_format simp del: deal_line.simps(2))

lemma deal_line_check:
  assumes "length l < 536870912"
  shows "deal_line (line_functions flags) True False l = Some (\<not> line_settled flags l, \<not> line_settled flags l, l)"
  using assms
  by (auto simp: line_functions_def line_settled_def add_space.deal_check eat_space.deal_check simp del: deal_line.simps(2))

lemma deal_lines_step:
  "deal_lines fs chk (int (length (ls1 @ l # ls2))) (int (length ls1)) r (ls1 @ l # ls2) = do {
     (ret, r, l) \<leftarrow> deal_line fs chk r l;
     if ret then Some (r, ls1 @ l # ls2)
     else deal_lines fs chk (int (length ((ls1 @ [l]) @ ls2))) (int (length (ls1 @ [l]))) r ((ls1 @ [l]) @ ls2) }"
  by (subst deal_lines.simps) (cases "deal_line fs chk r l"; auto simp: add.commute [of _ "1 :: int"])

lemma deal_lines_end: "deal_lines fs chk (int (length ls)) (int (length ls)) r ls = Some (r, ls)"
  by (subst deal_lines.simps) simp

lemma deal_lines_format:
  assumes "list_all (\<lambda>l. length l < 536870912) ls"
  shows "\<exists>r'. deal_lines (line_functions flags) False (int (length (ls1 @ ls))) (int (length ls1)) r (ls1 @ ls) =
    Some (r', ls1 @ map (format_line flags) ls)"
  using assms
proof (induction ls arbitrary: ls1 r)
  case Nil
  show ?case using deal_lines_end [of _ _ ls1] by simp
next
  case (Cons l ls)
  obtain r1 where r1: "deal_line (line_functions flags) False r l = Some (False, r1, format_line flags l)"
    using deal_line_format [of l flags r] Cons.prems by auto
  obtain r2 where r2: "deal_lines (line_functions flags) False (int (length ((ls1 @ [format_line flags l]) @ ls)))
      (int (length (ls1 @ [format_line flags l]))) r1 ((ls1 @ [format_line flags l]) @ ls) =
      Some (r2, (ls1 @ [format_line flags l]) @ map (format_line flags) ls)"
    using Cons.IH [of "ls1 @ [format_line flags l]" r1] Cons.prems by auto
  show ?case unfolding deal_lines_step r1 Option.bind.bind_lunit prod.case if_False r2 by simp
qed

lemma deal_lines_check:
  assumes "list_all (\<lambda>l. length l < 536870912) ls"
  shows "deal_lines (line_functions flags) True (int (length (ls1 @ ls))) (int (length ls1)) False (ls1 @ ls) =
    Some (\<not> list_all (line_settled flags) ls, ls1 @ ls)"
  using assms
proof (induction ls arbitrary: ls1)
  case Nil
  show ?case using deal_lines_end [of _ _ ls1] by simp
next
  case (Cons l ls)
  have d: "deal_line (line_functions flags) True False l = Some (\<not> line_settled flags l, \<not> line_settled flags l, l)"
    using Cons.prems by (intro deal_line_check) simp
  show ?case
  proof (cases "line_settled flags l")
    case True
    then show ?thesis using Cons.IH [of "ls1 @ [l]"] Cons.prems
      unfolding deal_lines_step d by simp
  next
    case False
    then show ?thesis unfolding deal_lines_step d by simp
  qed
qed

lemma int_count: "n < 2147483648 \<Longrightarrow> sint (word_of_nat n :: i32) = int n"
  using int_length_index [of n] by (auto simp: ck_def split: if_splits)

lemma each_line_format:
  assumes "lines_fit (line_vec fo)" "func_vec fo = line_functions flags"
  shows "\<exists>r. format_check_each_line fo False = Some (r, fo\<lparr>line_vec := map (format_line flags) (line_vec fo)\<rparr>)"
proof (cases "line_functions flags = []")
  case True
  then have "format_line flags = (\<lambda>l. l)" by (auto simp: line_functions_def format_line_def split: if_splits)
  then show ?thesis using True assms by (intro exI [of _ False]) (simp add: format_check_each_line_def)
next
  case False
  then show ?thesis
    using assms deal_lines_format [of "line_vec fo" flags "[]" False] int_count [of "length (line_vec fo)"]
    by (auto simp: format_check_each_line_def lines_fit_def)
qed

lemma each_line_check:
  assumes "lines_fit (line_vec fo)" "func_vec fo = line_functions flags" "line_functions flags \<noteq> []"
  shows "format_check_each_line fo True = Some (\<not> list_all (line_settled flags) (line_vec fo), fo)"
  using assms deal_lines_check [of "line_vec fo" flags "[]"] int_count [of "length (line_vec fo)"]
  by (simp add: format_check_each_line_def lines_fit_def)

section \<open>Paths\<close>

definition is_elf_content :: "string \<Rightarrow> bool" where
  "is_elf_content s \<longleftrightarrow> take 4 s = [CHR 0x7F, CHR ''E'', CHR ''L'', CHR ''F'']"

lemma elf_magic_content:
  assumes "4 \<le> length s"
  shows "elf_magic (take elf_head_size s) = Some (is_elf_content s)"
proof -
  obtain a b c d r where "s = a # b # c # d # r" using assms by (auto simp: numeral_eq_Suc Suc_le_length_iff)
  then show ?thesis by (simp add: elf_magic_def elf_head_size_def is_elf_content_def rd_def)
qed

text \<open>An acceptable content; the ELF test applies to files longer than an ELF header.\<close>

definition text_content :: "string \<Rightarrow> bool" where
  "text_content s \<longleftrightarrow> length s \<le> MAXIMUM_FILE_SIZE \<and> \<not> (length s > elf_head_size \<and> is_elf_content s)"

text \<open>An environment in which no call fails.\<close>

definition no_failures :: "text_env \<Rightarrow> bool" where
  "no_failures env \<longleftrightarrow> te_access env = (\<lambda>_ _. None) \<and> te_stat env = (\<lambda>_ _. None) \<and> te_fopen env = (\<lambda>_ _. None) \<and>
     te_fread env = (\<lambda>_ _. None) \<and> te_open_read env = (\<lambda>_ _. None) \<and> te_open_write env = (\<lambda>_ _. None) \<and> te_disk env = (\<lambda>_ _. None)"

lemma valid_path:
  assumes "no_failures env" "tw_files (snd s) p = Some (Regular content)" "text_content content"
  shows "is_invalid_path env (Some p) s = Some (Inr (False, s))"
proof -
  have "file_is_elf env p (snd s) = Some (Inr (is_elf_content content))" if "elf_head_size < length content"
    using assms(1,2) elf_magic_content [of content] that
    by (auto simp: file_is_elf_def path_call_def no_failures_def node_bytes_def elf_head_size_def)
  then show ?thesis
    using assms by (auto simp: is_invalid_path_def path_call_def no_failures_def text_content_def)
qed

section \<open>The entry points\<close>

lemma load_ok:
  assumes "no_failures env" "tw_files w p = Some n"
  shows "load_target_file env p (fo, w) = Some (0, fo\<lparr>line_vec := line_vec fo @ getlines (node_bytes n)\<rparr>, w)"
  using assms by (simp add: load_target_file_def path_call_def no_failures_def)

text \<open>A path where a file can be created or replaced.\<close>

definition plain_target :: "text_world \<Rightarrow> string \<Rightarrow> bool" where
  "plain_target w p \<longleftrightarrow> (case tw_files w p of None \<Rightarrow> True | Some (Regular s) \<Rightarrow> True | _ \<Rightarrow> False)"

lemma save_ok:
  assumes "no_failures env" "plain_target w p" "line_vec fo \<noteq> []"
  shows "save_to_file env p (fo, w) =
    Some (True, fo, w\<lparr>tw_files := (tw_files w)(p \<mapsto> Regular (out_lines (line_vec fo)))\<rparr>)"
  using assms
  by (auto simp: save_to_file_def open_write_def no_failures_def plain_target_def write_bytes_def
      split: option.splits node.splits)

lemma backup_ok:
  assumes "no_failures env" "tw_files w p = Some n" "plain_target w (p @ ''.bak'')"
    and "line_vec fo @ getlines (node_bytes n) \<noteq> []"
  shows "\<exists>fo' w'. read_and_backup env p (fo, w) = Some (True, fo', w') \<and>
    line_vec fo' = line_vec fo @ getlines (node_bytes n) \<and> backup fo' = backup fo \<and> dispaly fo' = dispaly fo \<and>
    tw_files w' = (if backup fo then (tw_files w)(p @ ''.bak'' \<mapsto> Regular (out_lines (line_vec fo')))
      else tw_files w)"
proof (cases "backup fo")
  case False
  then show ?thesis using load_ok [OF assms(1,2)] by (simp add: read_and_backup_def)
next
  case True
  let ?fo = "fo\<lparr>line_vec := line_vec fo @ getlines (node_bytes n)\<rparr>"
  let ?w = "w\<lparr>tw_files := (tw_files w)(p @ ''.bak'' \<mapsto> Regular (out_lines (line_vec ?fo)))\<rparr>"
  have save: "save_to_file env (p @ ''.bak'') (?fo, w) = Some (True, ?fo, ?w)"
    using assms by (intro save_ok) simp_all
  obtain s1 where s1: "show_plain ''backup to: '' [] (?fo, ?w) = Some s1" "same_but_output (?fo, ?w) s1"
    using messages(15) by blast
  obtain s2 where s2: "show_green (tab @ ''%s'' @ newline) [S (p @ ''.bak'')] s1 = Some s2" "same_but_output s1 s2"
    using messages(14) by blast
  have "read_and_backup env p (fo, w) = Some (True, s2)"
    using load_ok [OF assms(1,2), of fo] save s1(1) s2(1) True
    by (simp add: read_and_backup_def Let_def)
  moreover have "same_but_output (?fo, ?w) s2" using s1(2) s2(2) by (rule same_trans)
  ultimately show ?thesis using True by (cases s2) (auto simp: same_but_output_def)
qed

text \<open>The lines of the officer and the file together, formatted and written.\<close>

lemma formatting_file_effect:
  fixes p :: string
  defines "target \<equiv> \<lambda>sp. (case sp of None \<Rightarrow> p | Some q \<Rightarrow> q)"
  assumes env: "no_failures env"
    and p: "tw_files w p = Some (Regular content)" "text_content content"
    and targets: "plain_target w (p @ ''.bak'')" "plain_target w (target sp)"
    and ls: "lines_fit (line_vec fo @ getlines content)" "line_vec fo @ getlines content \<noteq> []"
    and flags: "flags \<noteq> 0"
  shows "\<exists>fo' w'. formatting_file env (Some p) sp flags (fo, w) = Some (Inr (True, fo', w')) \<and>
    line_vec fo' = map (format_line flags) (line_vec fo @ getlines content) \<and>
    tw_files w' = (if has_flag flags FORMAT_TO_BACKUP
        then (tw_files w)(p @ ''.bak'' \<mapsto> Regular (out_lines (line_vec fo @ getlines content))) else tw_files w)
      (target sp \<mapsto> Regular (out_lines (map (format_line flags) (line_vec fo @ getlines content))))"
proof -
  let ?fo = "fo\<lparr>backup := has_flag flags FORMAT_TO_BACKUP, dispaly := \<not> has_flag flags FORMAT_UNDISPLAY\<rparr>"
  let ?ls = "line_vec fo @ getlines content"
  have valid: "is_invalid_path env (Some p) (?fo, w) = Some (Inr (False, ?fo, w))"
    using p by (intro valid_path [OF env]) simp_all
  obtain fo1 w1 where s1: "show_plain ''input path: '' [] (?fo, w) = Some (fo1, w1)" "same_but_output (?fo, w) (fo1, w1)"
    using messages(16) by (metis surj_pair)
  obtain fo2 w2 where s2: "show_green (tab @ ''%s'' @ newline) [S p] (fo1, w1) = Some (fo2, w2)" "same_but_output (fo1, w1) (fo2, w2)"
    using messages(14) by (metis surj_pair)
  have same2: "same_but_output (?fo, w) (fo2, w2)" using s1(2) s2(2) by (rule same_trans)
  then have "\<exists>fo3 w3. read_and_backup env p (fo2, w2) = Some (True, fo3, w3) \<and>
    line_vec fo3 = line_vec fo2 @ getlines (node_bytes (Regular content)) \<and> backup fo3 = backup fo2 \<and> dispaly fo3 = dispaly fo2 \<and>
    tw_files w3 = (if backup fo2 then (tw_files w2)(p @ ''.bak'' \<mapsto> Regular (out_lines (line_vec fo3))) else tw_files w2)"
    using p targets(1) ls(2) by (intro backup_ok [OF env]) (simp_all add: same_but_output_def plain_target_def node_bytes_def)
  then obtain fo3 w3 where s3: "read_and_backup env p (fo2, w2) = Some (True, fo3, w3)" "line_vec fo3 = ?ls"
    "tw_files w3 = (if has_flag flags FORMAT_TO_BACKUP then (tw_files w)(p @ ''.bak'' \<mapsto> Regular (out_lines ?ls)) else tw_files w)"
    using same2 by (auto simp: same_but_output_def node_bytes_def)
  let ?fo4 = "get_format_func_array fo3 flags"
  let ?fo5 = "?fo4\<lparr>line_vec := map (format_line flags) (line_vec ?fo4)\<rparr>"
  have lv: "line_vec ?fo4 = ?ls" "func_vec ?fo4 = line_functions flags"
    using s3(2) by (simp_all add: get_format_func_array_line_functions)
  obtain r where r: "format_check_each_line ?fo4 False = Some (r, ?fo5)"
    using each_line_format [of ?fo4 flags] lv ls(1) by auto
  have "plain_target w3 (target sp)" using targets(2) s3(3) by (auto simp: plain_target_def)
  then have save: "save_to_file env (target sp) (?fo5, w3) =
      Some (True, ?fo5, w3\<lparr>tw_files := (tw_files w3)(target sp \<mapsto> Regular (out_lines (line_vec ?fo5)))\<rparr>)"
    using lv(1) ls(2) by (intro save_ok [OF env]) simp_all
  let ?w5 = "w3\<lparr>tw_files := (tw_files w3)(target sp \<mapsto> Regular (out_lines (line_vec ?fo5)))\<rparr>"
  obtain s6 where s6: "show_plain ''save to: '' [] (?fo5, ?w5) = Some s6" "same_but_output (?fo5, ?w5) s6"
    using messages(17) by blast
  obtain fo7 w7 where s7: "show_green (tab @ ''%s'' @ newline) [S (target sp)] s6 = Some (fo7, w7)" "same_but_output s6 (fo7, w7)"
    using messages(14) by (metis surj_pair)
  have "formatting_file env (Some p) sp flags (fo, w) = Some (Inr (True, fo7, w7))"
    using flags valid s1(1) s2(1) s3(1) r save s6(1) s7(1)
    by (simp add: formatting_file_def FORMAT_UNDEFINED_def Let_def target_def)
  moreover have "same_but_output (?fo5, ?w5) (fo7, w7)" using s6(2) s7(2) by (rule same_trans)
  ultimately show ?thesis using lv(1) s3(3) by (intro exI conjI) (auto simp: same_but_output_def)
qed

lemma formatting_check_effect:
  assumes env: "no_failures env"
    and p: "tw_files w p = Some (Regular content)" "text_content content"
    and ls: "lines_fit (line_vec fo @ getlines content)"
    and flags: "has_flag flags FORMAT_FMT_CHECK" "line_functions flags \<noteq> []"
  shows "\<exists>fo' w'. formatting_check env (Some p) flags (fo, w) =
      Some (Inr (\<not> list_all (line_settled flags) (line_vec fo @ getlines content), fo', w')) \<and>
    line_vec fo' = line_vec fo @ getlines content \<and> tw_files w' = tw_files w"
proof -
  let ?fo = "fo\<lparr>dispaly := \<not> has_flag flags FORMAT_UNDISPLAY\<rparr>"
  let ?ls = "line_vec fo @ getlines content"
  let ?fo2 = "get_format_func_array (?fo\<lparr>line_vec := ?ls\<rparr>) flags"
  have valid: "is_invalid_path env (Some p) (fo, w) = Some (Inr (False, fo, w))"
    using p by (intro valid_path [OF env]) simp_all
  have load: "load_target_file env p (?fo, w) = Some (0, ?fo\<lparr>line_vec := ?ls\<rparr>, w)"
    using load_ok [OF env p(1), of ?fo] by (simp add: node_bytes_def)
  have lv: "line_vec ?fo2 = ?ls" "func_vec ?fo2 = line_functions flags"
    by (simp_all add: get_format_func_array_line_functions)
  have r: "format_check_each_line ?fo2 True = Some (\<not> list_all (line_settled flags) ?ls, ?fo2)"
    using each_line_check [of ?fo2 flags] lv ls flags(2) by simp
  obtain s3 where s3: "(if \<not> list_all (line_settled flags) ?ls
      then show_red (CHR 0x22 # ''%s'' @ CHR 0x22 # '' needs to be formatted'' @ newline) [S p] (?fo2, w)
      else show_green (CHR 0x22 # ''%s'' @ CHR 0x22 # '' no formatting required'' @ newline) [S p] (?fo2, w)) = Some s3"
    "same_but_output (?fo2, w) s3"
    using messages(12) [of p "(?fo2, w)"] messages(13) [of p "(?fo2, w)"] by (cases "list_all (line_settled flags) ?ls") auto
  have "formatting_check env (Some p) flags (fo, w) = Some (Inr (\<not> list_all (line_settled flags) ?ls, s3))"
    using flags valid load r s3(1) lv(2)
    by (cases "list_all (line_settled flags) (line_vec fo) \<and> list_all (line_settled flags) (getlines content)")
      (auto simp: formatting_check_def Let_def)
  then show ?thesis using s3(2) lv(1) by (cases s3) (auto simp: same_but_output_def)
qed

section \<open>Formatting twice\<close>

lemma spaced_set: "set (spaced ok cs) \<subseteq> insert (CHR '' '') (set cs)"
proof (induction ok cs rule: spaced.induct)
  case (2 ok c cs)
  have "set cs = set (takeWhile IS_CH cs) \<union> set (dropWhile IS_CH cs)"
    by (metis set_append takeWhile_dropWhile_id)
  with 2 show ?case by (auto simp: Let_def)
qed simp

lemma format_line_newline:
  assumes "CHR 0x0A \<notin> set l"
  shows "CHR 0x0A \<notin> set (format_line flags l)"
proof -
  have add: "CHR 0x0A \<notin> set (add_spaces l)"
    using assms by (auto simp: add_spaces_def dest: subsetD [OF spaced_set] split: list.splits)
  have eat: "CHR 0x0A \<notin> set m \<Longrightarrow> CHR 0x0A \<notin> set (eat_blanks m)" for m
    by (auto simp: eat_blanks_def dest: set_dropWhileD)
  show ?thesis using assms add eat [OF assms] eat [OF add] by (simp add: format_line_def Let_def)
qed

lemma settled_word:
  assumes "IS_CH c" "spaced ok (c # cs) = c # cs"
  defines "rest \<equiv> dropWhile IS_CH cs"
  shows "ok" "rest \<noteq> []" "hd rest = CHR '' ''" "spaced True rest = rest"
proof -
  have eq: "(if ok then [] else '' '') @ c # takeWhile IS_CH cs @
      (if rest \<noteq> [] \<and> hd rest = CHR '' '' then [] else '' '') @ spaced True rest = c # takeWhile IS_CH cs @ rest"
    using assms by (simp add: Let_def)
  have len: "length rest \<le> length (spaced True rest)" by (rule spaced_length)
  show ok: "ok" using eq assms(1) by (cases ok) auto
  have out: "(if rest \<noteq> [] \<and> hd rest = CHR '' '' then [] else '' '') @ spaced True rest = rest"
    using eq ok by simp
  have "rest \<noteq> [] \<and> hd rest = CHR '' ''"
  proof (rule ccontr)
    assume "\<not> (rest \<noteq> [] \<and> hd rest = CHR '' '')"
    then have "'' '' @ spaced True rest = rest" using out by (simp only: if_False)
    then have "Suc (length (spaced True rest)) = length rest" by (metis append_Cons append_Nil length_Cons)
    with len show False by simp
  qed
  then show "rest \<noteq> []" "hd rest = CHR '' ''" "spaced True rest = rest" using out by simp_all
qed

text \<open>Blanks cut off behind a character that is not part of a word are not missed.\<close>

lemma settled_cut:
  assumes "spaced ok (x @ bs) = x @ bs" "x = [] \<or> \<not> IS_CH (last x)"
  shows "spaced ok x = x"
  using assms
proof (induction ok x rule: spaced.induct)
  case (2 ok c cs)
  show ?case
  proof (cases "IS_CH c")
    case True
    define rest where "rest = dropWhile IS_CH cs"
    have "\<exists>x \<in> set cs. \<not> IS_CH x" using "2.prems"(2) True by (metis last.simps last_in_set list.distinct(1))
    then have rest: "rest \<noteq> []" "dropWhile IS_CH (cs @ bs) = rest @ bs" "takeWhile IS_CH (cs @ bs) = takeWhile IS_CH cs"
      by (auto simp: rest_def dropWhile_append takeWhile_append)
    have settled: "spaced ok (c # cs @ bs) = c # cs @ bs" using "2.prems"(1) by simp
    have s: "ok" "hd (rest @ bs) = CHR '' ''" "spaced True (rest @ bs) = rest @ bs"
      using settled_word [OF True settled] rest(2) by simp_all
    have "last rest = last cs" using rest(1) unfolding rest_def by (metis last_appendR takeWhile_dropWhile_id)
    moreover have "cs \<noteq> []" using rest(1) by (auto simp: rest_def)
    ultimately have "spaced True rest = rest"
      using "2.IH"(1) [OF True] s(3) "2.prems"(2) by (simp add: rest_def)
    moreover have "hd rest = CHR '' ''" using s(2) rest(1) by simp
    ultimately have "spaced ok (c # cs) = c # takeWhile IS_CH cs @ rest"
      using True s(1) rest(1) by (simp add: Let_def rest_def)
    then show ?thesis by (simp add: rest_def)
  next
    case False
    then show ?thesis using 2 by (cases "cs = []") auto
  qed
qed simp

text \<open>A word at the end always gets a space behind it.\<close>

lemma spaced_last:
  assumes "cs \<noteq> []" "IS_CH (last cs)"
  shows "\<exists>xs. spaced ok cs = xs @ [last cs, CHR '' '']"
  using assms
proof (induction ok cs rule: spaced.induct)
  case (2 ok c cs)
  show ?case
  proof (cases "IS_CH c")
    case False
    then have "cs \<noteq> []" using "2.prems"(2) by auto
    then obtain xs where "spaced (c = CHR '' '') cs = xs @ [last cs, CHR '' '']"
      using "2.IH"(2) [OF False] "2.prems"(2) by auto
    then show ?thesis using False \<open>cs \<noteq> []\<close> by simp
  next
    case True
    define rest where "rest = dropWhile IS_CH cs"
    show ?thesis
    proof (cases "rest = []")
      case empty: True
      then have tw: "takeWhile IS_CH cs = cs" by (metis append_Nil2 rest_def takeWhile_dropWhile_id)
      have "spaced ok (c # cs) = (if ok then [] else '' '') @ (c # cs) @ '' ''"
        unfolding spaced.simps if_P [OF True] rest_def [symmetric] Let_def tw empty by simp
      then have "spaced ok (c # cs) = ((if ok then [] else '' '') @ butlast (c # cs)) @ [last (c # cs)] @ '' ''"
        using append_butlast_last_id [of "c # cs"] by (simp only: append.assoc) simp
      then show ?thesis unfolding append_Cons append_Nil by blast
    next
      case False
      then have last: "last rest = last (c # cs)" "cs \<noteq> []"
        unfolding rest_def by (auto simp: last_appendR intro: dropWhile_last)
      obtain xs where "spaced True rest = xs @ [last rest, CHR '' '']"
        using "2.IH"(1) [OF True] False last "2.prems"(2) by (auto simp: rest_def)
      then show ?thesis using True last(1) by (auto simp: Let_def rest_def)
    qed
  qed
qed simp

lemma spaced_last_other:
  assumes "cs \<noteq> []" "\<not> IS_CH (last cs)"
  shows "\<exists>xs. spaced ok cs = xs @ [last cs]"
  using assms
proof (induction ok cs rule: spaced.induct)
  case (2 ok c cs)
  show ?case
  proof (cases "IS_CH c")
    case False
    show ?thesis
    proof (cases "cs = []")
      case nonempty: False
      then obtain xs where "spaced (c = CHR '' '') cs = xs @ [last cs]"
        using "2.IH"(2) [OF False] "2.prems"(2) by auto
      then show ?thesis using False nonempty by simp
    qed (use False in simp)
  next
    case True
    define rest where "rest = dropWhile IS_CH cs"
    have "cs \<noteq> []" using True "2.prems"(2) by auto
    then have rest: "rest \<noteq> []" "last rest = last (c # cs)"
      using "2.prems"(2) last_in_set [of cs] dropWhile_last [of "last cs" cs IS_CH] unfolding rest_def by auto
    obtain xs where "spaced True rest = xs @ [last rest]"
      using "2.IH"(1) [OF True] rest "2.prems"(2) by (auto simp: rest_def)
    then show ?thesis using True rest by (auto simp: Let_def rest_def)
  qed
qed simp

lemma eat_append: "eat_blanks (p @ y) = (if eat_blanks y = [] then eat_blanks p else p @ eat_blanks y)"
  by (auto simp: eat_blanks_def dropWhile_append)

lemma eat_all_blank: "list_all is_blank_char bs \<Longrightarrow> eat_blanks bs = []"
  by (simp add: eat_blanks_def list_all_iff)

lemma eat_last: "\<not> is_blank_char c \<Longrightarrow> eat_blanks (xs @ [c]) = xs @ [c]"
  by (simp add: eat_blanks_def)

lemma IS_CH_not_blank: "IS_CH c \<Longrightarrow> \<not> is_blank_char c"
  by (auto simp: is_blank_char_def)

lemma spaced_blanks: "list_all is_blank_char bs \<Longrightarrow> spaced ok bs = bs"
proof (induction bs arbitrary: ok)
  case (Cons b bs)
  then have "\<not> IS_CH b" using IS_CH_not_blank by auto
  with Cons show ?case by simp
qed simp

lemma word_blanks: "list_all is_blank_char bs \<Longrightarrow> takeWhile IS_CH bs = [] \<and> dropWhile IS_CH bs = bs"
  by (cases bs) (auto dest: IS_CH_not_blank)

lemma eat_spaced_blanks:
  assumes "list_all is_blank_char bs"
  shows "eat_blanks (spaced ok (x @ bs)) = eat_blanks (spaced ok x)"
proof (induction ok x rule: spaced.induct)
  case (1 ok)
  then show ?case using assms by (simp add: spaced_blanks eat_all_blank)
next
  case (2 ok c cs)
  show ?case
  proof (cases "IS_CH c")
    case False
    then show ?thesis
      using "2.IH"(2) [OF False] eat_append [of "[c]" "spaced (c = CHR '' '') (cs @ bs)"]
        eat_append [of "[c]" "spaced (c = CHR '' '') cs"] by simp
  next
    case True
    define rest pre where "rest = dropWhile IS_CH cs" and "pre = (if ok then [] else '' '') @ c # takeWhile IS_CH cs"
    have out: "spaced ok (c # cs) = pre @ (if rest \<noteq> [] \<and> hd rest = CHR '' '' then [] else '' '') @ spaced True rest"
      using True by (simp add: pre_def rest_def Let_def)
    show ?thesis
    proof (cases "rest = []")
      case empty: True
      then have cs: "takeWhile IS_CH cs = cs" by (metis append_Nil2 rest_def takeWhile_dropWhile_id)
      then have "\<forall>x \<in> set cs. IS_CH x" by (metis takeWhile_eq_all_conv)
      then have d: "takeWhile IS_CH (cs @ bs) = cs" "dropWhile IS_CH (cs @ bs) = bs"
        using word_blanks [OF assms] by simp_all
      then have "spaced ok (c # cs @ bs) = pre @ (if bs \<noteq> [] \<and> hd bs = CHR '' '' then [] else '' '') @ bs"
        unfolding spaced.simps if_P [OF True] Let_def d pre_def cs spaced_blanks [OF assms] by simp
      moreover have "eat_blanks ((if bs \<noteq> [] \<and> hd bs = CHR '' '' then [] else '' '') @ bs) = []"
        using assms by (intro eat_all_blank) (simp add: is_blank_char_def)
      moreover have "spaced ok (c # cs) = pre @ '' ''" using out empty by simp
      moreover have "eat_blanks '' '' = []" by (rule eat_all_blank) (simp add: is_blank_char_def)
      ultimately show ?thesis by (simp add: eat_append del: spaced.simps)
    next
      case False
      then have d: "takeWhile IS_CH (cs @ bs) = takeWhile IS_CH cs" "dropWhile IS_CH (cs @ bs) = rest @ bs"
        by (auto simp: rest_def dropWhile_append takeWhile_append)
      then have "spaced ok (c # cs @ bs) =
          pre @ (if rest \<noteq> [] \<and> hd rest = CHR '' '' then [] else '' '') @ spaced True (rest @ bs)"
        using True False by (simp add: pre_def Let_def)
      then show ?thesis
        using out "2.IH"(1) [OF True] by (simp add: eat_append rest_def del: spaced.simps)
    qed
  qed
qed

definition ends_in_word :: "string \<Rightarrow> bool" where
  "ends_in_word l \<longleftrightarrow> 2 \<le> length l \<and> IS_CH (last l)"

lemma ends_in_word_Cons: "ends_in_word (c # cs) \<longleftrightarrow> cs \<noteq> [] \<and> IS_CH (last cs)"
  by (cases cs) (auto simp: ends_in_word_def)

lemma eat_add_settled:
  "add_spaces (eat_blanks (add_spaces l)) = eat_blanks (add_spaces l) \<longleftrightarrow> \<not> ends_in_word (eat_blanks (add_spaces l))"
proof (cases "eat_blanks (add_spaces l)")
  case Nil
  then show ?thesis by (simp add: add_spaces_def ends_in_word_def)
next
  case (Cons c cs)
  obtain bs where "add_spaces l = (c # cs) @ bs" using eat_blanks_prefix [of "add_spaces l"] Cons by metis
  then have idem: "spaced True (cs @ bs) = cs @ bs" using add_spaces_idem [of l] by (simp add: add_spaces_def)
  have "spaced True cs = cs" if "\<not> ends_in_word (c # cs)"
    using settled_cut [OF idem] that by (auto simp: ends_in_word_Cons)
  moreover have "spaced True cs \<noteq> cs" if word: "ends_in_word (c # cs)"
  proof -
    have cs: "cs \<noteq> []" "IS_CH (last cs)" using word by (simp_all add: ends_in_word_Cons)
    then obtain xs where "spaced True cs = xs @ [last cs, CHR '' '']" using spaced_last by blast
    then have "last (spaced True cs) = CHR '' ''" by simp
    then show ?thesis using cs by auto
  qed
  ultimately show ?thesis unfolding Cons by (auto simp: add_spaces_def)
qed

lemma ends_in_word_formatted: "ends_in_word (eat_blanks (add_spaces l)) \<longleftrightarrow> ends_in_word (eat_blanks l)"
proof -
  obtain bs where bs: "l = eat_blanks l @ bs" "list_all is_blank_char bs" using eat_blanks_prefix by blast
  show ?thesis
  proof (cases "eat_blanks l")
    case Nil
    then have "list_all is_blank_char l" using bs by simp
    then have "add_spaces l = l" by (cases l) (simp_all add: add_spaces_def spaced_blanks)
    then show ?thesis by simp
  next
    case (Cons c cs)
    have nb: "\<not> is_blank_char (last (c # cs))" using eat_blanks_last [of l] Cons by simp
    have "add_spaces l = c # spaced True (cs @ bs)" using bs(1) Cons by (simp add: add_spaces_def)
    then have "eat_blanks (add_spaces l) = eat_blanks (c # spaced True cs)"
      using eat_append [of "[c]"] eat_spaced_blanks [OF bs(2), of True cs] by simp
    moreover consider "cs = []" | "cs \<noteq> []" "IS_CH (last cs)" | "cs \<noteq> []" "\<not> IS_CH (last cs)" by blast
    then have "ends_in_word (eat_blanks (c # spaced True cs)) \<longleftrightarrow> ends_in_word (c # cs)"
    proof cases
      case 1
      then show ?thesis using nb eat_last [of c "[]"] by simp
    next
      case 2
      then obtain xs where "spaced True cs = xs @ [last cs, CHR '' '']" using spaced_last by blast
      then have "c # spaced True cs = ((c # xs) @ [last cs]) @ '' ''" by simp
      moreover have "eat_blanks '' '' = []" by (rule eat_all_blank) (simp add: is_blank_char_def)
      ultimately have "eat_blanks (c # spaced True cs) = (c # xs) @ [last cs]"
        using eat_append [of "(c # xs) @ [last cs]" "'' ''"] eat_last [of "last cs" "c # xs"] 2 IS_CH_not_blank by simp
      then show ?thesis using 2 by (simp add: ends_in_word_Cons)
    next
      case 3
      then obtain xs where "spaced True cs = xs @ [last cs]" using spaced_last_other by blast
      then have "c # spaced True cs = (c # xs) @ [last cs]" by simp
      moreover have "\<not> is_blank_char (last cs)" using nb 3(1) by simp
      ultimately have "eat_blanks (c # spaced True cs) = (c # xs) @ [last cs]"
        using eat_last [of "last cs" "c # xs"] by simp
      then show ?thesis using 3 by (simp add: ends_in_word_Cons)
    qed
    ultimately show ?thesis using Cons by simp
  qed
qed

lemma settled_format:
  assumes "line_functions flags \<noteq> []"
  shows "line_settled flags (format_line flags l) \<longleftrightarrow>
    \<not> (has_flag flags FORMAT_ADD_SPACE \<and> has_flag flags FORMAT_EAT_SPACE \<and> ends_in_word (eat_blanks l))"
  using assms eat_add_settled [of l] ends_in_word_formatted [of l]
  by (cases "has_flag flags FORMAT_ADD_SPACE"; cases "has_flag flags FORMAT_EAT_SPACE")
    (simp_all add: line_settled_def format_line_def line_functions_def add_spaces_idem eat_blanks_idem Let_def)

section \<open>Properties\<close>

text \<open>A file of one line, for the witnesses.\<close>

definition calm_env :: text_env where
  "calm_env = \<lparr>te_access = \<lambda>_ _. None, te_stat = \<lambda>_ _. None, te_fopen = \<lambda>_ _. None, te_fread = \<lambda>_ _. None, te_open_read = \<lambda>_ _. None,
     te_open_write = \<lambda>_ _. None, te_disk = \<lambda>_ _. None, te_strerror = \<lambda>_. ''error'', te_errno = \<lambda>_. 0\<rparr>"

definition one_file :: "string \<Rightarrow> text_world" where
  "one_file s = \<lparr>tw_files = [''f'' \<mapsto> Regular s], tw_out = []\<rparr>"

lemma calm: "no_failures calm_env"
  by (simp add: no_failures_def calm_env_def)

text \<open>
  C34: \<open>add_line_space\<close> returns on every line, without reading behind the terminating NUL. It puts
  a space on each side of every maximal run of word characters where there is none, except in
  front of the first two bytes; in check mode it leaves the line alone and reports whether
  formatting would change it. Formatting twice is formatting once.
\<close>

theorem add_line_space_correct:
  "add_line_space line False = Some (False, add_spaces line) \<and>
   add_line_space line True = Some (add_spaces line \<noteq> line, line) \<and>
   add_spaces (add_spaces line) = add_spaces line"
  by (simp add: add_spaces_idem)

text \<open>
  C35: on every line that an \<open>int\<close> can index \<open>eat_trailing_space\<close> removes exactly the blanks at
  the end: what it cuts off are blanks and what remains does not end in one; in check mode it
  reports whether there is anything to cut off.
\<close>

theorem eat_trailing_space_correct:
  assumes "length line < 2147483648"
  shows "\<exists>kept cut. line = kept @ cut \<and> list_all is_blank_char cut \<and> (kept = [] \<or> \<not> is_blank_char (last kept)) \<and>
    eat_trailing_space line False = Some (False, kept) \<and> eat_trailing_space line True = Some (cut \<noteq> [], line)"
proof -
  obtain cut where "line = eat_blanks line @ cut" "list_all is_blank_char cut" using eat_blanks_prefix by blast
  moreover from this have "(eat_blanks line \<noteq> line) = (cut \<noteq> [])" by (metis append_self_conv)
  ultimately show ?thesis
    using assms eat_blanks_last [of line] by (intro exI [of _ "eat_blanks line"] exI [of _ cut]) auto
qed

theorem eat_trailing_space_witness: "\<exists>kept. eat_trailing_space ''ab '' False = Some (False, kept) \<and> kept \<noteq> ''ab ''"
proof -
  have "length ''ab '' < 2147483648" by simp
  from eat_trailing_space_correct [OF this] obtain kept cut where k: "''ab '' = kept @ cut"
    "kept = [] \<or> \<not> is_blank_char (last kept)" "eat_trailing_space ''ab '' False = Some (False, kept)"
    by blast
  have "is_blank_char (last ''ab '')" by (simp add: is_blank_char_def)
  then have "kept \<noteq> ''ab ''" using k(2) by auto
  with k(3) show ?thesis by blast
qed

text \<open>
  C32: when no system call fails, \<open>formatting_file\<close> on an acceptable file succeeds. It writes to the
  target the formatted lines, each ended by a newline, and before that, if asked, the unformatted
  lines to the backup; no other file changes. The lines are those already in the officer followed
  by those of the file.
\<close>

theorem formatting_file_writes:
  fixes p :: string
  assumes "no_failures env" "tw_files w p = Some (Regular content)" "text_content content"
    and "plain_target w (p @ ''.bak'')" "plain_target w (case sp of None \<Rightarrow> p | Some q \<Rightarrow> q)"
    and "lines_fit (line_vec fo @ getlines content)" "line_vec fo @ getlines content \<noteq> []" "flags \<noteq> 0"
  defines "ls \<equiv> line_vec fo @ getlines content"
  defines "saved \<equiv> (if has_flag flags FORMAT_TO_BACKUP
    then (tw_files w)(p @ ''.bak'' \<mapsto> Regular (out_lines ls)) else tw_files w)"
  shows "\<exists>fo' w'. formatting_file env (Some p) sp flags (fo, w) = Some (Inr (True, fo', w')) \<and>
    tw_files w' = saved((case sp of None \<Rightarrow> p | Some q \<Rightarrow> q) \<mapsto> Regular (out_lines (map (format_line flags) ls)))"
  using formatting_file_effect [OF assms(1-8)] unfolding ls_def saved_def by blast

theorem formatting_file_writes_witness:
  "\<exists>fo' w'. formatting_file calm_env (Some ''f'') (Some ''g'') FORMAT_EAT_SPACE
      (format_officer_create, one_file ''ab '') = Some (Inr (True, fo', w')) \<and>
    tw_files w' ''g'' = Some (Regular (''ab'' @ newline)) \<and> tw_files w' ''f'' = Some (Regular ''ab '')"
proof -
  have ls: "getlines ''ab '' = [''ab '']" by code_simp
  have flags: "FORMAT_EAT_SPACE \<noteq> 0" "\<not> has_flag FORMAT_EAT_SPACE FORMAT_TO_BACKUP"
    "format_line FORMAT_EAT_SPACE ''ab '' = ''ab''"
    by code_simp+
  show ?thesis
    using formatting_file_writes [OF calm, of "one_file ''ab ''" "''f''" "''ab ''" "Some ''g''" format_officer_create FORMAT_EAT_SPACE] ls flags
    by (auto simp: one_file_def text_content_def MAXIMUM_FILE_SIZE_def elf_head_size_def plain_target_def
        format_officer_create_def lines_fit_def out_lines_def)
qed

text \<open>
  C33: formatting and then checking the same file, each with a fresh officer and the same flags.
  With one kind of formatting the check is satisfied. With both it is not, exactly when the file
  has a line that ends, up to blanks, in a word character behind its first byte: the space that
  \<open>add_line_space\<close> wants behind a last word is eaten by \<open>eat_trailing_space\<close>.
\<close>

theorem format_then_check:
  assumes env: "no_failures env"
    and p: "tw_files w p = Some (Regular content)" "text_content content" "plain_target w (p @ ''.bak'')"
    and ls: "lines_fit (getlines content)" "lines_fit (map (format_line flags) (getlines content))" "content \<noteq> []"
    and again: "text_content (out_lines (map (format_line flags) (getlines content)))"
    and flags: "has_flag flags FORMAT_FMT_CHECK" "has_flag flags FORMAT_ADD_SPACE \<or> has_flag flags FORMAT_EAT_SPACE"
  shows "\<exists>fo' w' fo'' w''.
    formatting_file env (Some p) None flags (format_officer_create, w) = Some (Inr (True, fo', w')) \<and>
    formatting_check env (Some p) flags (format_officer_create, w') = Some (Inr
      (has_flag flags FORMAT_ADD_SPACE \<and> has_flag flags FORMAT_EAT_SPACE \<and>
       (\<exists>l \<in> set (getlines content). ends_in_word (eat_blanks l)), fo'', w''))"
proof -
  let ?ls = "map (format_line flags) (getlines content)"
  have fresh: "line_vec format_officer_create = []" by (simp add: format_officer_create_def)
  have "flags \<noteq> 0" using flags(1) by (auto simp: has_flag_def)
  moreover have "plain_target w p" using p(1) by (simp add: plain_target_def)
  ultimately obtain fo' w' where 1: "formatting_file env (Some p) None flags (format_officer_create, w) = Some (Inr (True, fo', w'))"
    "tw_files w' p = Some (Regular (out_lines ?ls))"
    using formatting_file_effect [OF env p(1-3), of None format_officer_create flags] ls(1,3) fresh
    by (auto simp: getlines_empty_iff)
  have fs: "line_functions flags \<noteq> []" using flags(2) by (auto simp: line_functions_def)
  have "list_all (\<lambda>l. CHR 0x0A \<notin> set l) ?ls"
    using getlines_no_newline [of content] format_line_newline by (auto simp: list_all_iff)
  then have "getlines (out_lines ?ls) = ?ls" by (rule getlines_out_lines)
  then obtain fo'' w'' where "formatting_check env (Some p) flags (format_officer_create, w') =
      Some (Inr (\<not> list_all (line_settled flags) ?ls, fo'', w''))"
    using formatting_check_effect [OF env 1(2) again, of format_officer_create flags] fresh ls(2) flags(1) fs by auto
  moreover have "\<not> list_all (line_settled flags) ?ls \<longleftrightarrow> has_flag flags FORMAT_ADD_SPACE \<and> has_flag flags FORMAT_EAT_SPACE \<and>
       (\<exists>l \<in> set (getlines content). ends_in_word (eat_blanks l))"
    using settled_format [OF fs] by (auto simp: list_all_iff)
  ultimately show ?thesis using 1(1) by simp
qed

theorem format_then_check_witness:
  "\<exists>fo' w' fo'' w''. formatting_file calm_env (Some ''f'') None 0x20000006 (format_officer_create, one_file ''ab'') =
      Some (Inr (True, fo', w')) \<and>
    formatting_check calm_env (Some ''f'') 0x20000006 (format_officer_create, w') = Some (Inr (True, fo'', w''))"
proof -
  have ls: "getlines ''ab'' = [''ab'']" by code_simp
  have flags: "has_flag 0x20000006 FORMAT_FMT_CHECK" "has_flag 0x20000006 FORMAT_ADD_SPACE"
    "has_flag 0x20000006 FORMAT_EAT_SPACE" "format_line 0x20000006 ''ab'' = ''ab''" "ends_in_word (eat_blanks ''ab'')"
    by code_simp+
  have "text_content (''ab'' @ newline)" "text_content ''ab''"
    by (simp_all add: text_content_def MAXIMUM_FILE_SIZE_def elf_head_size_def newline_def)
  then show ?thesis
    using format_then_check [OF calm, where w = "one_file ''ab''" and p = "''f''" and content = "''ab''" and flags = "0x20000006"] ls flags
    by (auto simp: one_file_def plain_target_def lines_fit_def out_lines_def)
qed

text \<open>An acceptable path: it can be accessed, and is a regular file of the right size that is not an ELF file.\<close>

definition acceptable :: "text_env \<Rightarrow> string \<Rightarrow> text_world \<Rightarrow> bool" where
  "acceptable env p w \<longleftrightarrow> te_access env w p = None \<and>
     (case tw_files w p of Some (Regular content) \<Rightarrow> text_content content | _ \<Rightarrow> False)"

text \<open>The program ends inside the check when a file that is long enough cannot be opened or read.\<close>

definition elf_test_exits :: "text_env \<Rightarrow> string \<Rightarrow> text_world \<Rightarrow> bool" where
  "elf_test_exits env p w \<longleftrightarrow> te_access env w p = None \<and>
     (case tw_files w p of Some (Regular content) \<Rightarrow>
        elf_head_size < length content \<and> length content \<le> MAXIMUM_FILE_SIZE \<and>
        (te_fopen env w p \<noteq> None \<or> te_fread env w p \<noteq> None)
      | _ \<Rightarrow> False)"

text \<open>\<open>stat\<close> fails on a path that \<open>access\<close> has just found.\<close>

definition stat_fails :: "text_env \<Rightarrow> string \<Rightarrow> text_world \<Rightarrow> bool" where
  "stat_fails env p w \<longleftrightarrow> te_access env w p = None \<and> tw_files w p \<noteq> None \<and> te_stat env w p \<noteq> None"

lemma file_is_elf_cases:
  assumes "tw_files w p = Some (Regular content)" "elf_head_size < length content"
  shows "(te_fopen env w p \<noteq> None \<or> te_fread env w p \<noteq> None) \<and> (\<exists>code. file_is_elf env p w = Some (Inl code)) \<or>
    te_fopen env w p = None \<and> te_fread env w p = None \<and> file_is_elf env p w = Some (Inr (is_elf_content content))"
  using assms elf_magic_content [of content]
  by (auto simp: file_is_elf_def path_call_def node_bytes_def elf_head_size_def split: option.splits)

lemma path_check_stat:
  assumes "\<not> stat_fails env p (snd s)"
  shows "case is_invalid_path env (Some p) s of
      Some (Inl (code, w)) \<Rightarrow> elf_test_exits env p (snd s) \<and> w = snd s
    | Some (Inr (invalid, s')) \<Rightarrow> \<not> elf_test_exits env p (snd s) \<and> (invalid = (\<not> acceptable env p (snd s))) \<and>
        same_but_output s s' \<and> (invalid \<or> s' = s)
    | None \<Rightarrow> False"
proof (cases "te_access env (snd s) p")
  case (Some e)
  then show ?thesis
    using messages(5) [of p "te_strerror env 2" s] messages(5) [of p "te_strerror env e" s]
    by (cases "tw_files (snd s) p") (auto simp: is_invalid_path_def path_call_def elf_test_exits_def acceptable_def stat_fails_def)
next
  case None
  show ?thesis
  proof (cases "tw_files (snd s) p")
    case None
    then show ?thesis
      using messages(5) [of p "te_strerror env 2" s]
      by (auto simp: is_invalid_path_def path_call_def elf_test_exits_def acceptable_def stat_fails_def)
  next
    case (Some n)
    show ?thesis
    proof (cases n)
      case (Regular content)
      consider "length content > MAXIMUM_FILE_SIZE" | "length content \<le> MAXIMUM_FILE_SIZE" "elf_head_size < length content"
        | "length content \<le> MAXIMUM_FILE_SIZE" "\<not> elf_head_size < length content" by linarith
      then show ?thesis
      proof cases
        case 1
        then show ?thesis using assms None Some Regular messages(8) [of MAXIMUM_FILE_SIZE s]
          by (auto simp: is_invalid_path_def path_call_def elf_test_exits_def acceptable_def stat_fails_def text_content_def)
      next
        case 2
        then show ?thesis
          using assms None Some Regular messages(9) [of s] file_is_elf_cases [of "snd s" p content env]
          by (auto simp: is_invalid_path_def path_call_def elf_test_exits_def acceptable_def stat_fails_def text_content_def
              split: bool.splits)
      next
        case 3
        then show ?thesis using assms None Some Regular
          by (auto simp: is_invalid_path_def path_call_def elf_test_exits_def acceptable_def stat_fails_def text_content_def)
      qed
    qed (use assms None Some messages(6) [of p s] messages(7) [of s] in
        \<open>auto simp: is_invalid_path_def path_call_def elf_test_exits_def acceptable_def stat_fails_def\<close>)
  qed
qed

lemma path_check_cases:
  "case is_invalid_path env (Some p) s of
     Some (Inl (code, w)) \<Rightarrow> elf_test_exits env p (snd s) \<and> \<not> stat_fails env p (snd s) \<and> w = snd s
   | Some (Inr (invalid, s')) \<Rightarrow> \<not> elf_test_exits env p (snd s) \<and> \<not> stat_fails env p (snd s) \<and>
       (invalid = (\<not> acceptable env p (snd s))) \<and> same_but_output s s' \<and> (invalid \<or> s' = s)
   | None \<Rightarrow> stat_fails env p (snd s)"
proof (cases "stat_fails env p (snd s)")
  case True
  then show ?thesis by (auto simp: is_invalid_path_def path_call_def stat_fails_def)
next
  case False
  with path_check_stat [OF this] show ?thesis by (auto split: option.splits sum.splits)
qed

text \<open>
  C36: \<open>is_invalid_path\<close> with any path and in any environment. It reads an uninitialised variable
  exactly when \<open>stat\<close> fails on a path that \<open>access\<close> has found; otherwise it ends the program exactly
  when the ELF test cannot read the file, and answers false exactly for an acceptable path; then it
  prints nothing. It never changes a file.
\<close>

theorem path_check_exact:
  "case is_invalid_path env (Some p) s of
     Some (Inl (code, w)) \<Rightarrow> elf_test_exits env p (snd s) \<and> \<not> stat_fails env p (snd s) \<and> w = snd s
   | Some (Inr (invalid, s')) \<Rightarrow> \<not> elf_test_exits env p (snd s) \<and> \<not> stat_fails env p (snd s) \<and>
       (invalid = (\<not> acceptable env p (snd s))) \<and> same_but_output s s' \<and> (invalid \<or> s' = s)
   | None \<Rightarrow> stat_fails env p (snd s)"
  by (rule path_check_cases)

text \<open>
  A write that fails half-way is not noticed: \<open>save_to_file\<close> reports success whatever part of
  the data reaches the disk.
\<close>

lemma save_ignores_full_disk:
  assumes "te_open_write env w p = None" "plain_target w p" "line_vec fo \<noteq> []" "te_disk env = (\<lambda>_ _. Some 0)"
  shows "\<exists>w'. save_to_file env p (fo, w) = Some (True, fo, w') \<and> tw_files w' p = Some (Regular [])"
  using assms
  by (auto simp: save_to_file_def open_write_def plain_target_def write_bytes_def split: option.splits node.splits)

text \<open>
  The officer keeps its lines: checking a file and then formatting it with the same officer writes
  every line twice.
\<close>

lemma check_then_format_doubles:
  assumes env: "no_failures env"
    and p: "tw_files w p = Some (Regular content)" "text_content content" "plain_target w (p @ ''.bak'')"
    and ls: "lines_fit (getlines content @ getlines content)" "content \<noteq> []"
    and flags: "has_flag flags FORMAT_FMT_CHECK" "line_functions flags \<noteq> []"
  shows "\<exists>r fo' w' fo'' w''. formatting_check env (Some p) flags (format_officer_create, w) = Some (Inr (r, fo', w')) \<and>
    formatting_file env (Some p) None flags (fo', w') = Some (Inr (True, fo'', w'')) \<and>
    tw_files w'' p = Some (Regular (out_lines (map (format_line flags) (getlines content @ getlines content))))"
proof -
  have fresh: "line_vec format_officer_create = []" by (simp add: format_officer_create_def)
  have fit: "lines_fit (getlines content)" using ls(1) by (simp add: lines_fit_def)
  obtain r fo' w' where 1: "formatting_check env (Some p) flags (format_officer_create, w) = Some (Inr (r, fo', w'))"
    "line_vec fo' = getlines content" "tw_files w' = tw_files w"
    using formatting_check_effect [OF env p(1,2), of format_officer_create flags] fresh fit flags by auto
  have "flags \<noteq> 0" using flags(1) by (auto simp: has_flag_def)
  then obtain fo'' w'' where "formatting_file env (Some p) None flags (fo', w') = Some (Inr (True, fo'', w''))"
    "tw_files w'' p = Some (Regular (out_lines (map (format_line flags) (getlines content @ getlines content))))"
    using formatting_file_effect [OF env, of w' p content None fo' flags] 1(2,3) p ls
    by (auto simp: getlines_empty_iff plain_target_def)
  with 1(1) show ?thesis by blast
qed

section \<open>Lines stay lines\<close>

definition lines_wf :: "string list \<Rightarrow> bool" where
  "lines_wf ls \<longleftrightarrow> list_all (\<lambda>l. CHR 0x0A \<notin> set l) ls"

lemma eat_loop_set: "eat_loop chk line i = Some (r, line') \<Longrightarrow> set line' \<subseteq> set line"
proof (induction chk line i rule: eat_loop.induct)
  case (1 chk line i)
  then show ?case
    by (subst (asm) (2) eat_loop.simps) (auto simp: bind_eq_Some_conv split: if_splits dest: in_set_butlastD)
qed

lemma eat_trailing_space_set: "eat_trailing_space line chk = Some (r, line') \<Longrightarrow> set line' \<subseteq> set line"
  by (auto simp: eat_trailing_space_def bind_eq_Some_conv dest: eat_loop_set)

lemma add_line_space_newline:
  assumes "add_line_space line chk = Some (r, line')" "CHR 0x0A \<notin> set line"
  shows "CHR 0x0A \<notin> set line'"
proof -
  have "CHR 0x0A \<notin> set (add_spaces line)"
    using assms(2) by (auto simp: add_spaces_def dest: subsetD [OF spaced_set] split: list.splits)
  then show ?thesis using assms by (cases chk) auto
qed

lemma deal_line_newline:
  assumes "deal_line fs chk r l = Some (stop, r', l')" "set fs \<subseteq> {add_line_space, eat_trailing_space}" "CHR 0x0A \<notin> set l"
  shows "CHR 0x0A \<notin> set l'"
  using assms
proof (induction fs chk r l rule: deal_line.induct)
  case (2 f fs chk r l)
  obtain r1 l1 where f: "f l chk = Some (r1, l1)" using "2.prems"(1) by (auto simp: bind_eq_Some_conv)
  then have "CHR 0x0A \<notin> set l1"
    using "2.prems"(2,3) add_line_space_newline [of l chk r1 l1] eat_trailing_space_set [of l chk r1 l1] by auto
  then show ?case using 2 f by (auto split: if_splits)
qed simp

lemma deal_lines_wf:
  assumes "deal_lines fs chk n i r ls = Some (r', ls')" "set fs \<subseteq> {add_line_space, eat_trailing_space}" "lines_wf ls"
  shows "lines_wf ls'"
  using assms
proof (induction fs chk n i r ls rule: deal_lines.induct)
  case (1 fs chk n i r ls)
  show ?case
  proof (cases "i < n")
    case False
    then show ?thesis using "1.prems" by (subst (asm) deal_lines.simps) simp
  next
    case True
    then obtain l stop r1 l1 ls1 where s: "rdi ls i = Some l" "deal_line fs chk r l = Some (stop, r1, l1)"
      "wri ls i l1 = Some ls1" "(if stop then Some (r1, ls1) else deal_lines fs chk n (i + 1) r1 ls1) = Some (r', ls')"
      using "1.prems"(1) by (subst (asm) deal_lines.simps) (auto simp: bind_eq_Some_conv)
    have "l \<in> set ls" using s(1) by (auto simp: rdi_def rd_Some_iff split: if_splits)
    then have "CHR 0x0A \<notin> set l1"
      using "1.prems"(2,3) deal_line_newline [OF s(2)] by (auto simp: lines_wf_def list_all_iff)
    moreover have "ls1 = ls[nat i := l1]" using s(3) by (auto simp: wri_def wr_Some_iff split: if_splits)
    ultimately have "lines_wf ls1"
      using "1.prems"(3) set_update_subset_insert [of ls "nat i" l1] by (auto simp: lines_wf_def list_all_iff)
    then show ?thesis using "1.IH" [OF True s(1,2) _ _ s(3)] "1.prems"(2) s(4) by (cases stop) auto
  qed
qed

lemma show_keeps:
  "show_plain f as s = Some s' \<Longrightarrow> same_but_output s s'"
  "show_red f as s = Some s' \<Longrightarrow> same_but_output s s'"
  "show_green f as s = Some s' \<Longrightarrow> same_but_output s s'"
  by (cases s; auto simp: show_plain_def show_red_def show_green_def show_frame_def same_but_output_def Let_def
      bind_eq_Some_conv split: if_splits)+

text \<open>A well-formed officer: no line holds a newline, and only the two functions are installed.\<close>

definition officer_wf :: "format_officer \<Rightarrow> bool" where
  "officer_wf fo \<longleftrightarrow> lines_wf (line_vec fo) \<and> set (func_vec fo) \<subseteq> {add_line_space, eat_trailing_space}"

lemma same_wf: "same_but_output s s' \<Longrightarrow> officer_wf (fst s) \<Longrightarrow> officer_wf (fst s')"
  by (simp add: same_but_output_def officer_wf_def)

lemmas show_wf = show_keeps [THEN same_wf]

lemma load_wf:
  assumes "load_target_file env p s = Some (code, s')" "officer_wf (fst s)"
  shows "officer_wf (fst s')"
proof (cases s)
  case (Pair fo w)
  show ?thesis
  proof (cases "path_call (te_open_read env) w p")
    case (Inl e)
    then show ?thesis using assms Pair by (auto simp: load_target_file_def bind_eq_Some_conv intro: show_wf)
  next
    case (Inr n)
    then show ?thesis using assms Pair getlines_no_newline [of "node_bytes n"]
      by (auto simp: load_target_file_def officer_wf_def lines_wf_def)
  qed
qed

lemma save_wf:
  assumes "save_to_file env p s = Some (r, s')" "officer_wf (fst s)"
  shows "officer_wf (fst s')"
proof (cases s)
  case (Pair fo w)
  then show ?thesis using assms
    by (cases "open_write env p w") (auto simp: save_to_file_def bind_eq_Some_conv officer_wf_def
        split: if_splits dest!: show_keeps simp: same_but_output_def)
qed

lemma path_wf:
  assumes "is_invalid_path env p s = Some (Inr (r, s'))" "officer_wf (fst s)"
  shows "officer_wf (fst s')"
proof (cases p)
  case None
  then show ?thesis using assms by (auto simp: is_invalid_path_def bind_eq_Some_conv intro: show_wf)
next
  case (Some q)
  then show ?thesis using assms path_check_cases [of env q s] by (auto intro: same_wf)
qed

lemma backup_wf:
  assumes "read_and_backup env p s = Some (r, s')" "officer_wf (fst s)"
  shows "officer_wf (fst s')"
proof -
  obtain code s1 where s1: "load_target_file env p s = Some (code, s1)" using assms(1)
    by (auto simp: read_and_backup_def bind_eq_Some_conv Let_def)
  then have wf: "officer_wf (fst s1)" using assms(2) by (rule load_wf)
  show ?thesis using assms(1) s1 wf
    by (auto simp: read_and_backup_def bind_eq_Some_conv Let_def split: if_splits dest!: save_wf show_wf)
qed

lemma each_line_wf:
  assumes "format_check_each_line fo chk = Some (r, fo')" "officer_wf fo"
  shows "officer_wf fo'"
  using assms deal_lines_wf
  by (fastforce simp: format_check_each_line_def officer_wf_def Let_def bind_eq_Some_conv split: if_splits)

lemma functions_wf [simp]: "officer_wf fo \<Longrightarrow> officer_wf (get_format_func_array fo flags)"
  by (auto simp: officer_wf_def get_format_func_array_def)

lemma fields_wf [simp]: "officer_wf (fo\<lparr>backup := b\<rparr>) = officer_wf fo" "officer_wf (fo\<lparr>dispaly := c\<rparr>) = officer_wf fo"
  by (simp_all add: officer_wf_def)

lemma check_wf:
  assumes "formatting_check env p flags s = Some (Inr (r, s'))" "officer_wf (fst s)"
  shows "officer_wf (fst s')"
proof (cases "has_flag flags FORMAT_FMT_CHECK")
  case True
  then obtain x where x: "is_invalid_path env p s = Some x"
    using assms(1) by (auto simp: formatting_check_def bind_eq_Some_conv)
  then obtain bad fo1 w1 where "x = Inr (bad, fo1, w1)"
    using assms(1) True by (cases x) (auto simp: formatting_check_def)
  then have 1: "is_invalid_path env p s = Some (Inr (bad, fo1, w1))" using x by simp
  then have wf1: "officer_wf fo1" using path_wf [OF 1 assms(2)] by simp
  show ?thesis
  proof (cases bad)
    case False
    let ?fo = "fo1\<lparr>dispaly := \<not> has_flag flags FORMAT_UNDISPLAY\<rparr>"
    obtain code fo2 w2 where 2: "load_target_file env (the p) (?fo, w1) = Some (code, fo2, w2)"
      using assms(1) True 1 False by (auto simp: formatting_check_def bind_eq_Some_conv Let_def)
    then have wf2: "officer_wf fo2" using load_wf [OF 2] wf1 by simp
    then have wf3: "officer_wf (get_format_func_array fo2 flags)" by simp
    show ?thesis
      using assms(1) True 1 False 2 wf2 wf3
      by (auto simp: formatting_check_def bind_eq_Some_conv Let_def split: if_splits dest!: show_wf dest: each_line_wf)
  qed (use assms(1) True 1 wf1 in \<open>auto simp: formatting_check_def\<close>)
qed (use assms in \<open>auto simp: formatting_check_def\<close>)

lemma file_wf:
  assumes "formatting_file env p sp flags s = Some (Inr (r, s'))" "officer_wf (fst s)"
  shows "officer_wf (fst s')"
proof (cases s)
  case (Pair fo w)
  let ?fo = "fo\<lparr>backup := has_flag flags FORMAT_TO_BACKUP, dispaly := \<not> has_flag flags FORMAT_UNDISPLAY\<rparr>"
  have wf: "officer_wf ?fo" using assms(2) Pair by simp
  show ?thesis
  proof (cases "FORMAT_UNDEFINED = flags")
    case True
    then show ?thesis using assms(1) Pair wf
      by (auto simp: formatting_file_def bind_eq_Some_conv Let_def dest!: show_wf)
  next
    case flags: False
    obtain x where x: "is_invalid_path env p (?fo, w) = Some x"
      using assms(1) Pair flags by (auto simp: formatting_file_def bind_eq_Some_conv Let_def)
    then obtain bad s1 where "x = Inr (bad, s1)"
      using assms(1) Pair flags by (cases x) (auto simp: formatting_file_def Let_def)
    then have 1: "is_invalid_path env p (?fo, w) = Some (Inr (bad, s1))" using x by simp
    then have wf1: "officer_wf (fst s1)" using path_wf [OF 1] wf by simp
    show ?thesis
    proof (cases bad)
      case False
      obtain s2 s3 read fo4 w4 where 2: "show_plain ''input path: '' [] s1 = Some s2"
        "show_green (tab @ ''%s'' @ newline) [S (the p)] s2 = Some s3"
        "read_and_backup env (the p) s3 = Some (read, fo4, w4)"
        using assms(1) Pair flags 1 False by (cases s1) (auto simp: formatting_file_def bind_eq_Some_conv Let_def)
      have wf4: "officer_wf fo4" using backup_wf [OF 2(3)] show_wf(3) [OF 2(2)] show_wf(1) [OF 2(1)] wf1 by simp
      then have wf5: "officer_wf (get_format_func_array fo4 flags)" by simp
      show ?thesis
      proof (cases read)
        case True
        obtain x fo6 saved s7 where 3: "format_check_each_line (get_format_func_array fo4 flags) False = Some (x, fo6)"
          "save_to_file env (case sp of None \<Rightarrow> the p | Some p \<Rightarrow> p) (fo6, w4) = Some (saved, s7)"
          using assms(1) Pair flags 1 False 2 True
          by (cases s1) (auto simp: formatting_file_def bind_eq_Some_conv Let_def)
        have wf7: "officer_wf (fst s7)" using save_wf [OF 3(2)] each_line_wf [OF 3(1) wf5] by simp
        then show ?thesis
          using assms(1) Pair flags 1 False 2 True 3
          by (cases s1) (auto simp: formatting_file_def bind_eq_Some_conv Let_def split: if_splits dest!: show_wf)
      qed (use assms(1) Pair flags 1 False 2 wf4 in \<open>cases s1; auto simp: formatting_file_def Let_def\<close>)
    qed (use assms(1) Pair flags 1 wf1 in \<open>cases s1; auto simp: formatting_file_def Let_def\<close>)
  qed
qed

text \<open>
  C37: whatever fails, the officer stays well-formed through a check and through a formatting: no
  stored line contains a newline, and every installed function is one of the two. A new officer is
  well-formed.
\<close>

theorem officer_type_safe:
  "officer_wf format_officer_create \<and>
   (officer_wf (fst s) \<longrightarrow> formatting_check env p flags s = Some (Inr (r, s')) \<longrightarrow> officer_wf (fst s')) \<and>
   (officer_wf (fst s) \<longrightarrow> formatting_file env p sp flags s = Some (Inr (r, s')) \<longrightarrow> officer_wf (fst s'))"
proof -
  have "officer_wf format_officer_create" by (simp add: officer_wf_def format_officer_create_def lines_wf_def)
  then show ?thesis using check_wf file_wf by blast
qed

theorem officer_type_safe_witness:
  "\<exists>r s'. formatting_check calm_env (Some ''f'') 0x20000006 (format_officer_create, one_file ''ab'') = Some (Inr (r, s')) \<and>
    officer_wf (fst s') \<and> line_vec (fst s') = [''ab'']"
proof -
  have ls: "getlines ''ab'' = [''ab'']" by code_simp
  have flags: "has_flag 0x20000006 FORMAT_FMT_CHECK" "has_flag 0x20000006 FORMAT_ADD_SPACE" by code_simp+
  then have fs: "line_functions 0x20000006 \<noteq> []" by (simp add: line_functions_def)
  have "text_content ''ab''" by (simp add: text_content_def MAXIMUM_FILE_SIZE_def elf_head_size_def)
  then obtain r fo' w' where run: "formatting_check calm_env (Some ''f'') 0x20000006 (format_officer_create, one_file ''ab'') =
      Some (Inr (r, fo', w'))" "line_vec fo' = [''ab'']"
    using formatting_check_effect [OF calm, where w = "one_file ''ab''" and p = "''f''" and content = "''ab''"
        and fo = format_officer_create and flags = "0x20000006"] ls flags(1) fs
    by (auto simp: one_file_def format_officer_create_def lines_fit_def)
  then have "officer_wf fo'"
    using officer_type_safe [where s = "(format_officer_create, one_file ''ab'')" and env = calm_env and p = "Some ''f''"
        and flags = "0x20000006" and r = r and s' = "(fo', w')"] by simp
  with run show ?thesis by (intro exI [of _ r] exI [of _ "(fo', w')"]) simp
qed

end
