(* ===== verification/Utils_Singleton.thy ===== *)
theory Utils_Singleton
  imports C_Base
begin

text \<open>
  The process singleton of \<open>common/utils_singleton.c\<close>: a process that holds the write lock of a
  file and has its number in it; a newcomer kills the process whose number it reads there and
  waits until the lock is free.

  The world is the files by path, the holder of the lock of each, the signals sent and the text on
  standard error. What other processes and the kernel do, at a \<open>kill\<close> and at a \<open>sched_yield\<close>, is
  a function of the environment. The loop may wait forever: it is a \<open>partial_function\<close>, and
  \<open>None\<close> means that it does, or that the behaviour is undefined. A process that kills itself is
  the left alternative of a sum.
\<close>

section \<open>The world\<close>

record sg_world =
  sw_files :: "string \<rightharpoonup> string"
  sw_lock :: "string \<rightharpoonup> int"    \<comment> \<open>the process that holds the write lock\<close>
  sw_killed :: "int list"       \<comment> \<open>arguments of \<open>kill(_, SIGKILL)\<close>, last first\<close>
  sw_err :: "string list"

record sg_env =
  se_pid :: int
  se_pgrp :: int                               \<comment> \<open>the own process group\<close>
  se_home :: "string option"
  se_open :: "sg_world \<Rightarrow> string \<Rightarrow> int option"   \<comment> \<open>\<open>errno\<close> of \<open>open\<close>, if it fails\<close>
  se_lock_error :: "sg_world \<Rightarrow> string \<Rightarrow> bool"  \<comment> \<open>\<open>fcntl\<close> fails although nobody else holds the lock\<close>
  se_truncate :: "sg_world \<Rightarrow> string \<Rightarrow> bool"    \<comment> \<open>\<open>ftruncate\<close> succeeds\<close>
  se_write :: "sg_world \<Rightarrow> string \<Rightarrow> nat"        \<comment> \<open>how many bytes \<open>dprintf\<close> can store\<close>
  se_kill :: "int \<Rightarrow> sg_world \<Rightarrow> sg_world"
  se_yield :: "sg_world \<Rightarrow> sg_world"
  se_strerror :: "int \<Rightarrow> string"

text \<open>\<open>open(path, O_CREAT|O_RDWR)\<close>\<close>

definition open_create :: "sg_env \<Rightarrow> string \<Rightarrow> sg_world \<Rightarrow> int + sg_world" where
  "open_create env path w = (case se_open env w path of
     Some e \<Rightarrow> Inl e
   | None \<Rightarrow> Inr (if sw_files w path = None then w\<lparr>sw_files := (sw_files w)(path \<mapsto> [])\<rparr> else w))"

definition complain :: "sg_env \<Rightarrow> string \<Rightarrow> int \<Rightarrow> sg_world \<Rightarrow> sg_world" where
  "complain env path e w = w\<lparr>sw_err := sw_err w @ [''open '' @ path @ '' failed '' @ se_strerror env e @ [CHR 0x0A]]\<rparr>"

text \<open>Closing any descriptor of a file gives up the lock that this process has on it.\<close>

definition close_file :: "sg_env \<Rightarrow> string \<Rightarrow> sg_world \<Rightarrow> sg_world" where
  "close_file env path w = (if sw_lock w path = Some (se_pid env) then w\<lparr>sw_lock := (sw_lock w)(path := None)\<rparr> else w)"

definition set_lock :: "sg_env \<Rightarrow> string \<Rightarrow> sg_world \<Rightarrow> sg_world option" where
  "set_lock env path w = (
     if se_lock_error env w path \<or> (case sw_lock w path of None \<Rightarrow> False | Some q \<Rightarrow> q \<noteq> se_pid env) then None
     else Some (w\<lparr>sw_lock := (sw_lock w)(path \<mapsto> se_pid env)\<rparr>))"

text \<open>\<open>ftruncate(fd, 0)\<close>, and \<open>dprintf\<close> at the beginning of the file: what it does not store stays as it was.\<close>

definition ftruncate :: "sg_env \<Rightarrow> string \<Rightarrow> sg_world \<Rightarrow> sg_world" where
  "ftruncate env path w = (if se_truncate env w path then w\<lparr>sw_files := (sw_files w)(path \<mapsto> [])\<rparr> else w)"

definition dprintf :: "sg_env \<Rightarrow> string \<Rightarrow> string \<Rightarrow> sg_world \<Rightarrow> sg_world" where
  "dprintf env path s w = (let
     n = min (se_write env w path) (length s);
     old = (case sw_files w path of None \<Rightarrow> [] | Some c \<Rightarrow> c)
     in w\<lparr>sw_files := (sw_files w)(path \<mapsto> take n s @ drop n old)\<rparr>)"

section \<open>The code\<close>

text \<open>The results of \<open>ftruncate\<close>, \<open>dprintf\<close> and \<open>fsync\<close> are ignored.\<close>

definition is_proc_running :: "sg_env \<Rightarrow> string \<Rightarrow> sg_world \<Rightarrow> bool \<times> sg_world" where
  "is_proc_running env pid_file w = (case open_create env pid_file w of
     Inl e \<Rightarrow> (False, complain env pid_file e w)
   | Inr w \<Rightarrow> (case set_lock env pid_file w of
       None \<Rightarrow> (True, close_file env pid_file w)
     | Some w \<Rightarrow> (let
         w = ftruncate env pid_file w;
         w = dprintf env pid_file (fmt_d (se_pid env)) w
         in (False, w))))"

partial_function (option) usurp_loop :: "sg_env \<Rightarrow> string \<Rightarrow> sg_world \<Rightarrow> sg_world option" where
  "usurp_loop env pid_file w = (case is_proc_running env pid_file w of
     (running, w) \<Rightarrow> if running then usurp_loop env pid_file (se_yield env w) else Some w)"

text \<open>
  \<open>atol\<close> of a buffer: blanks, a sign, digits. It runs behind a buffer without another character,
  and a value that does not fit in 64 bits is undefined; so \<open>None\<close> for both.
\<close>

definition is_space :: "char \<Rightarrow> bool" where
  "is_space c \<longleftrightarrow> c = CHR '' '' \<or> (9 \<le> (of_char c :: nat) \<and> (of_char c :: nat) \<le> 13)"

definition is_digit :: "char \<Rightarrow> bool" where
  "is_digit c \<longleftrightarrow> 48 \<le> (of_char c :: nat) \<and> (of_char c :: nat) \<le> 57"

fun read_digits :: "int \<Rightarrow> string \<Rightarrow> int option" where
  "read_digits n [] = None"
| "read_digits n (c # cs) = (if is_digit c then read_digits (10 * n + (of_char c - 48)) cs else Some n)"

fun atol :: "string \<Rightarrow> int option" where
  "atol [] = None"
| "atol (c # cs) = (
     if is_space c then atol cs
     else do {
       n \<leftarrow> (if c = CHR ''-'' then map_option uminus (read_digits 0 cs)
            else if c = CHR ''+'' then read_digits 0 cs
            else read_digits 0 (c # cs));
       if - (2 ^ 63) \<le> n \<and> n < 2 ^ 63 then Some n else None })"

text \<open>The conversion to \<open>pid_t\<close>.\<close>

definition to_pid :: "int \<Rightarrow> int" where
  "to_pid n = sint (word_of_int n :: i32)"

definition SG_PATH_MAX :: nat where
  "SG_PATH_MAX = 1024"

definition pid_path :: "string \<Rightarrow> string \<Rightarrow> string" where
  "pid_path home proc_name = take (SG_PATH_MAX - 1) (home @ ''/.'' @ proc_name @ ''.pid'')"

text \<open>\<open>kill(pid, SIGKILL)\<close>; 0 is the own process group, and so is its number with a minus sign.\<close>

definition kill :: "sg_env \<Rightarrow> int \<Rightarrow> sg_world \<Rightarrow> sg_world + sg_world" where
  "kill env pid w = (let w = w\<lparr>sw_killed := pid # sw_killed w\<rparr> in
     if pid = 0 \<or> pid = se_pid env \<or> pid < -1 \<and> pid = - se_pgrp env then Inl w else Inr (se_kill env pid w))"

definition proc_usurpation :: "sg_env \<Rightarrow> string \<Rightarrow> sg_world \<Rightarrow> (sg_world + bool \<times> sg_world) option" where
  "proc_usurpation env proc_name w = do {
     home \<leftarrow> se_home env;
     let pid_file = pid_path home proc_name;
     (case open_create env pid_file w of
        Inl e \<Rightarrow> Some (Inr (False, complain env pid_file e w))
      | Inr w \<Rightarrow> do {
          let got = take 32 (the (sw_files w pid_file));
          let buf = got @ replicate (32 - length got) (CHR 0x00);
          r \<leftarrow> (if length got > 0 then do {
                 n \<leftarrow> atol buf;
                 Some (kill env (to_pid n) w) }
               else Some (Inr w));
          (case r of
             Inl w \<Rightarrow> Some (Inl w)
           | Inr w \<Rightarrow> do {
               let w = close_file env pid_file w;
               w \<leftarrow> usurp_loop env pid_file w;
               Some (Inr (True, w)) }) }) }"

section \<open>Reading back a number\<close>

lemma digits_nonempty: "\<exists>c cs. digits n = c # cs \<and> is_digit c"
proof (induction n rule: digits.induct)
  case (1 n)
  then show ?case
  proof (cases "n < 10")
    case True
    then show ?thesis by (subst digits.simps) (simp add: is_digit_def)
  next
    case False
    then show ?thesis using 1 by (subst digits.simps) auto
  qed
qed

lemma digit_char:
  assumes "n < 10"
  shows "is_digit (char_of (48 + n))" "(of_char (char_of (48 + n) :: char) :: int) = 48 + int n"
proof -
  have n: "(of_char (char_of (48 + n) :: char) :: nat) = 48 + n" using assms by simp
  then show "is_digit (char_of (48 + n))" using assms by (simp add: is_digit_def)
  have "(of_char (char_of (48 + n) :: char) :: int) = int (of_char (char_of (48 + n) :: char))"
    by (simp only: of_nat_of_char)
  then show "(of_char (char_of (48 + n) :: char) :: int) = 48 + int n" unfolding n by simp
qed

lemma read_digits_digits:
  "read_digits m (digits n @ rest) = read_digits (m * 10 ^ length (digits n) + int n) rest"
proof (induction n arbitrary: m rest rule: digits.induct)
  case (1 n)
  show ?case
  proof (cases "n < 10")
    case True
    then have "digits n = [char_of (48 + n)]" by (subst digits.simps) simp
    then show ?thesis using digit_char [OF True] by (simp add: algebra_simps)
  next
    case False
    let ?d = "n mod 10"
    have d: "is_digit (char_of (48 + ?d))" "(of_char (char_of (48 + ?d) :: char) :: int) = 48 + int ?d"
      by (rule digit_char; simp)+
    have split: "digits n = digits (n div 10) @ [char_of (48 + ?d)]" using False by (subst digits.simps) simp
    have "int n = 10 * int (n div 10) + int ?d" by presburger
    then have val: "10 * (m * 10 ^ length (digits (n div 10)) + int (n div 10)) + int ?d =
        m * 10 ^ length (digits n) + int n"
      unfolding split by simp
    have "read_digits m (digits n @ rest) = read_digits m (digits (n div 10) @ char_of (48 + ?d) # rest)"
      unfolding split by simp
    also have "\<dots> = read_digits (m * 10 ^ length (digits (n div 10)) + int (n div 10)) (char_of (48 + ?d) # rest)"
      by (rule "1.IH" [OF False])
    also have "\<dots> = read_digits (10 * (m * 10 ^ length (digits (n div 10)) + int (n div 10)) + int ?d) rest"
      using d by simp
    finally show ?thesis unfolding val .
  qed
qed

lemma length_digits: "n < 10 ^ Suc k \<Longrightarrow> length (digits n) \<le> Suc k"
proof (induction k arbitrary: n)
  case 0
  then show ?case by (subst digits.simps) simp
next
  case (Suc k)
  then have "n div 10 < 10 ^ Suc k" by (simp add: less_mult_imp_div_less mult.commute)
  then show ?case using Suc.IH [of "n div 10"] by (subst digits.simps) simp
qed

lemma atol_fmt_d:
  assumes "0 \<le> q" "q < 2147483648" "\<not> is_digit c"
  shows "atol (fmt_d q @ c # rest) = Some q"
proof -
  obtain d ds where d: "digits (nat q) = d # ds" "is_digit d" using digits_nonempty by blast
  then have "\<not> is_space d" "d \<noteq> CHR ''-''" "d \<noteq> CHR ''+''" by (auto simp: is_digit_def is_space_def)
  moreover have "read_digits 0 (digits (nat q) @ c # rest) = Some q"
    using read_digits_digits [of 0 "nat q" "c # rest"] assms by simp
  ultimately show ?thesis using assms d by (simp add: fmt_d_def)
qed

lemma to_pid_small: "0 \<le> q \<Longrightarrow> q < 2147483648 \<Longrightarrow> to_pid q = q"
  using int_word_sint [of q, where 'a = 32] by (simp add: to_pid_def)

text \<open>The buffer that \<open>read\<close> fills from a file with a process number.\<close>

lemma pid_buffer:
  assumes "0 \<le> q" "q < 2147483648"
  shows "0 < length (fmt_d q)" "length (fmt_d q) < 32"
    "atol (fmt_d q @ replicate (32 - length (fmt_d q)) (CHR 0x00)) = Some q"
proof -
  have "nat q < 10 ^ Suc 9" using assms by simp
  then have len: "length (fmt_d q) \<le> 10" using length_digits [of "nat q" 9] assms by (simp add: fmt_d_def)
  then show "length (fmt_d q) < 32" by simp
  show "0 < length (fmt_d q)" using digits_nonempty [of "nat q"] assms by (auto simp: fmt_d_def)
  obtain k where "32 - length (fmt_d q) = Suc k" using len by (cases "32 - length (fmt_d q)") simp_all
  then show "atol (fmt_d q @ replicate (32 - length (fmt_d q)) (CHR 0x00)) = Some q"
    using atol_fmt_d [OF assms, of "CHR 0x00" "replicate k (CHR 0x00)"] by (simp add: is_digit_def)
qed

section \<open>The loop\<close>

text \<open>In every world the file can be cut and takes the whole number.\<close>

definition stores_pid :: "sg_env \<Rightarrow> string \<Rightarrow> bool" where
  "stores_pid env path \<longleftrightarrow> (\<forall>w. se_truncate env w path \<and> length (fmt_d (se_pid env)) \<le> se_write env w path)"

text \<open>The lock is ours; and our number is in the file, if it can be stored.\<close>

definition owns :: "sg_env \<Rightarrow> string \<Rightarrow> sg_world \<Rightarrow> bool" where
  "owns env path w \<longleftrightarrow> sw_lock w path = Some (se_pid env) \<and>
     (stores_pid env path \<longrightarrow> sw_files w path = Some (fmt_d (se_pid env)))"

lemma stored: 
  "sw_lock (dprintf env path s (ftruncate env path w)) = sw_lock w"
  "stores_pid env path \<Longrightarrow> sw_files (dprintf env path (fmt_d (se_pid env)) (ftruncate env path w)) path = Some (fmt_d (se_pid env))"
  by (simp_all add: dprintf_def ftruncate_def stores_pid_def Let_def min_absorb2)

lemma not_running_owns:
  assumes "is_proc_running env path w = (False, w')" "se_open env w path = None"
  shows "owns env path w'"
  using assms
  by (auto simp: is_proc_running_def open_create_def set_lock_def owns_def stored Let_def split: if_splits)

lemma usurp_loop_owns:
  assumes "usurp_loop env path w = Some w'" "(\<lambda>w. se_open env w path) = (\<lambda>_. None)"
  shows "owns env path w'"
proof -
  have "(\<lambda>w. se_open env w path) = (\<lambda>_. None) \<longrightarrow> owns env path w'"
  proof (rule usurp_loop.raw_induct [OF _ assms(1), where P = "\<lambda>env path w w'.
      (\<lambda>w. se_open env w path) = (\<lambda>_. None) \<longrightarrow> owns env path w'"])
    fix loop env path w w'
    assume IH: "\<And>env path w w'. loop env path w = Some w' \<Longrightarrow>
        (\<lambda>w. se_open env w path) = (\<lambda>_. None) \<longrightarrow> owns env path w'"
      and run: "(case is_proc_running env path w of (running, w) \<Rightarrow>
        if running then loop env path (se_yield env w) else Some w) = Some w'"
    show "(\<lambda>w. se_open env w path) = (\<lambda>_. None) \<longrightarrow> owns env path w'"
    proof
      assume opens: "(\<lambda>w. se_open env w path) = (\<lambda>_. None)"
      obtain running w1 where r: "is_proc_running env path w = (running, w1)" by fastforce
      show "owns env path w'"
      proof (cases running)
        case True
        then show ?thesis using IH run r opens by simp
      next
        case False
        then show ?thesis using run r not_running_owns [of env path w w1] fun_cong [OF opens, of w] by simp
      qed
    qed
  qed
  with assms(2) show ?thesis by blast
qed

lemma usurp_loop_ends:
  assumes "(\<lambda>w. se_open env w path) = (\<lambda>_. None)" "(\<lambda>w. se_lock_error env w path) = (\<lambda>_. False)"
    and "\<forall>i \<le> n. sw_files ((se_yield env ^^ i) w) path \<noteq> None" "sw_lock ((se_yield env ^^ n) w) path = None"
  shows "\<exists>w'. usurp_loop env path w = Some w'"
  using assms(3,4)
proof (induction n arbitrary: w)
  case 0
  then have "sw_lock w path = None" by simp
  then show ?case using assms(1,2)
    by (subst usurp_loop.simps) (auto simp: is_proc_running_def open_create_def set_lock_def fun_eq_iff)
next
  case (Suc n)
  have exists: "sw_files w path \<noteq> None" using Suc.prems(1) by (metis bot_nat_0.extremum funpow_0)
  show ?case
  proof (cases "is_proc_running env path w")
    case (Pair running w1)
    show ?thesis
    proof (cases running)
      case False
      then show ?thesis using Pair by (subst usurp_loop.simps) simp
    next
      case True
      then have "w1 = w" using Pair exists assms(1,2)
        by (auto simp: is_proc_running_def open_create_def set_lock_def close_file_def fun_eq_iff
            split: if_splits option.splits)
      moreover have "\<exists>w'. usurp_loop env path (se_yield env w) = Some w'"
      proof (rule Suc.IH)
        show "\<forall>i\<le>n. sw_files ((se_yield env ^^ i) (se_yield env w)) path \<noteq> None"
          using Suc.prems(1) by (metis Suc_le_mono comp_apply funpow_Suc_right)
        show "sw_lock ((se_yield env ^^ n) (se_yield env w)) path = None"
          using Suc.prems(2) by (simp add: funpow_swap1)
      qed
      ultimately show ?thesis using Pair True by (subst usurp_loop.simps) simp
    qed
  qed
qed

section \<open>Properties\<close>

text \<open>The world in which the loop starts, after the process \<open>q\<close> named in the file was killed.\<close>

definition after_kill :: "sg_env \<Rightarrow> string \<Rightarrow> int \<Rightarrow> sg_world \<Rightarrow> sg_world" where
  "after_kill env path q w = close_file env path (se_kill env q (w\<lparr>sw_killed := q # sw_killed w\<rparr>))"

lemma usurpation_start:
  assumes "se_home env = Some home" "se_open env w (pid_path home name) = None"
    and "sw_files w (pid_path home name) = Some (fmt_d q)" "0 \<le> q" "q < 2147483648"
  shows "proc_usurpation env name w = (if q = 0 \<or> q = se_pid env then Some (Inl (w\<lparr>sw_killed := q # sw_killed w\<rparr>))
    else map_option (\<lambda>w. Inr (True, w)) (usurp_loop env (pid_path home name) (after_kill env (pid_path home name) q w)))"
proof -
  have "take 32 (fmt_d q) = fmt_d q" using pid_buffer(2) [OF assms(4,5)] by simp
  then show ?thesis
    using assms pid_buffer [OF assms(4,5)] to_pid_small [OF assms(4,5)]
    by (auto simp: proc_usurpation_def open_create_def Let_def kill_def after_kill_def map_option_case
        simp del: length_greater_0_conv split: option.splits)
qed

lemma sum_case_Some:
  "(case y of Inl a \<Rightarrow> f a | Inr b \<Rightarrow> g b) = Some v \<longleftrightarrow>
     (\<exists>a. y = Inl a \<and> f a = Some v) \<or> (\<exists>b. y = Inr b \<and> g b = Some v)"
  by (cases y) auto

lemma usurpation_cases:
  assumes "proc_usurpation env name w = Some (Inr (r, w'))" "se_home env = Some home"
    "se_open env w (pid_path home name) = None"
  shows "r \<and> (\<exists>w0. usurp_loop env (pid_path home name) w0 = Some w')"
  using assms
  by (auto simp: proc_usurpation_def open_create_def Let_def bind_eq_Some_conv sum_case_Some split: if_splits)

text \<open>
  C39: mutual exclusion. If the file can be opened whenever it is tried, \<open>proc_usurpation\<close> returns
  only true, and then the process holds the lock of the file, whatever the file contained before and
  whatever other processes do while it waits. If moreover \<open>ftruncate\<close> and \<open>dprintf\<close>, whose results
  the code ignores, succeed, the file contains its own number.
\<close>

theorem usurpation_exclusive:
  assumes "proc_usurpation env name w = Some (Inr (r, w'))" "se_home env = Some home"
    and "(\<lambda>w. se_open env w (pid_path home name)) = (\<lambda>_. None)"
  shows "r \<and> sw_lock w' (pid_path home name) = Some (se_pid env) \<and>
    (stores_pid env (pid_path home name) \<longrightarrow> sw_files w' (pid_path home name) = Some (fmt_d (se_pid env)))"
proof -
  have "se_open env w (pid_path home name) = None" using assms(3) by (rule fun_cong)
  then obtain w0 where "r" "usurp_loop env (pid_path home name) w0 = Some w'"
    using usurpation_cases [OF assms(1,2)] by blast
  then show ?thesis using usurp_loop_owns [OF _ assms(3)] by (simp add: owns_def)
qed

text \<open>
  C38: \<open>proc_usurpation\<close> takes over. The file holds the number of another process, and can always be
  opened, and locked when nobody else holds it. If after the kill the lock is free after some number
  of yields, and nobody removes the file meanwhile, then the call returns true and the process holds
  the lock; and its own number is in the file, if \<open>ftruncate\<close> and \<open>dprintf\<close> succeed.
\<close>

theorem usurpation_takes_over:
  assumes env: "se_home env = Some home" "(\<lambda>w. se_open env w (pid_path home name)) = (\<lambda>_. None)"
    "(\<lambda>w. se_lock_error env w (pid_path home name)) = (\<lambda>_. False)"
    and q: "sw_files w (pid_path home name) = Some (fmt_d q)" "0 < q" "q < 2147483648" "q \<noteq> se_pid env"
    and later: "\<forall>i \<le> n. sw_files ((se_yield env ^^ i) (after_kill env (pid_path home name) q w)) (pid_path home name) \<noteq> None"
    "sw_lock ((se_yield env ^^ n) (after_kill env (pid_path home name) q w)) (pid_path home name) = None"
  shows "\<exists>w'. proc_usurpation env name w = Some (Inr (True, w')) \<and>
    sw_lock w' (pid_path home name) = Some (se_pid env) \<and>
    (stores_pid env (pid_path home name) \<longrightarrow> sw_files w' (pid_path home name) = Some (fmt_d (se_pid env)))"
proof -
  obtain w' where w': "usurp_loop env (pid_path home name) (after_kill env (pid_path home name) q w) = Some w'"
    using usurp_loop_ends [OF env(2,3) later] by blast
  have "se_open env w (pid_path home name) = None" using env(2) by (rule fun_cong)
  then have "proc_usurpation env name w = Some (Inr (True, w'))"
    using usurpation_start [OF env(1) _ q(1)] q w' by simp
  then show ?thesis using usurp_loop_owns [OF w' env(2)] by (simp add: owns_def)
qed

text \<open>A process 7 that holds the lock, and frees it when it is killed, one yield later.\<close>

definition demo_env :: sg_env where
  "demo_env = \<lparr>se_pid = 42, se_pgrp = 42, se_home = Some ''/root'', se_open = \<lambda>_ _. None, se_lock_error = \<lambda>_ _. False,
     se_truncate = \<lambda>_ _. True, se_write = \<lambda>_ _. 10, se_kill = \<lambda>_ w. w, se_yield = \<lambda>w. w\<lparr>sw_lock := Map.empty\<rparr>, se_strerror = \<lambda>_. ''error''\<rparr>"

definition demo_world :: sg_world where
  "demo_world = \<lparr>sw_files = [pid_path ''/root'' ''x'' \<mapsto> fmt_d 7], sw_lock = [pid_path ''/root'' ''x'' \<mapsto> 7],
     sw_killed = [], sw_err = []\<rparr>"

lemma demo_env_fields: "se_home demo_env = Some ''/root''" "se_pid demo_env = 42"
  "(\<lambda>w. se_open demo_env w p) = (\<lambda>_. None)" "(\<lambda>w. se_lock_error demo_env w p) = (\<lambda>_. False)"
  by (simp_all add: demo_env_def)

lemma demo_env_stores: "stores_pid demo_env p"
proof -
  have "length (fmt_d 42) \<le> 10" using length_digits [of 42 9] by (simp add: fmt_d_def)
  then show ?thesis by (simp add: stores_pid_def demo_env_def)
qed

theorem usurpation_takes_over_witness:
  "\<exists>w'. proc_usurpation demo_env ''x'' demo_world = Some (Inr (True, w')) \<and>
     sw_lock w' (pid_path ''/root'' ''x'') = Some 42 \<and> sw_files w' (pid_path ''/root'' ''x'') = Some (fmt_d 42)"
proof -
  let ?p = "pid_path ''/root'' ''x''"
  have w: "sw_files demo_world ?p = Some (fmt_d 7)" by (simp add: demo_world_def)
  have a: "after_kill demo_env ?p 7 demo_world = demo_world\<lparr>sw_killed := [7]\<rparr>"
    by (simp add: after_kill_def demo_env_def demo_world_def close_file_def)
  have 1: "\<forall>i \<le> 1. sw_files ((se_yield demo_env ^^ i) (after_kill demo_env ?p 7 demo_world)) ?p \<noteq> None"
    unfolding a by (auto simp: demo_env_def demo_world_def le_Suc_eq)
  have 2: "sw_lock ((se_yield demo_env ^^ 1) (after_kill demo_env ?p 7 demo_world)) ?p = None"
    unfolding a by (simp add: demo_env_def demo_world_def)
  show ?thesis
    using usurpation_takes_over [OF demo_env_fields(1,3,4) w _ _ _ 1 2] by (auto simp: demo_env_fields(2) demo_env_stores)
qed

theorem usurpation_exclusive_witness:
  "\<exists>w'. proc_usurpation demo_env ''x'' (demo_world\<lparr>sw_files := Map.empty, sw_lock := Map.empty\<rparr>) = Some (Inr (True, w')) \<and>
     sw_lock w' (pid_path ''/root'' ''x'') = Some 42 \<and> sw_files w' (pid_path ''/root'' ''x'') = Some (fmt_d 42)"
proof -
  let ?p = "pid_path ''/root'' ''x''"
  let ?w = "demo_world\<lparr>sw_files := Map.empty, sw_lock := Map.empty\<rparr>"
  have "\<exists>w'. proc_usurpation demo_env ''x'' ?w = Some (Inr (True, w'))"
    by (simp add: proc_usurpation_def usurp_loop.simps is_proc_running_def open_create_def set_lock_def close_file_def
        demo_env_def demo_world_def Let_def)
  then obtain w' where run: "proc_usurpation demo_env ''x'' ?w = Some (Inr (True, w'))" by blast
  from usurpation_exclusive [OF run demo_env_fields(1,3)] run show ?thesis by (auto simp: demo_env_fields(2) demo_env_stores)
qed

text \<open>
  What a file with other contents does. A process that calls \<open>proc_usurpation\<close> again, for the name
  it already holds, reads its own number and kills itself; a file that does not start with a number
  reads as 0, which is the own process group.
\<close>

lemma usurpation_twice_is_suicide:
  assumes "se_home env = Some home" "se_open env w (pid_path home name) = None"
    and "sw_files w (pid_path home name) = Some (fmt_d (se_pid env))" "0 < se_pid env" "se_pid env < 2147483648"
  shows "\<exists>w'. proc_usurpation env name w = Some (Inl w')"
  using usurpation_start [OF assms(1-3)] assms(4,5) by simp

lemma garbage_kills_own_group:
  assumes "se_home env = Some home" "se_open env w (pid_path home name) = None"
    and "sw_files w (pid_path home name) = Some (c # cs)" "\<not> is_space c" "\<not> is_digit c" "c \<noteq> CHR ''-''" "c \<noteq> CHR ''+''"
  shows "proc_usurpation env name w = Some (Inl (w\<lparr>sw_killed := 0 # sw_killed w\<rparr>))"
  using assms by (simp add: proc_usurpation_def open_create_def Let_def kill_def to_pid_def)

text \<open>
  When \<open>ftruncate\<close> fails, the end of a longer old number stays behind the new one, and the next
  usurper kills a process that has nothing to do with the file.
\<close>

lemma old_digits_stay:
  assumes "se_open env w path = None" "set_lock env path w = Some w1" "sw_files w path = Some old"
    and "\<not> se_truncate env w1 path" "length (fmt_d (se_pid env)) \<le> se_write env w1 path"
  shows "\<exists>w'. is_proc_running env path w = (False, w') \<and>
    sw_files w' path = Some (fmt_d (se_pid env) @ drop (length (fmt_d (se_pid env))) old)"
proof -
  have "sw_files w1 = sw_files w" using assms(2) by (auto simp: set_lock_def split: if_splits)
  then show ?thesis
    using assms by (auto simp: is_proc_running_def open_create_def ftruncate_def dprintf_def Let_def min_absorb2)
qed

text \<open>When the file can no longer be opened, the loop ends and the call answers true without the lock.\<close>

lemma usurp_loop_open_failure:
  "se_open env w path = Some e \<Longrightarrow> usurp_loop env path w = Some (complain env path e w)"
  by (subst usurp_loop.simps) (simp add: is_proc_running_def open_create_def)

end
