(* ===== verification/Utils_Daemon.thy ===== *)
theory Utils_Daemon
  imports C_Base
begin

text \<open>
  \<open>become_daemon\<close> of \<open>common/utils_daemon.c\<close>, followed in one process: what \<open>fork\<close> returns is
  an answer of the environment, so the parent, the child and a failure are three runs of the same
  function. The descriptor table is a list, and \<open>open\<close> takes the lowest free descriptor.
  \<open>exit\<close> is the left alternative of a sum, with the exit code.
\<close>

section \<open>The process and its system calls\<close>

datatype access_mode = O_RDONLY | O_WRONLY | O_RDWR

record process =
  dp_fds :: "(string \<times> access_mode) option list"
  dp_forks :: nat                   \<comment> \<open>how often this process and its ancestors have forked\<close>
  dp_leader :: bool                 \<comment> \<open>leads a session\<close>
  dp_ignored :: "(int \<times> bool) list" \<comment> \<open>signals set to \<open>SIG_IGN\<close>, with \<open>SA_RESETHAND\<close>\<close>

record process_env =
  de_fork :: "nat \<Rightarrow> int"           \<comment> \<open>what the \<open>n\<close>-th \<open>fork\<close> returns here\<close>
  de_setsid :: int
  de_sigaction :: "int \<Rightarrow> int"
  de_close :: "nat \<Rightarrow> int"          \<comment> \<open>result of closing an open descriptor, which releases it in any case\<close>
  de_open :: "nat \<Rightarrow> bool"          \<comment> \<open>can \<open>/dev/null\<close> be opened on this descriptor\<close>

definition fd_close :: "process_env \<Rightarrow> nat \<Rightarrow> process \<Rightarrow> int \<times> process" where
  "fd_close env fd p = (
     if fd < length (dp_fds p) \<and> dp_fds p ! fd \<noteq> None
     then (de_close env fd, p\<lparr>dp_fds := (dp_fds p)[fd := None]\<rparr>)
     else (- 1, p))"

definition lowest_free :: "'a option list \<Rightarrow> nat" where
  "lowest_free fds = length (takeWhile (\<lambda>x. x \<noteq> None) fds)"

definition fd_open :: "process_env \<Rightarrow> string \<Rightarrow> access_mode \<Rightarrow> process \<Rightarrow> int \<times> process" where
  "fd_open env path mode p = (let fd = lowest_free (dp_fds p) in
     if de_open env fd then
       (int fd, p\<lparr>dp_fds := (if fd < length (dp_fds p) then (dp_fds p)[fd := Some (path, mode)]
          else dp_fds p @ [Some (path, mode)])\<rparr>)
     else (- 1, p))"

section \<open>The code\<close>

definition ignore_signal :: "process_env \<Rightarrow> int \<Rightarrow> bool \<Rightarrow> process \<Rightarrow> int \<times> process" where
  "ignore_signal env signal is_once p = (let r = de_sigaction env signal in
     (r, if r = 0 then p\<lparr>dp_ignored := (signal, is_once) # dp_ignored p\<rparr> else p))"

definition become_child :: "process_env \<Rightarrow> process \<Rightarrow> int + int \<times> process" where
  "become_child env p = (let pid = de_fork env (dp_forks p); p = p\<lparr>dp_forks := dp_forks p + 1\<rparr> in
     if 0 < pid then Inl 0
     else Inr (pid, if pid = 0 then p\<lparr>dp_leader := False\<rparr> else p))"

definition setsid :: "process_env \<Rightarrow> process \<Rightarrow> int \<times> process" where
  "setsid env p = (de_setsid env, if 0 < de_setsid env then p\<lparr>dp_leader := True\<rparr> else p)"

definition SIGHUP :: int where "SIGHUP = 1"

text \<open>The condition of the first \<open>if\<close>, evaluated from left to right until a part fails.\<close>

definition detach :: "process_env \<Rightarrow> process \<Rightarrow> int + bool \<times> process" where
  "detach env p = (case become_child env p of
     Inl code \<Rightarrow> Inl code
   | Inr (pid, p) \<Rightarrow>
       if pid \<noteq> 0 then Inr (False, p) else
       (case setsid env p of (sid, p) \<Rightarrow>
         if \<not> 0 < sid then Inr (False, p) else
         (case ignore_signal env SIGHUP False p of (r, p) \<Rightarrow>
           if r \<noteq> 0 then Inr (False, p) else
           (case become_child env p of
              Inl code \<Rightarrow> Inl code
            | Inr (pid, p) \<Rightarrow> Inr (pid = 0, p)))))"

text \<open>The condition of the second \<open>if\<close>, behind the tests of \<open>result\<close> and \<open>temp\<close>.\<close>

definition dev_null :: string where
  "dev_null = ''/dev/null''"

definition reopen_std :: "process_env \<Rightarrow> process \<Rightarrow> bool \<times> process" where
  "reopen_std env p = (case fd_open env dev_null O_RDONLY p of (fd, p) \<Rightarrow>
     if fd \<noteq> 0 then (False, p) else
     (case fd_open env dev_null O_WRONLY p of (fd, p) \<Rightarrow>
       if fd \<noteq> 1 then (False, p) else
       (case fd_open env dev_null O_WRONLY p of (fd, p) \<Rightarrow> (fd = 2, p))))"

definition become_daemon :: "process_env \<Rightarrow> process \<Rightarrow> int + int \<times> process" where
  "become_daemon env p = (case detach env p of
     Inl code \<Rightarrow> Inl code
   | Inr (detached, p) \<Rightarrow> (let
       result = (if detached then 0 else - 1);
       (temp, p) = fd_close env 0 p;
       (c, p) = fd_close env 1 p;
       temp = temp OR c;
       (c, p) = fd_close env 2 p;
       temp = temp OR c
       in if result = (0 :: int) \<and> temp = 0 then
            (case reopen_std env p of (ok, p) \<Rightarrow> Inr (if ok then 0 else - 1, p))
          else Inr (- 1, p)))"

section \<open>Lemmas\<close>

lemma fd_close_fields [simp]:
  "dp_forks (snd (fd_close env fd p)) = dp_forks p" "dp_leader (snd (fd_close env fd p)) = dp_leader p"
  "dp_ignored (snd (fd_close env fd p)) = dp_ignored p"
  "length (dp_fds (snd (fd_close env fd p))) = length (dp_fds p)"
  by (simp_all add: fd_close_def)

lemma fds_three:
  assumes "3 \<le> length fds"
  obtains a b c r where "fds = a # b # c # r"
  using assms by (auto simp: numeral_eq_Suc Suc_le_length_iff)

text \<open>Descriptors 0, 1 and 2 after the three calls of \<open>close\<close>, with the result of each.\<close>

definition closing :: "process_env \<Rightarrow> process \<Rightarrow> nat \<Rightarrow> int" where
  "closing env p fd = (if fd < length (dp_fds p) \<and> dp_fds p ! fd \<noteq> None then de_close env fd else - 1)"

lemma reopen_closed:
  assumes "dp_fds p = None # None # None # r"
  shows "reopen_std env p = (de_open env 0 \<and> de_open env 1 \<and> de_open env 2,
    p\<lparr>dp_fds := (if de_open env 0 then Some (dev_null, O_RDONLY) else None) #
       (if de_open env 0 \<and> de_open env 1 then Some (dev_null, O_WRONLY) else None) #
       (if de_open env 0 \<and> de_open env 1 \<and> de_open env 2 then Some (dev_null, O_WRONLY) else None) # r\<rparr>)"
  using assms by (cases p) (simp add: reopen_std_def fd_open_def lowest_free_def Let_def numeral_2_eq_2)

lemma fd_close_run:
  assumes "fd < length (dp_fds p)"
  shows "fd_close env fd p = (closing env p fd, p\<lparr>dp_fds := (dp_fds p)[fd := None]\<rparr>)"
proof (cases "dp_fds p ! fd")
  case None
  then have "(dp_fds p)[fd := None] = dp_fds p" by (metis list_update_id)
  then show ?thesis using None by (simp add: fd_close_def closing_def)
qed (use assms in \<open>simp add: fd_close_def closing_def\<close>)

lemma close_three:
  assumes "dp_fds p = a # b # c # r"
  shows "fd_close env 0 p = (closing env p 0, p\<lparr>dp_fds := None # b # c # r\<rparr>)"
    "fd_close env 1 (p\<lparr>dp_fds := None # b # c # r\<rparr>) = (closing env p 1, p\<lparr>dp_fds := None # None # c # r\<rparr>)"
    "fd_close env 2 (p\<lparr>dp_fds := None # None # c # r\<rparr>) = (closing env p 2, p\<lparr>dp_fds := None # None # None # r\<rparr>)"
  using assms fd_close_run [of 0 p env] fd_close_run [of 1 "p\<lparr>dp_fds := None # b # c # r\<rparr>" env]
    fd_close_run [of 2 "p\<lparr>dp_fds := None # None # c # r\<rparr>" env]
  by (simp_all add: closing_def numeral_2_eq_2)

lemma or_zero: "(a OR b = 0) = (a = 0 \<and> b = 0)" for a b :: int
  by (rule or_eq_0_iff)

lemma detach_cases:
  "detach env p = (
     if de_fork env (dp_forks p) > 0 then Inl 0
     else if de_fork env (dp_forks p) < 0 then Inr (False, p\<lparr>dp_forks := dp_forks p + 1\<rparr>)
     else if de_setsid env \<le> 0 then Inr (False, p\<lparr>dp_forks := dp_forks p + 1, dp_leader := False\<rparr>)
     else if de_sigaction env SIGHUP \<noteq> 0 then Inr (False, p\<lparr>dp_forks := dp_forks p + 1, dp_leader := True\<rparr>)
     else if de_fork env (dp_forks p + 1) > 0 then Inl 0
     else Inr (de_fork env (dp_forks p + 1) = 0, p\<lparr>dp_forks := dp_forks p + 2,
       dp_leader := (de_fork env (dp_forks p + 1) \<noteq> 0), dp_ignored := (SIGHUP, False) # dp_ignored p\<rparr>))"
  by (cases p) (auto simp: detach_def become_child_def setsid_def ignore_signal_def Let_def)

lemma detach_fds: "detach env p = Inr (d, p') \<Longrightarrow> dp_fds p' = dp_fds p"
  by (auto simp: detach_cases split: if_splits)

lemma become_daemon_closes:
  assumes "detach env p = Inr (d, p')" "dp_fds p = a # b # c # r"
  shows "become_daemon env p =
    (if d \<and> closing env p 0 = 0 \<and> closing env p 1 = 0 \<and> closing env p 2 = 0
     then case reopen_std env (p'\<lparr>dp_fds := None # None # None # r\<rparr>) of (ok, q) \<Rightarrow> Inr (if ok then 0 else - 1, q)
     else Inr (- 1, p'\<lparr>dp_fds := None # None # None # r\<rparr>))"
proof -
  have fds: "dp_fds p' = a # b # c # r" using detach_fds [OF assms(1)] assms(2) by simp
  have "closing env p' fd = closing env p fd" for fd using fds assms(2) by (simp add: closing_def)
  then show ?thesis
    using assms(1) close_three [OF fds, of env] by (simp add: become_daemon_def or_zero)
qed

section \<open>Properties\<close>

text \<open>
  C40: in a process with at least three descriptor slots \<open>become_daemon\<close> ends the process with
  code 0 in a parent; otherwise it returns 0 exactly when every step succeeds: both forks as the
  child, \<open>setsid\<close>, \<open>sigaction\<close>, the closing of all three standard descriptors and their reopening.
  Then the process ignores \<open>SIGHUP\<close>, leads no session, and has \<open>/dev/null\<close> on the standard
  descriptors; otherwise it returns -1, and descriptor 2 is closed. No other descriptor changes.
\<close>

theorem become_daemon_exact:
  fixes env :: process_env and p :: process
  assumes "3 \<le> length (dp_fds p)"
  defines "first \<equiv> de_fork env (dp_forks p)" and "second \<equiv> de_fork env (dp_forks p + 1)"
  defines "session \<equiv> first = 0 \<and> 0 < de_setsid env \<and> de_sigaction env SIGHUP = 0"
  shows "case become_daemon env p of
     Inl code \<Rightarrow> code = 0 \<and> (0 < first \<or> session \<and> 0 < second)
   | Inr (result, p') \<Rightarrow> \<not> (0 < first \<or> session \<and> 0 < second) \<and> drop 3 (dp_fds p') = drop 3 (dp_fds p) \<and>
       (if session \<and> second = 0 \<and> closing env p 0 = 0 \<and> closing env p 1 = 0 \<and> closing env p 2 = 0 \<and>
          de_open env 0 \<and> de_open env 1 \<and> de_open env 2
        then result = 0 \<and> \<not> dp_leader p' \<and> dp_ignored p' = (SIGHUP, False) # dp_ignored p \<and>
          take 3 (dp_fds p') = [Some (dev_null, O_RDONLY), Some (dev_null, O_WRONLY), Some (dev_null, O_WRONLY)]
        else result = - 1 \<and> dp_fds p' ! 2 = None)"
proof -
  obtain a b c r where fds: "dp_fds p = a # b # c # r" using assms(1) by (rule fds_three)
  show ?thesis
  proof (cases "detach env p")
    case (Inl code)
    then show ?thesis
      by (auto simp: become_daemon_def detach_cases first_def second_def session_def split: if_splits)
  next
    case (Inr dp)
    then obtain d p' where d: "detach env p = Inr (d, p')" by (cases dp) simp
    have no_parent: "\<not> (0 < first \<or> session \<and> 0 < second)"
      using d by (auto simp: detach_cases first_def second_def session_def split: if_splits)
    have dd: "d \<longleftrightarrow> session \<and> second = 0"
      using d by (auto simp: detach_cases first_def second_def session_def split: if_splits)
    have fields: "d \<Longrightarrow> \<not> dp_leader p' \<and> dp_ignored p' = (SIGHUP, False) # dp_ignored p"
      using d by (auto simp: detach_cases split: if_splits)
    show ?thesis
      using no_parent dd fields fds reopen_closed [of "p'\<lparr>dp_fds := None # None # None # r\<rparr>" r env]
      unfolding become_daemon_closes [OF d fds]
      by (auto simp: numeral_3_eq_3 numeral_2_eq_2)
  qed
qed

theorem become_daemon_witness:
  "\<exists>p'. become_daemon \<lparr>de_fork = \<lambda>_. 0, de_setsid = 1, de_sigaction = \<lambda>_. 0, de_close = \<lambda>_. 0, de_open = \<lambda>_. True\<rparr>
      \<lparr>dp_fds = replicate 3 (Some (''tty'', O_RDWR)), dp_forks = 0, dp_leader = False, dp_ignored = []\<rparr> = Inr (0, p') \<and>
    dp_ignored p' = [(SIGHUP, False)]"
proof -
  let ?env = "\<lparr>de_fork = \<lambda>_. 0, de_setsid = 1, de_sigaction = \<lambda>_. 0, de_close = \<lambda>_. 0, de_open = \<lambda>_. True\<rparr>"
  let ?p = "\<lparr>dp_fds = replicate 3 (Some (''tty'', O_RDWR)), dp_forks = 0, dp_leader = False, dp_ignored = []\<rparr>"
  have "3 \<le> length (dp_fds ?p)" by simp
  from become_daemon_exact [OF this, of ?env] show ?thesis
    by (auto simp: closing_def split: sum.splits prod.splits)
qed

end
