(* ===== verification/Utils_Library.thy ===== *)
theory Utils_Library
  imports C_Base
begin

text \<open>
  The wrappers of \<open>common/utils_library.c\<close> around the dynamic linker. The linker is a parameter:
  what it answers to each call, an error message on the left, and whether a call that succeeds
  keeps the message of an earlier failure (the standard allows it, some linkers discard it). The
  message stays pending until \<open>dlerror\<close> fetches it. Null pointers are \<open>None\<close>. The variadic argument
  \<open>flags\<close> is the one the caller passes.
\<close>

record linker =
  ln_open :: "string \<Rightarrow> i32 \<Rightarrow> string + nat"            \<comment> \<open>\<open>dlopen\<close>: a handle\<close>
  ln_sym :: "nat \<Rightarrow> string \<Rightarrow> string + nat option"      \<comment> \<open>\<open>dlsym\<close>: an address, which may be null\<close>
  ln_close :: "nat \<Rightarrow> string option"                   \<comment> \<open>\<open>dlclose\<close>: its failure\<close>
  ln_keeps :: bool

record lib_world =
  lw_handles :: "nat multiset"                    \<comment> \<open>references to open handles\<close>
  lw_error :: "string option"                     \<comment> \<open>what \<open>dlerror\<close> would answer\<close>
  lw_out :: "string"

definition call_ok :: "linker \<Rightarrow> lib_world \<Rightarrow> lib_world" where
  "call_ok ln w = (if ln_keeps ln then w else w\<lparr>lw_error := None\<rparr>)"

definition call_failed :: "string \<Rightarrow> lib_world \<Rightarrow> lib_world" where
  "call_failed msg w = w\<lparr>lw_error := Some msg\<rparr>"

definition dlopen :: "linker \<Rightarrow> string \<Rightarrow> i32 \<Rightarrow> lib_world \<Rightarrow> nat option \<times> lib_world" where
  "dlopen ln path flags w = (case ln_open ln path flags of
     Inl msg \<Rightarrow> (None, call_failed msg w)
   | Inr h \<Rightarrow> (Some h, (call_ok ln w)\<lparr>lw_handles := add_mset h (lw_handles w)\<rparr>))"

definition dlsym :: "linker \<Rightarrow> nat \<Rightarrow> string \<Rightarrow> lib_world \<Rightarrow> nat option \<times> lib_world" where
  "dlsym ln h name w = (case ln_sym ln h name of
     Inl msg \<Rightarrow> (None, call_failed msg w)
   | Inr p \<Rightarrow> (p, call_ok ln w))"

definition dlclose :: "linker \<Rightarrow> nat \<Rightarrow> lib_world \<Rightarrow> lib_world" where
  "dlclose ln h w = (case ln_close ln h of
     Some msg \<Rightarrow> call_failed msg w
   | None \<Rightarrow> (call_ok ln w)\<lparr>lw_handles := lw_handles w - {#h#}\<rparr>)"

definition dlerror :: "lib_world \<Rightarrow> string option \<times> lib_world" where
  "dlerror w = (lw_error w, w\<lparr>lw_error := None\<rparr>)"

section \<open>The wrappers\<close>

text \<open>\<open>None\<close> as the result: \<open>printf\<close> of a null pointer with \<open>%s\<close> is undefined.\<close>

definition open_library :: "linker \<Rightarrow> string option \<Rightarrow> i32 \<Rightarrow> lib_world \<Rightarrow> (nat option \<times> lib_world) option" where
  "open_library ln p_lib_path flags w = (case p_lib_path of
     None \<Rightarrow> Some (None, w)
   | Some path \<Rightarrow> do {
       let (p_result, w) = dlopen ln path flags w;
       let (err, w) = dlerror w;
       info \<leftarrow> err;
       Some (p_result, w\<lparr>lw_out := lw_out w @ ''open: '' @ path @ ''    info: '' @ info @ [CHR 0x0A]\<rparr>) })"

definition get_symbol_address :: "linker \<Rightarrow> nat option \<Rightarrow> string option \<Rightarrow> lib_world \<Rightarrow> nat option \<times> lib_world" where
  "get_symbol_address ln p_handle p_symbol_name w = (case (p_handle, p_symbol_name) of
     (Some h, Some name) \<Rightarrow> dlsym ln h name w
   | _ \<Rightarrow> (None, w))"

definition close_library :: "linker \<Rightarrow> nat option \<Rightarrow> lib_world \<Rightarrow> lib_world" where
  "close_library ln p_handle w = (case p_handle of
     None \<Rightarrow> w
   | Some h \<Rightarrow> dlclose ln h w)"

text \<open>
  A library that can be opened cannot be opened without undefined behaviour, unless the linker has
  kept the message of an earlier failure: \<open>dlerror\<close> is null, and it is printed. What is printed
  for a failed open is its message; no handle changes, and no message stays pending.
\<close>

lemma open_library_success_undefined:
  "open_library ln (Some path) flags w = None \<longleftrightarrow>
     (\<exists>h. ln_open ln path flags = Inr h) \<and> (ln_keeps ln \<longrightarrow> lw_error w = None)"
  by (cases "lw_error w") (auto simp: open_library_def dlopen_def dlerror_def call_ok_def call_failed_def split: sum.splits)

lemma open_library_failure:
  "open_library ln (Some path) flags w = Some (r, w') \<Longrightarrow> lw_error w' = None \<and>
     (case ln_open ln path flags of
        Inl msg \<Rightarrow> r = None \<and> lw_handles w' = lw_handles w \<and>
          lw_out w' = lw_out w @ ''open: '' @ path @ ''    info: '' @ msg @ [CHR 0x0A]
      | Inr h \<Rightarrow> r = Some h \<and> lw_handles w' = add_mset h (lw_handles w))"
  by (auto simp: open_library_def dlopen_def dlerror_def call_ok_def call_failed_def bind_eq_Some_conv
      split: sum.splits if_splits)

text \<open>With such a linker a successful open after a failed lookup prints the message of the lookup.\<close>

lemma open_library_stale_message:
  assumes "ln_sym ln g name = Inl msg" "ln_open ln path flags = Inr h" "ln_keeps ln"
  shows "\<exists>w'. open_library ln (Some path) flags (snd (get_symbol_address ln (Some g) (Some name) w)) = Some (Some h, w') \<and>
    lw_out w' = lw_out w @ ''open: '' @ path @ ''    info: '' @ msg @ [CHR 0x0A]"
  using assms
  by (simp add: open_library_def get_symbol_address_def dlopen_def dlsym_def dlerror_def call_ok_def call_failed_def)

end
