(* ===== verification/Spec2Isabelle.thy ===== *)
theory Spec2Isabelle
  imports Sort_Quadratic Sort_Shell Sort_Quick Sort_Merge Http_Round Cas_Props Pool_Demo Easy_Log
    Text_Props Utils_Singleton Utils_Daemon Utils_Library
begin

text \<open>
  A verification library for the C and C++ code of the repository \<open>armory\<close>: a collection of
  independent components (sorting routines, an HTTP scanner, a lock-free queue, a thread pool, a
  logger, a text formatter and wrappers around processes and the dynamic linker), each a few
  hundred lines without a common state. The components do not call each other; what they share is
  the prelude, and the interfaces between their own parts are stated as locales.

  \<^bold>\<open>Conventions.\<close> \<open>C_Base\<close> holds the machine types, checked memory (\<open>rd\<close>, \<open>wr\<close>), checked signed
  arithmetic (\<open>ck\<close>) and decimal output. The result type is an option: \<open>None\<close> is undefined
  behaviour or a computation that does not return, so \<open>f x = Some y\<close> states memory safety,
  termination and the result at once. Names are those of the source. An \<open>int\<close> variable is a HOL
  integer with an overflow check, an unsigned one a word; a null pointer is \<open>None\<close>; \<open>exit\<close> and a
  process that kills itself are the left alternative of a sum. The C library, the kernel and
  callbacks are environments: records of functions that give their answers, over which every
  theorem is quantified. No fuel is used: loops are structurally recursive, have a measure, or are
  partial functions whose returning is proved.

  \<^bold>\<open>Sorting\<close> (\<open>classic_sort/src/classic_sort.c\<close>, the macro of \<open>classic_sort.h\<close>).
  \<open>Sort_Spec\<close>: the contract \<open>array_sorter\<close> and rearrangements of a segment. \<open>Sort_Quadratic\<close>
  (\<open>bubble_sort\<close>, \<open>select_sort\<close>, \<open>insert_sort\<close>), \<open>Sort_Shell\<close>, \<open>Sort_Quick\<close>, \<open>Sort_Merge\<close>: one
  definition per loop and function; each routine is shown to meet the contract, with the bound on
  the length up to which it does (\<open>2 ^ 32\<close>, 1610612735, \<open>INT_MAX\<close>, \<open>2 ^ 31\<close>), and what happens
  above it. This theory shows that the
  routines agree, and what is different when \<open>merge_sort\<close> gets no memory.

  \<^bold>\<open>HTTP scanner\<close> (\<open>common/http_peek.c\<close>). \<open>Http_Peek\<close>: all scanners and parsers, with the
  unrolled loop as it is. \<open>Http_Scan\<close>: the contract \<open>safe_scanner\<close> (bounds of reads and of returned
  pointers), the meaning of each scanner, and the unrolled loop equal to the plain one.
  \<open>Http_Parse\<close>: exact acceptance of requests and responses, and memory safety with its one
  exception. \<open>Http_Round\<close>: writing a request and parsing it.

  \<^bold>\<open>Queue\<close> (\<open>common/cas_queue.hpp\<close>). \<open>Cas_Queue\<close>: the ring and its counters, \<open>enqueue\<close> and
  \<open>dequeue\<close> cut into one step per atomic access or slot access, threads and schedules; the size of
  the ring. The atomics are sequentially consistent, as the defaults of \<open>std::atomic\<close> are.
  \<open>Cas_Spsc\<close>: the invariant of one producer and one consumer under every interleaving, through any
  number of wrap-arounds of the counters. \<open>Cas_Props\<close>: the interface \<open>bounded_fifo\<close> and its instance,
  order, progress and length, and the schedules on which two producers, or \<open>size\<close>, go wrong.

  \<^bold>\<open>Thread pool\<close> (\<open>common/thread_pool/thread_pool.c\<close>). \<open>Thread_Pool\<close>: creation, pushing and
  destruction over an environment that answers from the log of events; a specification with
  rotating workers (\<open>worker_pool\<close>), refined by \<open>thread_pool_push_data\<close>; the life of a pool. \<open>Pool_Demo\<close>: the
  client \<open>thread_pool/main.c\<close>.

  \<^bold>\<open>Logger\<close> (\<open>common/easy_log/easy_log.c\<close>, \<open>easy_log.h\<close>). \<open>Easy_Log\<close>: opening, appending, rotation
  and the level macros on a world of files; the lock as the interface \<open>guarded_section\<close>.

  \<^bold>\<open>Text formatter\<close> (\<open>formatted_text/src/formatted_text.cpp\<close>, \<open>formatted_text.h\<close>). \<open>Text_Lines\<close>:
  the two line functions, each equal to a one-pass function on lists in both of its modes.
  \<open>Text_Officer\<close>: the officer, output, reading and saving files, the check of a path, and the entry
  points \<open>formatting_check\<close> and \<open>formatting_file\<close>. \<open>Text_Props\<close>: the interface \<open>line_formatter\<close> of
  the function table, the effect of the entry points on files, checking after formatting, and the
  well-formedness of the officer.

  \<^bold>\<open>Processes and libraries\<close>. \<open>Utils_Singleton\<close> (\<open>common/utils_singleton.c\<close>): the pid file, its lock,
  the kill and the waiting loop, with the behaviour of other processes and the failures of
  \<open>ftruncate\<close> and \<open>dprintf\<close> as parameters.
  \<open>Utils_Daemon\<close> (\<open>common/utils_daemon.c\<close>): one process through both forks, with its descriptor
  table. \<open>Utils_Library\<close> (\<open>common/utils_library.c\<close>): the wrappers of the dynamic linker,
  with the message that \<open>dlerror\<close> would answer as state.

  \<^bold>\<open>Not modelled.\<close> The test drivers (\<open>main_test.c\<close>, \<open>main_test.cpp\<close>) and the printing
  macros of \<open>debug_print.h\<close> only call or print. The Go queue
  under \<open>common/snail_queue\<close> and the shell tools are in other languages. Of the modelled files: the
  variadic text of a log message is a parameter; \<open>fwrite\<close> and \<open>fflush\<close> of a line are one step,
  and neither a failing \<open>fflush\<close> nor \<open>fsync\<close> is modelled; read errors on an open file, output to standard
  error other than the one of \<open>utils_singleton.c\<close>, and the permissions of created files are left
  out; \<open>format_officer_destroy\<close> only frees. The thread pool and the logger are followed for
  callers that do not run at the same time; the queue for any interleaving.
\<close>

section \<open>Properties that span the sorting routines\<close>

text \<open>
  What any sorting routine has to deliver: the first \<open>n\<close> elements rearranged in signed order, the
  rest as it was. Signed order leaves no choice, so there is exactly one such array.
\<close>

definition sorted_version :: "nat \<Rightarrow> i32 list \<Rightarrow> i32 list \<Rightarrow> bool" where
  "sorted_version n a b \<longleftrightarrow> mset (take n b) = mset (take n a) \<and> sorted (map sint (take n b)) \<and> drop n b = drop n a"

lemma sorted_version_iff:
  assumes "n \<le> length a"
  shows "sorted_version n a b \<longleftrightarrow> b = sorted_prefix n a"
proof
  assume b: "sorted_version n a b"
  then have "take n b = sort_key sint (take n a)"
    using sort_key_sint_unique [of "take n b" "take n a"] by (simp add: sorted_version_def)
  moreover have "drop n b = drop n a" using b by (simp add: sorted_version_def)
  ultimately show "b = sorted_prefix n a" unfolding sorted_prefix_def by (metis append_take_drop_id)
next
  assume "b = sorted_prefix n a"
  then show "sorted_version n a b"
    using assms by (simp add: sorted_version_def sorted_prefix_def)
qed

text \<open>
  C5: the six routines are interchangeable as long as \<open>merge_sort\<close> gets its buffer. On every array
  of at most 1610612735 elements each returns, and returns \<open>b\<close> exactly when \<open>b\<close> is the sorted
  version of the array, so all return the same one. When \<open>calloc\<close> fails, \<open>merge_sort\<close> returns the
  array as it was, and then agrees with the others exactly when the array was sorted before.
\<close>

theorem sorting_routines_agree:
  assumes "unat n \<le> length a" "unat n \<le> 1610612735"
  shows "(\<forall>sort_func \<in> {bubble_sort, select_sort, insert_sort, shell_sort, quick_sort, merge_sort True}.
      \<forall>b. sort_func a n = Some b \<longleftrightarrow> sorted_version (unat n) a b) \<and>
    (\<exists>b. sorted_version (unat n) a b) \<and>
    merge_sort False a n = Some a \<and>
    (merge_sort False a n = bubble_sort a n \<longleftrightarrow> sorted (map sint (take (unat n) a)))"
proof -
  have spec: "sorted_version (unat n) a b \<longleftrightarrow> Some (sorted_prefix (unat n) a) = Some b" for b
    using sorted_version_iff [OF assms(1)] by auto
  have n: "unat n \<le> 2 ^ 32" "unat n \<le> 2147483647" "unat n \<le> 2147483648"
    using assms(2) unat_lt_u32 [of n] by simp_all
  have sorts: "bubble_sort a n = Some (sorted_prefix (unat n) a)" "select_sort a n = Some (sorted_prefix (unat n) a)"
    "insert_sort a n = Some (sorted_prefix (unat n) a)" "shell_sort a n = Some (sorted_prefix (unat n) a)"
    "quick_sort a n = Some (sorted_prefix (unat n) a)" "merge_sort True a n = Some (sorted_prefix (unat n) a)"
    using assms n by (auto intro: bubble.sorts select.sorts insert.sorts shell.sorts quick.sorts merge.sorts)
  have "sort_func a n = Some b \<longleftrightarrow> sorted_version (unat n) a b"
    if "sort_func \<in> {bubble_sort, select_sort, insert_sort, shell_sort, quick_sort, merge_sort True}" for sort_func b
    using that sorts unfolding spec by auto
  moreover have "\<exists>b. sorted_version (unat n) a b" unfolding spec by blast
  moreover have none: "merge_sort False a n = Some a" by (simp add: merge_sort_def)
  moreover have "merge_sort False a n = bubble_sort a n \<longleftrightarrow> sorted (map sint (take (unat n) a))"
    unfolding none sorts(1) using spec [of a] by (auto simp: sorted_version_def)
  ultimately show ?thesis by blast
qed

theorem sorting_routines_agree_witness:
  "insert_sort [2, 1, 0] 2 = Some [1, 2, 0] \<and> quick_sort [2, 1, 0] 2 = Some [1, 2, 0] \<and>
    merge_sort False [2, 1, 0] 2 \<noteq> bubble_sort [2, 1, 0] 2"
proof -
  have n: "unat (2 :: u32) = Suc (Suc 0)" by simp
  have b: "sorted_version (unat (2 :: u32)) [2, 1, 0] [1, 2, 0]" unfolding sorted_version_def n by simp
  have a: "\<not> sorted (map sint (take (unat (2 :: u32)) [2, 1, 0 :: i32]))" unfolding n by simp
  have "unat (2 :: u32) \<le> length [2, 1, 0 :: i32]" "unat (2 :: u32) \<le> 1610612735" by simp_all
  note agree = sorting_routines_agree [OF this]
  have "\<forall>sort_func \<in> {bubble_sort, select_sort, insert_sort, shell_sort, quick_sort, merge_sort True}.
      sort_func [2, 1, 0] 2 = Some [1, 2, 0]"
    using agree b by blast
  moreover have "merge_sort False [2, 1, 0] 2 \<noteq> bubble_sort [2, 1, 0] 2" using agree a by blast
  ultimately show ?thesis by blast
qed

end
